(* ===== verification/Prelude.thy ===== *)
theory Prelude
  imports Main "HOL-Library.Word" "HOL-Library.Monad_Syntax"
begin

text \<open>
  Shared vocabulary of the development: the machine types of the Go sources, reading and writing
  a byte range of a memory object (\<open>rd\<close>, \<open>wr\<close>) with the frame lemmas every component uses, and
  the Go slice and index expressions with their run-time panics.

  A Go expression that can panic (an index or a slice out of range, a nil dereference, a fault on
  unmapped memory) has type \<open>'a option\<close>: \<open>None\<close> is the panic. Errors that the code returns as
  values are never \<open>None\<close>; they are values of the component's own error type.
\<close>

unbundle bit_operations_syntax

type_synonym byte = "8 word"
type_synonym bytes = "byte list"
type_synonym go_string = bytes
type_synonym u16 = "16 word"
type_synonym u32 = "32 word"
type_synonym u64 = "64 word"

named_theorems frame_simps \<open>reads that a write leaves alone, and lengths a write keeps\<close>
named_theorems go_defs \<open>the Go expressions: index, slice, put\<close>

section \<open>Byte ranges\<close>

definition rd :: "nat \<Rightarrow> nat \<Rightarrow> 'a list \<Rightarrow> 'a list" where
  "rd off n xs = take n (drop off xs)"

definition wr :: "nat \<Rightarrow> 'a list \<Rightarrow> 'a list \<Rightarrow> 'a list" where
  "wr off ys xs = take off xs @ ys @ drop (off + length ys) xs"

lemma length_rd [simp]: "off + n \<le> length xs \<Longrightarrow> length (rd off n xs) = n"
  by (simp add: rd_def)

lemma length_wr [simp, frame_simps]:
  "off + length ys \<le> length xs \<Longrightarrow> length (wr off ys xs) = length xs"
  by (simp add: wr_def)

lemma nth_rd [simp]: "i < n \<Longrightarrow> off + n \<le> length xs \<Longrightarrow> rd off n xs ! i = xs ! (off + i)"
  by (simp add: rd_def)

lemma nth_wr:
  assumes "off + length ys \<le> length xs" "i < length xs"
  shows "wr off ys xs ! i =
    (if off \<le> i \<and> i < off + length ys then ys ! (i - off) else xs ! i)"
  using assms by (auto simp: wr_def nth_append min_def)

lemma rd_eqI:
  assumes "off + n \<le> length xs" "off + n \<le> length ys"
    and "\<And>i. i < n \<Longrightarrow> xs ! (off + i) = ys ! (off + i)"
  shows "rd off n xs = rd off n ys"
  using assms by (intro nth_equalityI) auto

lemma rd_wr_same [simp]:
  assumes "off + length ys \<le> length xs" "n = length ys"
  shows "rd off n (wr off ys xs) = ys"
  using assms by (intro nth_equalityI) (auto simp: nth_wr)

lemma rd_short: "length xs < off + n \<Longrightarrow> rd off n xs = drop off xs"
  by (simp add: rd_def)

lemma rd_wr_disjoint [frame_simps]:
  assumes "o2 + length ys \<le> length xs" "o1 + n \<le> o2 \<or> o2 + length ys \<le> o1"
  shows "rd o1 n (wr o2 ys xs) = rd o1 n xs"
proof (rule nth_equalityI)
  show "length (rd o1 n (wr o2 ys xs)) = length (rd o1 n xs)"
    using assms by (simp add: rd_def)
  fix i assume "i < length (rd o1 n (wr o2 ys xs))"
  then have "i < n" "o1 + i < length xs" using assms by (auto simp: rd_def)
  then show "rd o1 n (wr o2 ys xs) ! i = rd o1 n xs ! i"
    using assms by (auto simp: rd_def nth_wr)
qed

lemma wr_nil [simp]: "wr off [] xs = xs"
  by (simp add: wr_def)

lemma wr_wr_adjacent:
  assumes "off + length ys + length zs \<le> length xs"
  shows "wr (off + length ys) zs (wr off ys xs) = wr off (ys @ zs) xs"
  using assms by (intro nth_equalityI) (auto simp: nth_wr nth_append)

lemma rd_append:
  assumes "off + (m + n) \<le> length xs"
  shows "rd off (m + n) xs = rd off m xs @ rd (off + m) n xs"
  using assms by (simp add: rd_def take_add add.commute)

lemma rd_rd [simp]:
  assumes "a + b \<le> n"
  shows "rd a b (rd off n xs) = rd (off + a) b xs"
  using assms by (simp add: rd_def drop_take add.commute min_def)

lemma prefix_split:
  assumes "xs @ ys = zs @ us" "length xs \<le> length zs"
  obtains zs' where "zs = xs @ zs'" "ys = zs' @ us"
  using assms by (auto simp: append_eq_append_conv_if split: if_splits) (metis append_take_drop_id)

section \<open>Go index and slice expressions\<close>

definition index :: "'a list \<Rightarrow> int \<Rightarrow> 'a option" where
  \<comment> \<open>the expression \<open>xs[i]\<close>\<close>
  "index xs i = (if 0 \<le> i \<and> i < int (length xs) then Some (xs ! nat i) else None)"

definition slice :: "'a list \<Rightarrow> int \<Rightarrow> int \<Rightarrow> 'a list option" where
  \<comment> \<open>the expression \<open>xs[i:j]\<close>, for a slice whose capacity is its length\<close>
  "slice xs i j =
     (if 0 \<le> i \<and> i \<le> j \<and> j \<le> int (length xs) then Some (rd (nat i) (nat (j - i)) xs) else None)"

definition put_index :: "'a list \<Rightarrow> int \<Rightarrow> 'a \<Rightarrow> 'a list option" where
  \<comment> \<open>the statement \<open>xs[i] = x\<close>\<close>
  "put_index xs i x = (if 0 \<le> i \<and> i < int (length xs) then Some (xs[nat i := x]) else None)"

definition put_slice :: "'a list \<Rightarrow> int \<Rightarrow> int \<Rightarrow> 'a list \<Rightarrow> 'a list option" where
  \<comment> \<open>storing \<open>ys\<close>, whose length is \<open>j - i\<close>, through the slice \<open>xs[i:j]\<close>\<close>
  "put_slice xs i j ys =
     (if 0 \<le> i \<and> i \<le> j \<and> j \<le> int (length xs) then Some (wr (nat i) ys xs) else None)"

definition copy_at :: "'a list \<Rightarrow> int \<Rightarrow> 'a list \<Rightarrow> 'a list option" where
  \<comment> \<open>the statement \<open>copy(xs[i:], ys)\<close>: as many elements as both sides hold\<close>
  "copy_at xs i ys =
     (if 0 \<le> i \<and> i \<le> int (length xs)
      then Some (wr (nat i) (take (length xs - nat i) ys) xs) else None)"

declare index_def [go_defs] slice_def [go_defs] put_index_def [go_defs]
  put_slice_def [go_defs] copy_at_def [go_defs]

lemma index_int [simp]: "i < length xs \<Longrightarrow> index xs (int i) = Some (xs ! i)"
  by (simp add: index_def)

lemma slice_int:
  "i + n \<le> length xs \<Longrightarrow> slice xs (int i) (int i + int n) = Some (rd i n xs)"
  by (simp add: slice_def)

lemma put_slice_int:
  "i + n \<le> length xs \<Longrightarrow> put_slice xs (int i) (int i + int n) ys = Some (wr i ys xs)"
  by (simp add: put_slice_def)

lemma copy_at_int:
  "i + length ys \<le> length xs \<Longrightarrow> copy_at xs (int i) ys = Some (wr i ys xs)"
  by (simp add: copy_at_def)

lemma slice_length: "slice xs i j = Some ys \<Longrightarrow> length ys = nat (j - i)"
  by (auto simp: slice_def split: if_splits)

lemma put_slice_length:
  "put_slice xs i j ys = Some zs \<Longrightarrow> length ys = nat (j - i) \<Longrightarrow> length zs = length xs"
  by (auto simp: put_slice_def split: if_splits)

lemma copy_at_length: "copy_at xs i ys = Some zs \<Longrightarrow> length zs = length xs"
  by (auto simp: copy_at_def split: if_splits)

section \<open>Masks\<close>

text \<open>\<open>x & (2^k - 1)\<close> on Go ints is the remainder modulo \<open>2^k\<close>.\<close>

lemma int_and_mask: "int x AND (2 ^ k - 1) = int (x mod 2 ^ k)"
proof -
  have "int x AND (2 ^ k - 1) = take_bit k (int x)"
    by (simp add: take_bit_eq_mask mask_eq_exp_minus_1)
  then show ?thesis by (simp add: take_bit_eq_mod zmod_int)
qed

lemma int_suc_and_mask: "(int x + 1) AND (2 ^ k - 1) = int (Suc x mod 2 ^ k)"
  using int_and_mask [of "Suc x" k] by (simp add: add.commute)

section \<open>Words as numbers\<close>

lemma unat_of_nat_small: "n < 2 ^ LENGTH('a) \<Longrightarrow> unat (of_nat n :: 'a::len word) = n"
  by (simp add: unat_of_nat take_bit_nat_eq_self)

lemma unat_exp: "k < LENGTH('a) \<Longrightarrow> unat (2 ^ k :: 'a::len word) = 2 ^ k"
  using unat_of_nat_small [of "2 ^ k", where 'a = 'a] by simp

lemma uint_of_int_small:
  "0 \<le> n \<Longrightarrow> n < 2 ^ LENGTH('a) \<Longrightarrow> uint (word_of_int n :: 'a::len word) = n"
  by (simp add: unsigned_of_int take_bit_int_eq_self)

lemma sint_of_int_small:
  "0 \<le> n \<Longrightarrow> n < 2 ^ (LENGTH('a) - 1) \<Longrightarrow> sint (word_of_int n :: 'a::len word) = n"
  by (simp add: signed_of_int signed_take_bit_int_eq_self)

end
