(* ===== verification/Types.thy ===== *)
theory Types
  imports Prelude
begin

text \<open>
  \<open>pkg/featcache/types.go\<close>: the layout constants, the slot record and its status codes, the
  protocol's operation and status codes, and the two sizing functions \<open>Align\<close> and \<open>NextPow2\<close> at
  their 32-bit width. The lemmas say what the two compute as numbers, and where they wrap.
\<close>

section \<open>Layout constants\<close>

definition Magic :: u32 where [simp]: "Magic = 0x46454154"
definition Version :: u32 where [simp]: "Version = 1"
definition HeaderSize :: int where [simp]: "HeaderSize = 64"
definition SlotSize :: int where [simp]: "SlotSize = 24"
definition SegmentDefaultSize :: int where [simp]: "SegmentDefaultSize = 2 * 2 ^ 30"
definition MaxKeyLen :: nat where [simp]: "MaxKeyLen = 256"

section \<open>Slots\<close>

definition SlotEmpty :: u32 where [simp]: "SlotEmpty = 0"
definition SlotUsed :: u32 where [simp]: "SlotUsed = 1"
definition SlotTomb :: u32 where [simp]: "SlotTomb = 2"

record hash_slot =
  Hash :: u64
  Offset :: u32
  VLen :: u32
  Status :: u32

section \<open>Protocol codes\<close>

definition OpGetInfo :: byte where [simp]: "OpGetInfo = 0x01"
definition OpGetStatus :: byte where [simp]: "OpGetStatus = 0x02"
definition OpWatch :: byte where [simp]: "OpWatch = 0x03"
definition OpPin :: byte where [simp]: "OpPin = 0x04"
definition OpPrefetch :: byte where [simp]: "OpPrefetch = 0x05"
definition OpEvict :: byte where [simp]: "OpEvict = 0x06"
definition OpList :: byte where [simp]: "OpList = 0x07"
definition OpReload :: byte where [simp]: "OpReload = 0x08"

definition RespOK :: byte where [simp]: "RespOK = 0x00"
definition RespNotFound :: byte where [simp]: "RespNotFound = 0x01"
definition RespBusy :: byte where [simp]: "RespBusy = 0x02"
definition RespError :: byte where [simp]: "RespError = 0x03"

section \<open>Sizing\<close>

definition Align :: "u32 \<Rightarrow> u32 \<Rightarrow> u32" where
  "Align v n = (v + n - 1) AND NOT (n - 1)"

definition NextPow2 :: "u32 \<Rightarrow> u32" where
  "NextPow2 v =
    (if v = 0 then 1
     else let v = v - 1;
              v = v OR drop_bit 1 v;
              v = v OR drop_bit 2 v;
              v = v OR drop_bit 4 v;
              v = v OR drop_bit 8 v;
              v = v OR drop_bit 16 v
          in v + 1)"

subsection \<open>What \<open>NextPow2\<close> computes\<close>

text \<open>
  After the five shifts every bit below the highest set bit of \<open>v - 1\<close> is set: the result is
  \<open>2 ^ k - 1\<close> for the least \<open>k\<close> with \<open>v - 1 < 2 ^ k\<close>.
\<close>

definition smear :: "u32 \<Rightarrow> u32" where
  "smear v =
    (let v = v OR drop_bit 1 v;
         v = v OR drop_bit 2 v;
         v = v OR drop_bit 4 v;
         v = v OR drop_bit 8 v
     in v OR drop_bit 16 v)"

lemma NextPow2_smear: "NextPow2 v = (if v = 0 then 1 else smear (v - 1) + 1)"
  by (simp add: NextPow2_def smear_def Let_def)

lemma bit_or_shift:
  assumes "\<And>i. bit (x :: u32) i \<longleftrightarrow> (\<exists>d<m. bit v (i + d))"
  shows "bit (x OR drop_bit m x) i \<longleftrightarrow> (\<exists>d<2 * m. bit v (i + d))"
proof
  assume "bit (x OR drop_bit m x) i"
  then consider d where "d < m" "bit v (i + d)" | d where "d < m" "bit v (i + (m + d))"
    by (auto simp: bit_or_iff bit_drop_bit_eq assms ac_simps)
  then show "\<exists>d<2 * m. bit v (i + d)"
  proof cases
    case 1
    then show ?thesis by (intro exI [of _ d]) simp
  next
    case 2
    then show ?thesis by (intro exI [of _ "m + d"]) simp
  qed
next
  assume "\<exists>d<2 * m. bit v (i + d)"
  then obtain d where d: "d < 2 * m" "bit v (i + d)" by blast
  show "bit (x OR drop_bit m x) i"
  proof (cases "d < m")
    case True
    with d show ?thesis by (auto simp: bit_or_iff assms)
  next
    case False
    with d have "d - m < m" "bit v (m + i + (d - m))" by (auto simp: ac_simps)
    then show ?thesis by (auto simp: bit_or_iff bit_drop_bit_eq assms)
  qed
qed

lemma bit_smear: "bit (smear v) i \<longleftrightarrow> (\<exists>d<32. bit v (i + d))"
proof -
  note step = bit_or_shift [where v = v]
  have "bit v i \<longleftrightarrow> (\<exists>d<1. bit v (i + d))" for i by simp
  from step [OF this] step [OF step [OF this]] step [OF step [OF step [OF this]]]
    step [OF step [OF step [OF step [OF this]]]]
    step [OF step [OF step [OF step [OF step [OF this]]]]]
  show ?thesis by (simp add: smear_def Let_def)
qed

text \<open>A word whose highest set bit is \<open>m\<close> lies between \<open>2 ^ m\<close> and \<open>2 ^ (m + 1)\<close>.\<close>

definition top_bit :: "u32 \<Rightarrow> nat \<Rightarrow> bool" where
  "top_bit w m \<longleftrightarrow> bit w m \<and> (\<forall>i. bit w i \<longrightarrow> i \<le> m)"

lemma top_bit_exists:
  assumes "w \<noteq> 0"
  obtains m where "top_bit w m"
proof -
  have fin: "finite {i. bit w i}"
    by (rule finite_subset [of _ "{..<32}"]) (auto dest: bit_imp_le_length)
  have "{i. bit w i} \<noteq> {}" using assms by (auto simp: bit_eq_iff)
  with fin have "Max {i. bit w i} \<in> {i. bit w i}" by (rule Max_in)
  then show ?thesis using fin by (intro that [of "Max {i. bit w i}"]) (auto simp: top_bit_def)
qed

lemma top_bit_bounds:
  assumes "top_bit w m"
  shows "m < 32" "2 ^ m \<le> unat w" "unat w < 2 ^ Suc m"
proof -
  show m: "m < 32" using assms by (auto simp: top_bit_def dest: bit_imp_le_length)
  show "2 ^ m \<le> unat w"
  proof (rule ccontr)
    assume "\<not> 2 ^ m \<le> unat w"
    then have "take_bit m (unat w) = unat w" by (simp add: take_bit_nat_eq_self)
    then have "take_bit m w = w" by (metis unsigned_take_bit_eq word_unat_eq_iff)
    then show False using assms by (metis bit_take_bit_iff less_irrefl top_bit_def)
  qed
  have "take_bit (Suc m) w = w"
    by (rule bit_eqI) (use assms in \<open>auto simp: bit_take_bit_iff top_bit_def\<close>)
  then have "take_bit (Suc m) (unat w) = unat w" by (metis unsigned_take_bit_eq)
  then show "unat w < 2 ^ Suc m" by (metis take_bit_nat_less_exp)
qed

lemma smear_top_bit:
  assumes "top_bit w m"
  shows "smear w = mask (Suc m)"
proof (rule bit_eqI)
  fix i assume i: "possible_bit TYPE(u32) i"
  note b = assms [unfolded top_bit_def]
  have "m < 32" using assms by (rule top_bit_bounds)
  have "bit (smear w) i \<longleftrightarrow> i \<le> m"
  proof
    assume "bit (smear w) i"
    then obtain d where "bit w (i + d)" by (auto simp: bit_smear)
    with b show "i \<le> m" by fastforce
  next
    assume "i \<le> m"
    with b \<open>m < 32\<close> show "bit (smear w) i" by (auto simp: bit_smear intro: exI [of _ "m - i"])
  qed
  with i show "bit (smear w) i = bit (mask (Suc m) :: u32) i" by (auto simp: bit_mask_iff)
qed

lemma NextPow2_top_bit:
  assumes "1 < unat v" "top_bit (v - 1) m"
  shows "NextPow2 v = 2 ^ Suc m"
  using assms by (auto simp: NextPow2_smear smear_top_bit mask_eq_exp_minus_1)

lemma unat_pred: "v \<noteq> 0 \<Longrightarrow> unat (v - 1 :: u32) = unat v - 1"
  by (simp add: unat_minus_one)

lemma NextPow2_cases:
  obtains (small) "unat v \<le> 1" "NextPow2 v = 1"
  | (pow) m where "1 < unat v" "top_bit (v - 1) m" "NextPow2 v = 2 ^ Suc m"
      "2 ^ m < unat v" "unat v \<le> 2 ^ Suc m" "m < 32"
proof (cases "unat v \<le> 1")
  case True
  then have "v = 0 \<or> v = 1" by (auto simp: word_unat_eq_iff)
  then have "NextPow2 v = 1" by (auto simp: NextPow2_def)
  with True show ?thesis by (rule small)
next
  case False
  then have v: "v \<noteq> 0" "v - 1 \<noteq> 0" "1 < unat v" by auto
  from v(2) obtain m where m: "top_bit (v - 1) m" by (rule top_bit_exists)
  have "2 ^ m < unat v" "unat v \<le> 2 ^ Suc m"
    using top_bit_bounds(2,3) [OF m] v by (auto simp: unat_pred)
  with m v NextPow2_top_bit [OF v(3) m] top_bit_bounds(1) [OF m] show ?thesis by (intro pow)
qed

text \<open>
  C40. Up to \<open>2^31\<close>, \<open>NextPow2 v\<close> is the least power of two that is at least
  \<open>v\<close>; above \<open>2^31\<close> no 32-bit power of two is left and the final increment
  wraps to \<open>0\<close>, a table of no slots.
\<close>

theorem NextPow2_least:
  "if unat v \<le> 2 ^ 31
   then \<exists>k\<le>31. unat (NextPow2 v) = 2 ^ k \<and> unat v \<le> 2 ^ k \<and> (\<forall>j<k. 2 ^ j < unat v)
   else NextPow2 v = 0"
proof (cases v rule: NextPow2_cases)
  case small
  then show ?thesis by (auto intro!: exI [of _ 0])
next
  case (pow m)
  have below: "2 ^ j < unat v" if "j < Suc m" for j
    using pow(4) that by (meson less_Suc_eq_le le_less_trans one_le_numeral power_increasing)
  show ?thesis
  proof (cases "m < 31")
    case True
    then have "(2::nat) ^ Suc m \<le> 2 ^ 31" by (intro power_increasing) auto
    moreover have "unat (2 ^ Suc m :: u32) = 2 ^ Suc m"
      using True by (subst unat_exp) auto
    ultimately show ?thesis using pow True below by (auto intro!: exI [of _ "Suc m"] simp del: power_Suc)
  next
    case False
    with pow have "m = 31" by simp
    with pow show ?thesis by (simp add: word_eq_iff_unsigned)
  qed
qed

theorem NextPow2_least_witness:
  "unat (NextPow2 5) = 8 \<and> NextPow2 3000000000 = 0 \<and>
   (\<exists>k\<le>31. unat (NextPow2 5) = 2 ^ k \<and> unat (5::u32) \<le> 2 ^ k \<and> (\<forall>j<k. 2 ^ j < unat (5::u32)))"
  using NextPow2_least [of 5] NextPow2_least [of 3000000000] by (simp add: NextPow2_def)

subsection \<open>What \<open>Align\<close> computes\<close>

lemma and_not_low_mask: "x AND NOT (2 ^ k - 1) = (push_bit k (drop_bit k x) :: 'a::len word)"
  by (rule bit_eqI)
    (auto simp: bit_and_iff bit_not_iff bit_push_bit_iff bit_drop_bit_eq bit_mask_iff
      simp flip: mask_eq_exp_minus_1)

lemma unat_and_not_low_mask:
  "unat (x AND NOT (2 ^ k - 1) :: 'a::len word) = unat x div 2 ^ k * 2 ^ k"
proof -
  have "unat x div 2 ^ k * 2 ^ k \<le> unat x" by simp
  also have "\<dots> < 2 ^ LENGTH('a)" by (rule unsigned_less)
  finally have "take_bit LENGTH('a) (push_bit k (drop_bit k (unat x))) = unat x div 2 ^ k * 2 ^ k"
    by (simp add: push_bit_eq_mult drop_bit_eq_div take_bit_nat_eq_self)
  moreover have "take_bit LENGTH('a) (unat x) = unat x" by (simp add: take_bit_nat_eq_self)
  ultimately show ?thesis
    by (simp only: and_not_low_mask unsigned_push_bit_eq unsigned_drop_bit_eq)
qed

lemma unat_Align:
  assumes "k < 32" "unat v + 2 ^ k \<le> 2 ^ 32"
  shows "unat (Align v (2 ^ k)) = (unat v + 2 ^ k - 1) div 2 ^ k * 2 ^ k"
proof -
  have "unat (2 ^ k - 1 :: u32) = 2 ^ k - 1"
    using assms(1) by (subst unat_minus_one) (auto simp: unat_exp)
  then have "unat (v + (2 ^ k - 1)) = unat v + (2 ^ k - 1)"
    using assms by (subst unat_add_lem [THEN iffD1]) auto
  then show ?thesis
    by (simp add: Align_def unat_and_not_low_mask add_diff_eq [symmetric] del: add_diff_eq)
qed

text \<open>
  For a power of two \<open>n\<close>, and as long as \<open>v + n\<close> does not pass the end of the 32-bit
  range, \<open>Align v n\<close> is the least multiple of \<open>n\<close> that is at least \<open>v\<close>.
\<close>

lemma Align_least:
  assumes "k < 32" "unat v + 2 ^ k \<le> 2 ^ 32"
  shows "2 ^ k dvd unat (Align v (2 ^ k)) \<and> unat v \<le> unat (Align v (2 ^ k)) \<and>
    unat (Align v (2 ^ k)) < unat v + 2 ^ k"
proof -
  define n q where "n = (2::nat) ^ k" and "q = (unat v + n - 1) div n"
  have "0 < n" by (simp add: n_def)
  have "(unat v + n - 1) div n * n + (unat v + n - 1) mod n = unat v + n - 1" by simp
  moreover have "(unat v + n - 1) mod n < n" using \<open>0 < n\<close> by simp
  ultimately have "unat v \<le> q * n" "q * n < unat v + n"
    using \<open>0 < n\<close> unfolding q_def by linarith+
  then show ?thesis
    unfolding unat_Align [OF assms] n_def [symmetric] q_def [symmetric] by simp
qed

end
