(* ===== verification/Encoding.thy ===== *)
theory Encoding
  imports Prelude
begin

text \<open>
  What the sources use of the standard library to move numbers through bytes: the little-endian
  and big-endian \<open>Uint\<close>/\<open>PutUint\<close> functions of \<open>encoding/binary\<close> at any width, loads and stores
  of a word at a byte offset of a slice, and \<open>io.ReadFull\<close> over the bytes a reader has left.
  The lemmas are the round trips between words and bytes in both directions.
\<close>

section \<open>Words and byte strings\<close>

fun le_bytes :: "nat \<Rightarrow> 'a::len word \<Rightarrow> bytes" where
  "le_bytes 0 w = []"
| "le_bytes (Suc n) w = ucast w # le_bytes n (drop_bit 8 w)"

fun le_word :: "bytes \<Rightarrow> 'a::len word" where
  "le_word [] = 0"
| "le_word (b # bs) = ucast b OR push_bit 8 (le_word bs)"

definition be_bytes :: "nat \<Rightarrow> 'a::len word \<Rightarrow> bytes" where
  "be_bytes n w = rev (le_bytes n w)"

definition be_word :: "bytes \<Rightarrow> 'a::len word" where
  "be_word bs = le_word (rev bs)"

lemma length_le_bytes [simp]: "length (le_bytes n w) = n"
  by (induction n w rule: le_bytes.induct) auto

lemma length_be_bytes [simp]: "length (be_bytes n w) = n"
  by (simp add: be_bytes_def)

lemma bit_le_word_Cons:
  "bit (le_word (b # bs) :: 'a::len word) i \<longleftrightarrow>
    i < LENGTH('a) \<and> (if i < 8 then bit b i else bit (le_word bs :: 'a word) (i - 8))"
  by (auto simp: bit_or_iff bit_push_bit_iff bit_ucast_iff dest: bit_imp_le_length)

lemma le_word_le_bytes_take: "le_word (le_bytes n w) = (take_bit (8 * n) w :: 'a::len word)"
proof (induction n w rule: le_bytes.induct)
  case (1 w)
  then show ?case by simp
next
  case (2 n w)
  show ?case
    by (rule bit_eqI)
      (auto simp: bit_le_word_Cons 2 bit_take_bit_iff bit_drop_bit_eq bit_ucast_iff
        simp del: le_word.simps)
qed

lemma le_word_le_bytes [simp]:
  assumes "LENGTH('a) \<le> 8 * n"
  shows "le_word (le_bytes n w) = (w :: 'a::len word)"
proof -
  have "take_bit (8 * n) w = w"
    by (rule bit_eqI) (use assms in \<open>auto simp: bit_take_bit_iff dest: bit_imp_le_length\<close>)
  then show ?thesis by (simp add: le_word_le_bytes_take)
qed

lemma le_bytes_le_word [simp]:
  assumes "n = length bs" "8 * length bs \<le> LENGTH('a)"
  shows "le_bytes n (le_word bs :: 'a::len word) = bs"
  using assms
proof (induction bs arbitrary: n)
  case Nil
  then show ?case by simp
next
  case (Cons b bs)
  have "ucast (le_word (b # bs) :: 'a word) = b"
    by (rule bit_eqI) (use Cons.prems in \<open>auto simp: bit_ucast_iff bit_le_word_Cons simp del: le_word.simps\<close>)
  moreover have "drop_bit 8 (le_word (b # bs) :: 'a word) = take_bit (LENGTH('a) - 8) (le_word bs)"
    by (rule bit_eqI) (use Cons.prems in \<open>auto simp: bit_drop_bit_eq bit_le_word_Cons bit_take_bit_iff
        simp del: le_word.simps dest: bit_imp_le_length\<close>)
  moreover have "take_bit (LENGTH('a) - 8) (le_word bs) = (le_word bs :: 'a word)"
  proof -
    let ?w = "le_word bs :: 'a word"
    have le: "8 * length bs \<le> LENGTH('a) - 8" using Cons.prems by simp
    have "le_bytes (length bs) ?w = bs" using Cons.prems by (intro Cons.IH) auto
    then have w: "take_bit (8 * length bs) ?w = ?w" by (metis le_word_le_bytes_take)
    have "take_bit (LENGTH('a) - 8) (take_bit (8 * length bs) ?w) = take_bit (8 * length bs) ?w"
      using le by (simp add: min_def)
    with w show ?thesis by simp
  qed
  ultimately show ?case using Cons by (simp del: le_word.simps)
qed

lemma be_word_be_bytes [simp]:
  "LENGTH('a) \<le> 8 * n \<Longrightarrow> be_word (be_bytes n w) = (w :: 'a::len word)"
  by (simp add: be_word_def be_bytes_def)

lemma be_bytes_be_word [simp]:
  "n = length bs \<Longrightarrow> 8 * length bs \<le> LENGTH('a) \<Longrightarrow> be_bytes n (be_word bs :: 'a::len word) = bs"
  by (simp add: be_word_def be_bytes_def)

section \<open>Loads and stores at a byte offset\<close>

text \<open>\<open>binary.LittleEndian.Uint32(data[off : off+4])\<close> and its relatives.\<close>

definition get_u32 :: "bytes \<Rightarrow> int \<Rightarrow> u32 option" where
  "get_u32 data off = map_option le_word (slice data off (off + 4))"

definition get_u64 :: "bytes \<Rightarrow> int \<Rightarrow> u64 option" where
  "get_u64 data off = map_option le_word (slice data off (off + 8))"

definition put_u32 :: "bytes \<Rightarrow> int \<Rightarrow> u32 \<Rightarrow> bytes option" where
  "put_u32 data off w = put_slice data off (off + 4) (le_bytes 4 w)"

definition put_u64 :: "bytes \<Rightarrow> int \<Rightarrow> u64 \<Rightarrow> bytes option" where
  "put_u64 data off w = put_slice data off (off + 8) (le_bytes 8 w)"

text \<open>
  \<open>sync/atomic\<close> on a 32-bit word of the slice, addressed by the pointer to its first byte: the
  host is little-endian, as the sources say of x86 and ARM.
\<close>

definition atomic_load_u32 :: "bytes \<Rightarrow> int \<Rightarrow> u32 option" where
  "atomic_load_u32 data off = get_u32 data off"

definition atomic_store_u32 :: "bytes \<Rightarrow> int \<Rightarrow> u32 \<Rightarrow> bytes option" where
  "atomic_store_u32 data off w = put_u32 data off w"

definition atomic_cas_u32 :: "bytes \<Rightarrow> int \<Rightarrow> u32 \<Rightarrow> u32 \<Rightarrow> (bool \<times> bytes) option" where
  "atomic_cas_u32 data off old new =
    do { cur \<leftarrow> get_u32 data off;
         if cur = old then do { data \<leftarrow> put_u32 data off new; Some (True, data) }
         else Some (False, data) }"

text \<open>The same as functions of a natural offset, for the places where the range is known.\<close>

definition u32_at :: "bytes \<Rightarrow> nat \<Rightarrow> u32" where
  "u32_at data off = le_word (rd off 4 data)"

definition u64_at :: "bytes \<Rightarrow> nat \<Rightarrow> u64" where
  "u64_at data off = le_word (rd off 8 data)"

lemma get_u32_at [simp]: "off + 4 \<le> length data \<Longrightarrow> get_u32 data (int off) = Some (u32_at data off)"
  by (simp add: get_u32_def u32_at_def slice_def)

lemma get_u64_at [simp]: "off + 8 \<le> length data \<Longrightarrow> get_u64 data (int off) = Some (u64_at data off)"
  by (simp add: get_u64_def u64_at_def slice_def)

lemma put_u32_at [simp]:
  "off + 4 \<le> length data \<Longrightarrow> put_u32 data (int off) w = Some (wr off (le_bytes 4 w) data)"
  by (simp add: put_u32_def put_slice_def)

lemma put_u64_at [simp]:
  "off + 8 \<le> length data \<Longrightarrow> put_u64 data (int off) w = Some (wr off (le_bytes 8 w) data)"
  by (simp add: put_u64_def put_slice_def)

lemma get_u32_None [simp]: "length data < off + 4 \<Longrightarrow> get_u32 data (int off) = None"
  by (simp add: get_u32_def slice_def)

lemma put_u32_length: "put_u32 data off w = Some data' \<Longrightarrow> length data' = length data"
  by (auto simp: put_u32_def intro: put_slice_length)

lemma put_u64_length: "put_u64 data off w = Some data' \<Longrightarrow> length data' = length data"
  by (auto simp: put_u64_def intro: put_slice_length)

lemma cas_at [simp]:
  "off + 4 \<le> length data \<Longrightarrow> atomic_cas_u32 data (int off) (u32_at data off) new =
    Some (True, wr off (le_bytes 4 new) data)"
  by (simp add: atomic_cas_u32_def)

lemma u32_at_wr_same [simp]:
  "off + 4 \<le> length data \<Longrightarrow> u32_at (wr off (le_bytes 4 w) data) off = w"
  by (simp add: u32_at_def)

lemma u64_at_wr_same [simp]:
  "off + 8 \<le> length data \<Longrightarrow> u64_at (wr off (le_bytes 8 w) data) off = w"
  by (simp add: u64_at_def)

lemma u32_at_wr_disjoint [frame_simps]:
  "o2 + length ys \<le> length xs \<Longrightarrow> o1 + 4 \<le> o2 \<or> o2 + length ys \<le> o1 \<Longrightarrow>
    u32_at (wr o2 ys xs) o1 = u32_at xs o1"
  by (simp add: u32_at_def rd_wr_disjoint)

lemma u64_at_wr_disjoint [frame_simps]:
  "o2 + length ys \<le> length xs \<Longrightarrow> o1 + 8 \<le> o2 \<or> o2 + length ys \<le> o1 \<Longrightarrow>
    u64_at (wr o2 ys xs) o1 = u64_at xs o1"
  by (simp add: u64_at_def rd_wr_disjoint)

lemma u32_at_cong: "rd off 4 xs = rd off 4 ys \<Longrightarrow> u32_at xs off = u32_at ys off"
  by (simp add: u32_at_def)

lemma u64_at_cong: "rd off 8 xs = rd off 8 ys \<Longrightarrow> u64_at xs off = u64_at ys off"
  by (simp add: u64_at_def)

section \<open>Readers\<close>

text \<open>
  An \<open>io.Reader\<close> is the bytes it has left to deliver; after them it reports the end of the
  stream. \<open>io.ReadFull\<close> of \<open>n\<close> bytes: \<open>io.EOF\<close> when nothing could be read and something was
  asked for, \<open>io.ErrUnexpectedEOF\<close> after a short read.
\<close>

datatype io_error = EOF | ErrUnexpectedEOF

definition ReadFull :: "nat \<Rightarrow> bytes \<Rightarrow> (io_error + bytes) \<times> bytes" where
  "ReadFull n r =
    (if n \<le> length r then (Inr (take n r), drop n r)
     else if r = [] then (Inl EOF, [])
     else (Inl ErrUnexpectedEOF, []))"

lemma ReadFull_append [simp]: "n = length xs \<Longrightarrow> ReadFull n (xs @ ys) = (Inr xs, ys)"
  by (simp add: ReadFull_def)

lemma ReadFull_all [simp]: "n = length xs \<Longrightarrow> ReadFull n xs = (Inr xs, [])"
  by (simp add: ReadFull_def)

lemma ReadFull_Inr:
  "ReadFull n r = (Inr xs, r') \<longleftrightarrow> r = xs @ r' \<and> length xs = n"
  by (auto simp: ReadFull_def split: if_splits)

lemma ReadFull_shorter: "ReadFull n r = (x, r') \<Longrightarrow> length r' \<le> length r"
  by (auto simp: ReadFull_def split: if_splits)

end
