(* ===== verification/Header.thy ===== *)
theory Header
  imports Types Encoding
begin

text \<open>
  The segment header: the struct \<open>Header\<close> of \<open>pkg/featcache/types.go\<close> and its overlay on the first
  64 bytes of a segment (\<open>pkg/featcache/header.go\<close>). \<open>headerOf\<close> reads the fields at the offsets of
  the Go struct; \<open>set_header\<close> is the memory after stores to the fields through that pointer.
\<close>

record header =
  hdr_Magic :: u32
  hdr_Version :: u32
  hdr_Size :: u64
  hdr_GenCounter :: u64
  hdr_HashCap :: u32
  hdr_HashOffset :: u32
  hdr_DataOffset :: u32
  hdr_DataEnd :: u32
  hdr_SegmentID :: u32
  hdr_Flags :: u32
  hdr_Reserved :: bytes

definition header_bytes :: "header \<Rightarrow> bytes" where
  "header_bytes h =
    le_bytes 4 (hdr_Magic h) @ le_bytes 4 (hdr_Version h) @ le_bytes 8 (hdr_Size h) @ le_bytes 8 (hdr_GenCounter h) @
    le_bytes 4 (hdr_HashCap h) @ le_bytes 4 (hdr_HashOffset h) @ le_bytes 4 (hdr_DataOffset h) @
    le_bytes 4 (hdr_DataEnd h) @ le_bytes 4 (hdr_SegmentID h) @ le_bytes 4 (hdr_Flags h) @ hdr_Reserved h"

definition header_at :: "bytes \<Rightarrow> header" where
  "header_at data =
    \<lparr>hdr_Magic = u32_at data 0, hdr_Version = u32_at data 4, hdr_Size = u64_at data 8,
     hdr_GenCounter = u64_at data 16, hdr_HashCap = u32_at data 24, hdr_HashOffset = u32_at data 28,
     hdr_DataOffset = u32_at data 32, hdr_DataEnd = u32_at data 36, hdr_SegmentID = u32_at data 40,
     hdr_Flags = u32_at data 44, hdr_Reserved = rd 48 16 data\<rparr>"

definition headerOf :: "bytes \<Rightarrow> header option" where
  \<comment> \<open>a segment shorter than the struct is read past its end, or indexed at \<open>0\<close> when empty\<close>
  "headerOf data = (if length data < 64 then None else Some (header_at data))"

definition set_header :: "bytes \<Rightarrow> header \<Rightarrow> bytes" where
  "set_header data h = wr 0 (header_bytes h) data"

definition header_ok :: "header \<Rightarrow> bool" where
  "header_ok h \<longleftrightarrow> length (hdr_Reserved h) = 16"

lemma length_header_bytes [simp]: "length (header_bytes h) = 48 + length (hdr_Reserved h)"
  by (simp add: header_bytes_def)

lemma headerOf_Some [simp]: "64 \<le> length data \<Longrightarrow> headerOf data = Some (header_at data)"
  by (simp add: headerOf_def)

lemma header_ok_at [simp]: "64 \<le> length data \<Longrightarrow> header_ok (header_at data)"
  by (simp add: header_ok_def header_at_def)

lemma length_set_header [simp, frame_simps]:
  "header_ok h \<Longrightarrow> 64 \<le> length data \<Longrightarrow> length (set_header data h) = length data"
  by (simp add: set_header_def header_ok_def)

lemma header_bytes_set:
  assumes "64 \<le> length data" "header_ok h"
  shows "header_at (set_header data h) = h"
proof -
  have len: "length (hdr_Reserved h) = 16" using assms by (simp add: header_ok_def)
  have "set_header data h = header_bytes h @ drop 64 data"
    using len by (simp add: set_header_def wr_def)
  then show ?thesis
    using len by (simp add: header_at_def u32_at_def u64_at_def rd_def header_bytes_def)
qed

text \<open>
  Header overlay: the fields stored through the header pointer are the fields any process reads
  back at the struct's offsets.
\<close>

lemma header_roundtrip:
  assumes "64 \<le> length data" "header_ok h"
  shows "headerOf (set_header data h) = Some h"
  using assms header_bytes_set by simp

section \<open>Frame\<close>

lemma header_at_wr [frame_simps]:
  "off + length ys \<le> length data \<Longrightarrow> 64 \<le> off \<Longrightarrow> header_at (wr off ys data) = header_at data"
  by (simp add: header_at_def frame_simps)

lemma header_at_set [simp]:
  "64 \<le> length data \<Longrightarrow> header_ok h \<Longrightarrow> header_at (set_header data h) = h"
  using header_bytes_set [of data h] by simp

lemma rd_set_header [frame_simps]:
  "64 \<le> length data \<Longrightarrow> header_ok h \<Longrightarrow> 64 \<le> off \<Longrightarrow> rd off n (set_header data h) = rd off n data"
  by (simp add: set_header_def header_ok_def frame_simps)

lemma drop_set_header [frame_simps]:
  "64 \<le> length data \<Longrightarrow> header_ok h \<Longrightarrow> 64 \<le> off \<Longrightarrow> drop off (set_header data h) = drop off data"
  by (simp add: set_header_def wr_def header_ok_def)

text \<open>The magic number reads \<open>TAEF\<close> in memory; its comment says \<open>FEAT\<close>.\<close>

lemma magic_bytes: "take 4 (header_bytes (h\<lparr>hdr_Magic := Magic\<rparr>)) = [0x54, 0x41, 0x45, 0x46]"
proof -
  have "le_bytes 4 Magic = [0x54, 0x41, 0x45, 0x46]" by code_simp
  then show ?thesis by (simp add: header_bytes_def del: Magic_def)
qed

end
