(* ===== verification/Hash.thy ===== *)
theory Hash
  imports Header "HOL-Library.Stream"
begin

text \<open>
  \<open>pkg/featcache/hash.go\<close>: the seeded FNV-1a hash, the seed persisted in the header's reserved
  bytes, and the draw of a fresh seed from \<open>crypto/rand\<close>.

  \<open>crypto/rand.Read\<close> is a stream of results, one per call: \<open>Some buf\<close> the eight bytes delivered,
  \<open>None\<close> an error. The process-wide \<open>pkgSeed\<close> of the Go package is an argument of the functions
  that read it, since every process has its own.
\<close>

type_synonym rng = "bytes option stream"

definition fnvOffset64 :: u64 where "fnvOffset64 = 14695981039346656037"
definition fnvPrime64 :: u64 where "fnvPrime64 = 1099511628211"

definition seedSlot :: nat where [simp]: "seedSlot = 0"

fun fnv_loop :: "bytes \<Rightarrow> u64 \<Rightarrow> u64" where
  "fnv_loop [] h = h"
| "fnv_loop (b # bs) h = fnv_loop bs ((h XOR ucast b) * fnvPrime64)"

definition HashKeyWithSeed :: "bytes \<Rightarrow> u64 \<Rightarrow> u64" where
  "HashKeyWithSeed key seed = fnv_loop key (fnvOffset64 XOR seed)"

definition defaultSeed :: "u64 \<Rightarrow> u64" where
  "defaultSeed pkgSeed = pkgSeed"

definition HashKey :: "u64 \<Rightarrow> bytes \<Rightarrow> u64" where
  "HashKey pkgSeed key = HashKeyWithSeed key (defaultSeed pkgSeed)"

definition headerHashSeed :: "u64 \<Rightarrow> header \<Rightarrow> u64" where
  "headerHashSeed pkgSeed hdr =
    (let seed = le_word (rd seedSlot 8 (hdr_Reserved hdr))
     in if seed = 0 then defaultSeed pkgSeed else seed)"

text \<open>
  The loop draws until the eight bytes are not all zero. \<open>None\<close> is the panic on a failing source,
  or a draw that never ends because the source delivers zeros for ever.
\<close>

partial_function (option) randSeed :: "rng \<Rightarrow> (u64 \<times> rng) option" where
  "randSeed rng =
    (case shd rng of
       None \<Rightarrow> None
     | Some buf \<Rightarrow>
         (let seed = le_word buf
          in if seed \<noteq> 0 then Some (seed, stl rng) else randSeed (stl rng)))"

definition setHeaderHashSeed :: "rng \<Rightarrow> header \<Rightarrow> (u64 \<times> header \<times> rng) option" where
  "setHeaderHashSeed rng hdr =
    do { (seed, rng) \<leftarrow> randSeed rng;
         Some (seed, hdr\<lparr>hdr_Reserved := wr seedSlot (le_bytes 8 seed) (hdr_Reserved hdr)\<rparr>, rng) }"

section \<open>The hash\<close>

lemma fnv_loop_append: "fnv_loop (xs @ ys) h = fnv_loop ys (fnv_loop xs h)"
  by (induction xs h rule: fnv_loop.induct) auto

lemma fnvPrime64_inverse: "fnvPrime64 * 14886173955864302971 = 1"
  by (simp add: fnvPrime64_def)

lemma mult_fnvPrime64_inj: "x * fnvPrime64 = y * fnvPrime64 \<longleftrightarrow> x = y"
proof
  assume "x * fnvPrime64 = y * fnvPrime64"
  then have "x * (fnvPrime64 * 14886173955864302971) = y * (fnvPrime64 * 14886173955864302971)"
    by (simp only: mult.assoc [symmetric])
  then show "x = y" by (simp add: fnvPrime64_inverse)
qed simp

lemma xor_right_inj: "x XOR z = y XOR z \<longleftrightarrow> x = (y :: 'a::len word)"
  by (metis xor.assoc xor.right_neutral xor_self_eq)

lemma xor_left_inj: "z XOR x = z XOR y \<longleftrightarrow> x = (y :: 'a::len word)"
  by (metis xor.commute xor_right_inj)

lemma fnv_loop_inj: "fnv_loop bs h = fnv_loop bs h' \<longleftrightarrow> h = h'"
  by (induction bs arbitrary: h h') (auto simp: mult_fnvPrime64_inj xor_right_inj)

lemma ucast_byte_inj: "(ucast (b :: byte) :: u64) = ucast c \<longleftrightarrow> b = c"
  by (auto simp add: ucast_up_ucast_id is_up dest: arg_cong [where f = "ucast :: u64 \<Rightarrow> byte"])

text \<open>
  The hash separates keys of one length that differ in a single byte, whatever the rest of the
  key and the seed: no such pair collides.
\<close>

lemma hash_single_byte:
  "HashKeyWithSeed (xs @ b # ys) seed = HashKeyWithSeed (xs @ c # ys) seed \<longleftrightarrow> b = c"
  by (simp add: HashKeyWithSeed_def fnv_loop_append fnv_loop_inj mult_fnvPrime64_inj xor_left_inj
      ucast_byte_inj)

text \<open>
  Seeding: for one key, two seeds give the same hash only when they are the same seed, so a
  process that hashes with a seed other than the persisted one computes another hash for every key.
\<close>

lemma hash_seed_inj: "HashKeyWithSeed key s = HashKeyWithSeed key t \<longleftrightarrow> s = t"
  by (simp add: HashKeyWithSeed_def fnv_loop_inj xor_left_inj)

section \<open>The persisted seed\<close>

lemma randSeed_nonzero:
  assumes "randSeed rng = Some r"
  shows "fst r \<noteq> 0"
proof (rule randSeed.raw_induct [where P = "\<lambda>rng r. fst r \<noteq> 0", OF _ assms])
  fix f :: "rng \<Rightarrow> (u64 \<times> rng) option" and rng r
  assume "\<And>rng r. f rng = Some r \<Longrightarrow> fst r \<noteq> 0"
    and "(case shd rng of None \<Rightarrow> None
          | Some buf \<Rightarrow> let seed = le_word buf
              in if seed \<noteq> 0 then Some (seed, stl rng) else f (stl rng)) = Some r"
  then show "fst r \<noteq> (0 :: u64)" by (auto simp: Let_def split: option.splits if_splits)
qed

lemma setHeaderHashSeed_Some:
  assumes "setHeaderHashSeed rng hdr = Some (seed, hdr', rng')" "header_ok hdr"
  shows "seed \<noteq> 0" "header_ok hdr'" "headerHashSeed pkg hdr' = seed"
    "hdr' = hdr\<lparr>hdr_Reserved := hdr_Reserved hdr'\<rparr>"
  using assms randSeed_nonzero [of rng]
  by (auto simp: setHeaderHashSeed_def headerHashSeed_def header_ok_def Let_def bind_eq_Some_conv)

text \<open>
  The seed protocol: the seed \<open>setHeaderHashSeed\<close> draws is not zero, and every process that
  reads the header back recovers exactly this seed, whatever its own process seed is.
\<close>

lemma persisted_seed_agrees:
  assumes "setHeaderHashSeed rng (header_at data) = Some (seed, hdr, rng')" "64 \<le> length data"
    and "headerOf (set_header data hdr) = Some hdr'"
  shows "seed \<noteq> 0 \<and> headerHashSeed pkgSeed hdr' = seed"
proof -
  note s = setHeaderHashSeed_Some [OF assms(1) header_ok_at [OF assms(2)]]
  have "hdr' = hdr" using assms(2,3) s(2) by simp
  with s show ?thesis by simp
qed

lemma randSeed_const [simp]: "randSeed (sconst (Some [1, 0, 0, 0, 0, 0, 0, 0])) = Some (1, sconst (Some [1, 0, 0, 0, 0, 0, 0, 0]))"
  by (subst randSeed.simps) simp

text \<open>
  C39. The draw of a seed returns whenever the source of randomness delivers: after any number of
  all-zero buffers, the first other buffer is the seed.
\<close>

theorem randSeed_first_nonzero:
  assumes "\<forall>i<n. \<exists>buf. snth rng i = Some buf \<and> (le_word buf :: u64) = 0"
    and "snth rng n = Some buf" "(le_word buf :: u64) \<noteq> 0"
  shows "randSeed rng = Some (le_word buf, sdrop (Suc n) rng)"
  using assms
proof (induction n arbitrary: rng)
  case 0
  then show ?case by (subst randSeed.simps) (simp add: Let_def)
next
  case (Suc n)
  have "randSeed (stl rng) = Some (le_word buf, sdrop (Suc n) (stl rng))"
    using Suc.prems by (intro Suc.IH) (auto dest: spec [of _ "Suc _"])
  moreover obtain b where "shd rng = Some b" "(le_word b :: u64) = 0" using Suc.prems(1) by force
  ultimately show ?case by (subst randSeed.simps) (simp add: Let_def)
qed

lemma replicate_eight: "replicate 8 x = [x, x, x, x, x, x, x, x]"
  by (simp add: numeral_eq_Suc)

theorem randSeed_first_nonzero_witness:
  "randSeed (Some (replicate 8 0) ## sconst (Some [5, 0, 0, 0, 0, 0, 0, 0])) =
    Some (5, sconst (Some [5, 0, 0, 0, 0, 0, 0, 0]))"
  using randSeed_first_nonzero [of 1 "Some (replicate 8 0) ## sconst (Some [5, 0, 0, 0, 0, 0, 0, 0])"
      "[5, 0, 0, 0, 0, 0, 0, 0]"]
  by (simp add: replicate_eight)

end
