(* ===== verification/Hash_Table.thy ===== *)
theory Hash_Table
  imports Types Encoding
begin

text \<open>
  \<open>pkg/featcache/hashtable.go\<close>, byte for byte: the open-addressed table of 24-byte slots inside the
  segment. The Go struct's field \<open>data\<close> is the memory the table lies in; here it is the argument
  \<open>data\<close> of every operation, and an operation that writes returns it. Go ints are integers: every
  value the operations form is below \<open>2^38\<close>, far from the 64-bit limits. Loops carry the number of
  iterations they have left.
\<close>

record hash_table =
  slotBase :: int
  dataBase :: int
  capacity :: int
  ht_mask :: int

definition NewHashTable :: "int \<Rightarrow> int \<Rightarrow> int \<Rightarrow> hash_table" where
  "NewHashTable sb db c = \<lparr>slotBase = sb, dataBase = db, capacity = c, ht_mask = c - 1\<rparr>"

fun zero_loop :: "nat \<Rightarrow> bytes \<Rightarrow> int \<Rightarrow> int \<Rightarrow> bytes option" where
  "zero_loop 0 data sb i = Some data"
| "zero_loop (Suc n) data sb i =
    do { data \<leftarrow> put_index data (sb + i) 0; zero_loop n data sb (i + 1) }"

definition InitHashTable :: "bytes \<Rightarrow> int \<Rightarrow> int \<Rightarrow> (bytes \<times> int) option" where
  "InitHashTable data sb numSlots =
    (let slotBytes = numSlots * SlotSize
     in do { data \<leftarrow> zero_loop (nat slotBytes) data sb 0; Some (data, sb + slotBytes) })"

definition getSlot :: "hash_table \<Rightarrow> bytes \<Rightarrow> int \<Rightarrow> hash_slot option" where
  "getSlot ht data idx =
    (let off = slotBase ht + idx * SlotSize
     in do { status \<leftarrow> atomic_load_u32 data (off + 16);
             h \<leftarrow> get_u64 data off;
             dataOff \<leftarrow> get_u32 data (off + 8);
             vlen \<leftarrow> get_u32 data (off + 12);
             Some \<lparr>Hash = h, Offset = dataOff, VLen = vlen, Status = status\<rparr> })"

fun match_loop :: "nat \<Rightarrow> bytes \<Rightarrow> bytes \<Rightarrow> int \<Rightarrow> int \<Rightarrow> bool option" where
  "match_loop 0 data key base i = Some True"
| "match_loop (Suc n) data key base i =
    do { x \<leftarrow> index data (base + i);
         y \<leftarrow> index key i;
         if x \<noteq> y then Some False else match_loop n data key base (i + 1) }"

definition matchKeyAt :: "hash_table \<Rightarrow> bytes \<Rightarrow> u32 \<Rightarrow> bytes \<Rightarrow> bool option" where
  "matchKeyAt ht data dataOff key =
    (let absOff = dataBase ht + uint dataOff
     in if absOff + 4 > int (length data) then Some False
        else do { kl \<leftarrow> get_u32 data absOff;
                  let kLen = uint kl;
                  if kLen \<noteq> int (length key) then Some False
                  else if absOff + 4 + kLen > int (length data) then Some False
                  else match_loop (nat kLen) data key (absOff + 4) 0 })"

definition matchKeyAtSlot :: "hash_table \<Rightarrow> bytes \<Rightarrow> int \<Rightarrow> bytes \<Rightarrow> bool option" where
  "matchKeyAtSlot ht data idx key =
    (let off = slotBase ht + idx * SlotSize
     in do { dataOff \<leftarrow> get_u32 data (off + 8); matchKeyAt ht data dataOff key })"

definition slotHash :: "hash_table \<Rightarrow> bytes \<Rightarrow> int \<Rightarrow> u64 option" where
  "slotHash ht data idx = get_u64 data (slotBase ht + idx * SlotSize)"

definition getValue :: "hash_table \<Rightarrow> bytes \<Rightarrow> u32 \<Rightarrow> u32 \<Rightarrow> bytes option option" where
  \<comment> \<open>outer \<open>None\<close>: panic; inner \<open>None\<close>: the nil slice\<close>
  "getValue ht data dataOff vLen =
    (let absOff = dataBase ht + uint dataOff
     in if absOff + 4 > int (length data) then Some None
        else do { kl \<leftarrow> get_u32 data absOff;
                  let valOff = absOff + 4 + uint kl;
                  if valOff + uint vLen > int (length data) then Some None
                  else do { v \<leftarrow> slice data valOff (valOff + uint vLen); Some (Some v) } })"

text \<open>\<open>int(uint32(hash)) & ht.mask\<close>, the position where the three loops start.\<close>

definition home_index :: "hash_table \<Rightarrow> u64 \<Rightarrow> int" where
  "home_index ht h = uint (ucast h :: u32) AND ht_mask ht"

definition next_index :: "hash_table \<Rightarrow> int \<Rightarrow> int" where
  "next_index ht idx = (idx + 1) AND ht_mask ht"

fun Get_loop :: "nat \<Rightarrow> hash_table \<Rightarrow> bytes \<Rightarrow> u64 \<Rightarrow> bytes \<Rightarrow> int \<Rightarrow> (bytes option \<times> bool) option" where
  "Get_loop 0 ht data h key idx = Some (None, False)"
| "Get_loop (Suc n) ht data h key idx =
    do { slot \<leftarrow> getSlot ht data idx;
         if Status slot = SlotEmpty then Some (None, False)
         else if Status slot = SlotUsed then
           do { m \<leftarrow> (if Hash slot = h then matchKeyAt ht data (Offset slot) key else Some False);
                if m then do { v \<leftarrow> getValue ht data (Offset slot) (VLen slot); Some (v, True) }
                else Get_loop n ht data h key (next_index ht idx) }
         else Get_loop n ht data h key (next_index ht idx) }"

definition HashTable_Get :: "hash_table \<Rightarrow> bytes \<Rightarrow> u64 \<Rightarrow> bytes \<Rightarrow> (bytes option \<times> bool) option" where
  "HashTable_Get ht data h key = Get_loop (nat (capacity ht)) ht data h key (home_index ht h)"

fun Insert_loop :: "nat \<Rightarrow> hash_table \<Rightarrow> bytes \<Rightarrow> u64 \<Rightarrow> u32 \<Rightarrow> u32 \<Rightarrow> int \<Rightarrow> (bool \<times> bytes) option" where
  "Insert_loop 0 ht data h offset vlen idx = Some (False, data)"
| "Insert_loop (Suc n) ht data h offset vlen idx =
    (let off = slotBase ht + idx * SlotSize
     in do { status \<leftarrow> atomic_load_u32 data (off + 16);
             if status = SlotEmpty \<or> status = SlotTomb then
               do { (claimed, data) \<leftarrow> atomic_cas_u32 data (off + 16) status SlotUsed;
                    if \<not> claimed then Insert_loop n ht data h offset vlen (next_index ht idx)
                    else do { data \<leftarrow> put_u64 data off h;
                              data \<leftarrow> put_u32 data (off + 8) offset;
                              data \<leftarrow> put_u32 data (off + 12) vlen;
                              Some (True, data) } }
             else Insert_loop n ht data h offset vlen (next_index ht idx) })"

definition HashTable_Insert ::
  "hash_table \<Rightarrow> bytes \<Rightarrow> u64 \<Rightarrow> bytes \<Rightarrow> u32 \<Rightarrow> u32 \<Rightarrow> (bool \<times> bytes) option" where
  \<comment> \<open>the key argument is not used, as in the code\<close>
  "HashTable_Insert ht data h _ offset vlen =
    Insert_loop (nat (capacity ht)) ht data h offset vlen (home_index ht h)"

fun Delete_loop :: "nat \<Rightarrow> hash_table \<Rightarrow> bytes \<Rightarrow> u64 \<Rightarrow> bytes \<Rightarrow> int \<Rightarrow> (bool \<times> bytes) option" where
  "Delete_loop 0 ht data h key idx = Some (False, data)"
| "Delete_loop (Suc n) ht data h key idx =
    (let off = slotBase ht + idx * SlotSize
     in do { status \<leftarrow> atomic_load_u32 data (off + 16);
             if status = SlotEmpty then Some (False, data)
             else if status = SlotUsed then
               do { sh \<leftarrow> slotHash ht data idx;
                    m \<leftarrow> (if sh = h then matchKeyAtSlot ht data idx key else Some False);
                    if m then do { data \<leftarrow> atomic_store_u32 data (off + 16) SlotTomb; Some (True, data) }
                    else Delete_loop n ht data h key (next_index ht idx) }
             else Delete_loop n ht data h key (next_index ht idx) })"

definition HashTable_Delete :: "hash_table \<Rightarrow> bytes \<Rightarrow> u64 \<Rightarrow> bytes \<Rightarrow> (bool \<times> bytes) option" where
  "HashTable_Delete ht data h key = Delete_loop (nat (capacity ht)) ht data h key (home_index ht h)"

definition SlotAt :: "hash_table \<Rightarrow> bytes \<Rightarrow> int \<Rightarrow> hash_slot option" where
  "SlotAt ht data idx = getSlot ht data idx"

fun Count_loop :: "nat \<Rightarrow> hash_table \<Rightarrow> bytes \<Rightarrow> int \<Rightarrow> int \<Rightarrow> int option" where
  "Count_loop 0 ht data i c = Some c"
| "Count_loop (Suc n) ht data i c =
    do { slot \<leftarrow> getSlot ht data i;
         Count_loop n ht data (i + 1) (if Status slot = SlotUsed then c + 1 else c) }"

definition HashTable_Count :: "hash_table \<Rightarrow> bytes \<Rightarrow> int option" where
  "HashTable_Count ht data = Count_loop (nat (capacity ht)) ht data 0 0"

fun Iterate_loop ::
  "nat \<Rightarrow> hash_table \<Rightarrow> bytes \<Rightarrow> (hash_slot \<Rightarrow> 's \<Rightarrow> bool \<times> 's) \<Rightarrow> int \<Rightarrow> 's \<Rightarrow> 's option" where
  "Iterate_loop 0 ht data fn i s = Some s"
| "Iterate_loop (Suc n) ht data fn i s =
    do { slot \<leftarrow> getSlot ht data i;
         if Status slot = SlotUsed then
           (case fn slot s of (go, s) \<Rightarrow>
              if \<not> go then Some s else Iterate_loop n ht data fn (i + 1) s)
         else Iterate_loop n ht data fn (i + 1) s }"

definition HashTable_Iterate ::
  "hash_table \<Rightarrow> bytes \<Rightarrow> (hash_slot \<Rightarrow> 's \<Rightarrow> bool \<times> 's) \<Rightarrow> 's \<Rightarrow> 's option" where
  \<comment> \<open>the callback's effects are a state \<open>'s\<close> it threads through the calls\<close>
  "HashTable_Iterate ht data fn s = Iterate_loop (nat (capacity ht)) ht data fn 0 s"

end
