(* ===== verification/Probe.thy ===== *)
theory Probe
  imports Prelude
begin

text \<open>
  Linear probing over a circular array of \<open>cap\<close> positions, apart from what the positions hold.
  \<open>find_probe cap stop hit i n\<close> looks at \<open>n\<close> positions from \<open>i\<close> on, gives up at the first one where
  \<open>stop\<close> holds and returns the first one where \<open>hit\<close> holds: the loop that \<open>Get\<close>, \<open>Insert\<close> and
  \<open>Delete\<close> of the hash table share. The lemmas characterise its result by the distance walked, and
  say when an early stop cannot hide a hit.
\<close>

fun find_probe :: "nat \<Rightarrow> (nat \<Rightarrow> bool) \<Rightarrow> (nat \<Rightarrow> bool) \<Rightarrow> nat \<Rightarrow> nat \<Rightarrow> nat option" where
  "find_probe cap stop hit i 0 = None"
| "find_probe cap stop hit i (Suc n) =
    (if stop i then None else if hit i then Some i else find_probe cap stop hit (Suc i mod cap) n)"

definition quiet :: "nat \<Rightarrow> (nat \<Rightarrow> bool) \<Rightarrow> (nat \<Rightarrow> bool) \<Rightarrow> nat \<Rightarrow> nat \<Rightarrow> bool" where
  \<comment> \<open>the first \<open>d\<close> positions from \<open>i\<close> on are walked past\<close>
  "quiet cap stop hit i d \<longleftrightarrow> (\<forall>e<d. \<not> stop ((i + e) mod cap) \<and> \<not> hit ((i + e) mod cap))"

lemma quiet_0 [simp]: "quiet cap stop hit i 0"
  by (simp add: quiet_def)

lemma step_mod: "(Suc i mod cap + d) mod cap = (i + Suc d) mod (cap :: nat)"
  by (simp add: mod_simps)

lemma quiet_Suc:
  "i < cap \<Longrightarrow> quiet cap stop hit i (Suc d) \<longleftrightarrow> \<not> stop i \<and> \<not> hit i \<and> quiet cap stop hit (Suc i mod cap) d"
  by (auto simp: quiet_def step_mod less_Suc_eq_0_disj)

lemma find_probe_Some:
  assumes "i < cap"
  shows "find_probe cap stop hit i n = Some j \<longleftrightarrow>
    (\<exists>d<n. quiet cap stop hit i d \<and> j = (i + d) mod cap \<and> \<not> stop j \<and> hit j)"
  using assms
proof (induction n arbitrary: i)
  case 0
  then show ?case by simp
next
  case (Suc n)
  have "Suc i mod cap < cap" using Suc.prems by simp
  note IH = Suc.IH [OF this]
  have ex: "(\<exists>d<Suc n. P d) \<longleftrightarrow> P 0 \<or> (\<exists>d<n. P (Suc d))" for P
    by (auto simp: less_Suc_eq_0_disj)
  show ?case using Suc.prems by (subst ex) (auto simp: IH quiet_Suc step_mod)
qed

lemma find_probe_None:
  assumes "i < cap"
  shows "find_probe cap stop hit i n = None \<longleftrightarrow>
    quiet cap stop hit i n \<or> (\<exists>d<n. quiet cap stop hit i d \<and> stop ((i + d) mod cap))"
  using assms
proof (induction n arbitrary: i)
  case 0
  then show ?case by simp
next
  case (Suc n)
  have "Suc i mod cap < cap" using Suc.prems by simp
  note IH = Suc.IH [OF this]
  have ex: "(\<exists>d<Suc n. P d) \<longleftrightarrow> P 0 \<or> (\<exists>d<n. P (Suc d))" for P
    by (auto simp: less_Suc_eq_0_disj)
  show ?case using Suc.prems by (subst ex) (auto simp: IH quiet_Suc step_mod)
qed

lemma find_probe_cong:
  assumes "i < cap" "\<And>j. j < cap \<Longrightarrow> stop j = stop' j" "\<And>j. j < cap \<Longrightarrow> hit j = hit' j"
  shows "find_probe cap stop hit i n = find_probe cap stop' hit' i n"
  using assms(1)
proof (induction n arbitrary: i)
  case (Suc n)
  then show ?case using assms(2,3) [of i] Suc.IH [of "Suc i mod cap"] by simp
qed simp

lemma find_probe_less: "i < cap \<Longrightarrow> find_probe cap stop hit i n = Some j \<Longrightarrow> j < cap"
  by (auto simp: find_probe_Some)

section \<open>Every position is reached\<close>

definition dist :: "nat \<Rightarrow> nat \<Rightarrow> nat \<Rightarrow> nat" where
  \<comment> \<open>the number of steps from \<open>i\<close> to \<open>j\<close>\<close>
  "dist cap i j = (j + cap - i) mod cap"

lemma dist_less [simp]: "0 < cap \<Longrightarrow> dist cap i j < cap"
  by (simp add: dist_def)

lemma at_dist: "i < cap \<Longrightarrow> j < cap \<Longrightarrow> (i + dist cap i j) mod cap = j"
  by (simp add: dist_def mod_simps)

lemma dist_at: "i < cap \<Longrightarrow> d < cap \<Longrightarrow> dist cap i ((i + d) mod cap) = d"
  by (cases "i + d < cap") (auto simp: dist_def mod_if)

lemma quiet_full:
  assumes "i < cap"
  shows "quiet cap stop hit i cap \<longleftrightarrow> (\<forall>j<cap. \<not> stop j \<and> \<not> hit j)"
proof
  assume q: "quiet cap stop hit i cap"
  show "\<forall>j<cap. \<not> stop j \<and> \<not> hit j"
  proof (intro allI impI)
    fix j assume "j < cap"
    with assms have "dist cap i j < cap" "(i + dist cap i j) mod cap = j" by (auto simp: at_dist)
    with q show "\<not> stop j \<and> \<not> hit j" unfolding quiet_def by metis
  qed
qed (use assms in \<open>auto simp: quiet_def\<close>)

text \<open>Without a stop condition the walk finds a hit whenever there is one.\<close>

lemma find_probe_no_stop_None:
  "i < cap \<Longrightarrow> find_probe cap (\<lambda>_. False) hit i cap = None \<longleftrightarrow> (\<forall>j<cap. \<not> hit j)"
  by (simp add: find_probe_None quiet_full)

text \<open>A walk with a single possible hit returns it.\<close>

lemma find_probe_unique:
  assumes "i < cap" "j < cap" "hit j" "\<And>m. m < cap \<Longrightarrow> hit m \<Longrightarrow> m = j"
  shows "find_probe cap (\<lambda>_. False) hit i cap = Some j"
proof -
  have "find_probe cap (\<lambda>_. False) hit i cap \<noteq> None"
    using assms by (auto simp: find_probe_no_stop_None)
  then obtain m where m: "find_probe cap (\<lambda>_. False) hit i cap = Some m" by blast
  then have "m < cap" "hit m" using assms(1) find_probe_less find_probe_Some by blast+
  with m assms(4) show ?thesis by blast
qed

text \<open>
  The early stop: if from the start to every hit there is no stop, stopping changes nothing.
\<close>

definition reachable :: "nat \<Rightarrow> (nat \<Rightarrow> bool) \<Rightarrow> nat \<Rightarrow> nat \<Rightarrow> bool" where
  "reachable cap stop i j \<longleftrightarrow> (\<forall>e \<le> dist cap i j. \<not> stop ((i + e) mod cap))"

lemma find_probe_stop_irrelevant:
  assumes i: "i < cap" and reach: "\<And>j. j < cap \<Longrightarrow> hit j \<Longrightarrow> reachable cap stop i j"
  shows "find_probe cap stop hit i cap = find_probe cap (\<lambda>_. False) hit i cap"
proof (cases "find_probe cap (\<lambda>_. False) hit i cap")
  case None
  then have "\<forall>j<cap. \<not> hit j" using i by (simp add: find_probe_no_stop_None)
  then have "find_probe cap stop hit i cap \<noteq> Some j" for j
    using i by (auto simp: find_probe_Some)
  with None show ?thesis by (cases "find_probe cap stop hit i cap") auto
next
  case (Some j)
  then obtain d where d: "d < cap" "quiet cap (\<lambda>_. False) hit i d" "j = (i + d) mod cap" "hit j"
    using i by (auto simp: find_probe_Some)
  have "dist cap i j = d" using d i by (simp add: dist_at)
  with reach [of j] d i have "\<forall>e\<le>d. \<not> stop ((i + e) mod cap)" by (auto simp: reachable_def)
  with d have "quiet cap stop hit i d" "\<not> stop j" by (auto simp: quiet_def)
  with d i have "find_probe cap stop hit i cap = Some j" by (auto simp: find_probe_Some)
  with Some show ?thesis by simp
qed

text \<open>The result of the exhaustive walk is the hit nearest to the start.\<close>

lemma dist_inj: "i < cap \<Longrightarrow> j < cap \<Longrightarrow> m < cap \<Longrightarrow> dist cap i j = dist cap i m \<Longrightarrow> j = m"
  by (metis at_dist)

lemma find_probe_nearest:
  assumes i: "i < cap"
  shows "find_probe cap (\<lambda>_. False) hit i cap = Some j \<longleftrightarrow>
    j < cap \<and> hit j \<and> (\<forall>m<cap. hit m \<longrightarrow> dist cap i j \<le> dist cap i m)"
proof
  assume "find_probe cap (\<lambda>_. False) hit i cap = Some j"
  then obtain d where d: "d < cap" "quiet cap (\<lambda>_. False) hit i d" "j = (i + d) mod cap" "hit j"
    using i by (auto simp: find_probe_Some)
  have "dist cap i j = d" using d i by (simp add: dist_at)
  moreover have "\<not> dist cap i m < d" if "m < cap" "hit m" for m
    using d(2) that i unfolding quiet_def by (metis at_dist)
  moreover have "j < cap" using d i by simp
  ultimately show "j < cap \<and> hit j \<and> (\<forall>m<cap. hit m \<longrightarrow> dist cap i j \<le> dist cap i m)"
    using d(4) by (auto simp: not_less)
next
  assume j: "j < cap \<and> hit j \<and> (\<forall>m<cap. hit m \<longrightarrow> dist cap i j \<le> dist cap i m)"
  let ?d = "dist cap i j"
  have "?d < cap" "(i + ?d) mod cap = j" using i j by (auto simp: at_dist)
  moreover have "\<not> hit ((i + e) mod cap)" if "e < ?d" for e
  proof
    assume "hit ((i + e) mod cap)"
    moreover have "(i + e) mod cap < cap" using i by simp
    ultimately have "?d \<le> dist cap i ((i + e) mod cap)" using j by blast
    moreover have "e < cap" using that \<open>?d < cap\<close> by simp
    ultimately show False using that i by (simp add: dist_at)
  qed
  ultimately show "find_probe cap (\<lambda>_. False) hit i cap = Some j"
    using i j by (auto simp: find_probe_Some quiet_def intro!: exI [of _ ?d])
qed

lemma reachable_iff:
  assumes "i < cap" "j < cap"
  shows "reachable cap stop i j \<longleftrightarrow> (\<forall>m<cap. dist cap i m \<le> dist cap i j \<longrightarrow> \<not> stop m)"
proof
  assume r: "reachable cap stop i j"
  show "\<forall>m<cap. dist cap i m \<le> dist cap i j \<longrightarrow> \<not> stop m"
    using r assms at_dist unfolding reachable_def by metis
next
  assume r: "\<forall>m<cap. dist cap i m \<le> dist cap i j \<longrightarrow> \<not> stop m"
  have "\<not> stop ((i + e) mod cap)" if "e \<le> dist cap i j" for e
  proof -
    have "e < cap" using that dist_less [of cap i j] assms by linarith
    then have "dist cap i ((i + e) mod cap) \<le> dist cap i j" using that assms by (simp add: dist_at)
    then show ?thesis using r assms by simp
  qed
  then show "reachable cap stop i j" by (simp add: reachable_def)
qed

end
