(* ===== verification/Hash_Table_Refine.thy ===== *)
theory Hash_Table_Refine
  imports Hash_Table Probe
begin

text \<open>
  From bytes to slots. For a table that lies inside its memory (\<open>ht_wf\<close>) the byte-level operations
  of \<open>Hash_Table\<close> are walks of \<open>Probe.find_probe\<close> over an array of slots: \<open>Get\<close> and \<open>Delete\<close> look for
  the first slot that holds the key and stop at an empty one, \<open>Insert\<close> looks for the first slot that
  is free. No operation panics. Writes to one slot leave the other slots and the data region alone.
\<close>

section \<open>Geometry\<close>

definition ht_wf :: "hash_table \<Rightarrow> bytes \<Rightarrow> bool" where
  "ht_wf ht data \<longleftrightarrow>
    (\<exists>k. capacity ht = 2 ^ k) \<and> ht_mask ht = capacity ht - 1 \<and> 0 \<le> slotBase ht \<and>
    slotBase ht + 24 * capacity ht \<le> dataBase ht \<and> dataBase ht \<le> int (length data)"

definition ncap :: "hash_table \<Rightarrow> nat" where
  "ncap ht = nat (capacity ht)"

definition data_base :: "hash_table \<Rightarrow> nat" where
  "data_base ht = nat (dataBase ht)"

definition slot_off :: "hash_table \<Rightarrow> nat \<Rightarrow> nat" where
  "slot_off ht i = nat (slotBase ht) + 24 * i"

definition slot_at :: "hash_table \<Rightarrow> bytes \<Rightarrow> nat \<Rightarrow> hash_slot" where
  "slot_at ht data i =
    \<lparr>Hash = u64_at data (slot_off ht i), Offset = u32_at data (slot_off ht i + 8),
     VLen = u32_at data (slot_off ht i + 12), Status = u32_at data (slot_off ht i + 16)\<rparr>"

definition home :: "hash_table \<Rightarrow> u64 \<Rightarrow> nat" where
  "home ht h = unat (ucast h :: u32) mod ncap ht"

lemma ht_wf_cong: "length data = length data' \<Longrightarrow> ht_wf ht data = ht_wf ht data'"
  by (simp add: ht_wf_def)

lemma ht_wf_pow:
  assumes "ht_wf ht data"
  obtains k where "ncap ht = 2 ^ k" "capacity ht = 2 ^ k" "ht_mask ht = 2 ^ k - 1"
  using assms by (auto simp: ht_wf_def ncap_def nat_power_eq)

lemma ncap_pos [simp]: "ht_wf ht data \<Longrightarrow> 0 < ncap ht"
  by (erule ht_wf_pow) simp

lemma home_less [simp]: "ht_wf ht data \<Longrightarrow> home ht h < ncap ht"
  by (simp add: home_def)

lemma slot_off_bound:
  assumes "ht_wf ht data" "i < ncap ht"
  shows "slot_off ht i + 24 \<le> data_base ht"
proof -
  have "24 * int (ncap ht) + slotBase ht \<le> dataBase ht" "0 \<le> slotBase ht"
    using assms by (auto simp: ht_wf_def ncap_def)
  moreover have "int i + 1 \<le> int (ncap ht)" using assms by simp
  ultimately show ?thesis by (simp add: slot_off_def data_base_def nat_le_iff le_nat_iff)
qed

lemma data_base_le: "ht_wf ht data \<Longrightarrow> data_base ht \<le> length data"
  by (auto simp: ht_wf_def data_base_def nat_le_iff)

lemma slot_off_in:
  assumes "ht_wf ht data" "i < ncap ht"
  shows "slot_off ht i + 24 \<le> length data"
  using slot_off_bound [OF assms] data_base_le [OF assms(1)] by linarith

lemma slot_off_int: "ht_wf ht data \<Longrightarrow> slotBase ht + int i * 24 = int (slot_off ht i)"
  by (simp add: ht_wf_def slot_off_def)

lemma dataBase_int:
  assumes "ht_wf ht data"
  shows "dataBase ht = int (data_base ht)"
proof -
  have "0 \<le> capacity ht" using assms by (auto simp: ht_wf_def)
  then have "0 \<le> dataBase ht" using assms by (simp add: ht_wf_def)
  then show ?thesis by (simp add: data_base_def)
qed

lemma home_index_int: "ht_wf ht data \<Longrightarrow> home_index ht h = int (home ht h)"
  by (erule ht_wf_pow) (simp add: home_index_def home_def int_and_mask uint_nat del: of_nat_unat)

lemma next_index_int: "ht_wf ht data \<Longrightarrow> next_index ht (int i) = int (Suc i mod ncap ht)"
  by (erule ht_wf_pow) (simp add: next_index_def int_suc_and_mask)

lemma slots_apart: "i \<noteq> j \<Longrightarrow> slot_off ht i + 24 \<le> slot_off ht j \<or> slot_off ht j + 24 \<le> slot_off ht i"
  by (auto simp: slot_off_def)

section \<open>Keys and values in the data region\<close>

definition key_at :: "hash_table \<Rightarrow> bytes \<Rightarrow> u32 \<Rightarrow> bytes option" where
  "key_at ht data p =
    (let a = data_base ht + unat p; kl = unat (u32_at data a)
     in if a + 4 \<le> length data \<and> a + 4 + kl \<le> length data then Some (rd (a + 4) kl data) else None)"

definition value_at :: "hash_table \<Rightarrow> bytes \<Rightarrow> u32 \<Rightarrow> u32 \<Rightarrow> bytes option" where
  "value_at ht data p vl =
    (let a = data_base ht + unat p; vo = a + 4 + unat (u32_at data a)
     in if a + 4 \<le> length data \<and> vo + unat vl \<le> length data then Some (rd vo (unat vl) data) else None)"

lemma match_loop_eq:
  assumes "b + i + n \<le> length data" "i + n \<le> length key"
  shows "match_loop n data key (int b) (int i) = Some (rd (b + i) n data = rd i n key)"
  using assms
proof (induction n arbitrary: i)
  case 0
  then show ?case by (simp add: rd_def)
next
  case (Suc n)
  have cons: "rd p (Suc n) xs = xs ! p # rd (Suc p) n xs" if "p + Suc n \<le> length xs"
    for p and xs :: bytes
    using that by (simp add: rd_def Cons_nth_drop_Suc [symmetric])
  have "index data (int b + int i) = Some (data ! (b + i))"
    using index_int [of "b + i" data] Suc.prems by simp
  moreover have "index key (int i) = Some (key ! i)" using Suc.prems by simp
  moreover have "match_loop n data key (int b) (int i + 1) =
      Some (rd (Suc (b + i)) n data = rd (Suc i) n key)"
    using Suc.IH [of "Suc i"] Suc.prems by (simp add: add.commute)
  ultimately show ?case using Suc.prems by (simp add: cons)
qed

lemma matchKeyAt_eq:
  assumes "ht_wf ht data"
  shows "matchKeyAt ht data p key = Some (key_at ht data p = Some key)"
proof -
  define a where "a = data_base ht + unat p"
  have a: "dataBase ht + uint p = int a"
    using dataBase_int [OF assms] by (simp add: a_def uint_nat del: of_nat_unat)
  show ?thesis
  proof (cases "a + 4 \<le> length data")
    case False
    then show ?thesis by (simp add: matchKeyAt_def key_at_def a a_def [symmetric] Let_def)
  next
    case True
    define kl where "kl = unat (u32_at data a)"
    have kl: "uint (u32_at data a) = int kl" unfolding kl_def by (rule uint_nat)
    have key: "key_at ht data p = (if a + 4 + kl \<le> length data then Some (rd (a + 4) kl data) else None)"
      using True by (simp add: key_at_def a_def [symmetric] kl_def [symmetric] Let_def)
    have "match_loop kl data key (int a + 4) 0 = Some (rd (a + 4) kl data = key)"
      if "kl = length key" "a + 4 + kl \<le> length data"
      using match_loop_eq [of "a + 4" 0 kl data key] that by (simp add: rd_def)
    moreover have "\<not> int a + 4 > int (length data)" using True by simp
    moreover have "int a + 4 + int kl > int (length data) \<longleftrightarrow> \<not> a + 4 + kl \<le> length data" by linarith
    ultimately show ?thesis using True
      by (auto simp: matchKeyAt_def a kl key Let_def)
  qed
qed

lemma getValue_eq:
  assumes "ht_wf ht data"
  shows "getValue ht data p vl = Some (value_at ht data p vl)"
proof -
  define a where "a = data_base ht + unat p"
  have a: "dataBase ht + uint p = int a"
    using dataBase_int [OF assms] by (simp add: a_def uint_nat del: of_nat_unat)
  show ?thesis
  proof (cases "a + 4 \<le> length data")
    case False
    then show ?thesis by (simp add: getValue_def value_at_def a a_def [symmetric] Let_def)
  next
    case True
    define kl where "kl = unat (u32_at data a)"
    have kl: "uint (u32_at data a) = int kl" unfolding kl_def by (rule uint_nat)
    have vl: "uint vl = int (unat vl)" by (rule uint_nat)
    have "\<not> int a + 4 > int (length data)" using True by simp
    moreover have "int a + 4 + int kl + int (unat vl) > int (length data) \<longleftrightarrow>
      \<not> a + 4 + kl + unat vl \<le> length data" by linarith
    moreover have "slice data (int a + 4 + int kl) (int a + 4 + int kl + int (unat vl)) =
        Some (rd (a + 4 + kl) (unat vl) data)" if "a + 4 + kl + unat vl \<le> length data"
      using slice_int [of "a + 4 + kl" "unat vl" data] that by simp
    ultimately show ?thesis using True unfolding getValue_def a vl
      by (auto simp: kl value_at_def a_def [symmetric] kl_def [symmetric] Let_def simp del: of_nat_unat)
  qed
qed

section \<open>Slots\<close>

definition slot_empty :: "hash_table \<Rightarrow> bytes \<Rightarrow> nat \<Rightarrow> bool" where
  "slot_empty ht data i \<longleftrightarrow> Status (slot_at ht data i) = SlotEmpty"

definition slot_used :: "hash_table \<Rightarrow> bytes \<Rightarrow> nat \<Rightarrow> bool" where
  "slot_used ht data i \<longleftrightarrow> Status (slot_at ht data i) = SlotUsed"

definition slot_free :: "hash_table \<Rightarrow> bytes \<Rightarrow> nat \<Rightarrow> bool" where
  "slot_free ht data i \<longleftrightarrow> Status (slot_at ht data i) \<in> {SlotEmpty, SlotTomb}"

definition slot_hit :: "hash_table \<Rightarrow> bytes \<Rightarrow> u64 \<Rightarrow> bytes \<Rightarrow> nat \<Rightarrow> bool" where
  \<comment> \<open>the slot is in use, for this hash, and its chunk starts with this key\<close>
  "slot_hit ht data h key i \<longleftrightarrow>
    slot_used ht data i \<and> Hash (slot_at ht data i) = h \<and>
    key_at ht data (Offset (slot_at ht data i)) = Some key"

definition slot_value :: "hash_table \<Rightarrow> bytes \<Rightarrow> nat \<Rightarrow> bytes option" where
  "slot_value ht data i = value_at ht data (Offset (slot_at ht data i)) (VLen (slot_at ht data i))"

lemma slot_hit_used: "slot_hit ht data h key i \<Longrightarrow> slot_used ht data i"
  by (simp add: slot_hit_def)

lemma slot_free_not_used: "slot_free ht data i \<Longrightarrow> \<not> slot_used ht data i"
  by (auto simp: slot_free_def slot_used_def)

lemma slot_used_not_empty: "slot_used ht data i \<Longrightarrow> \<not> slot_empty ht data i"
  by (auto simp: slot_empty_def slot_used_def)

lemma getSlot_at:
  assumes "ht_wf ht data" "i < ncap ht"
  shows "getSlot ht data (int i) = Some (slot_at ht data i)"
proof -
  define off where "off = slot_off ht i"
  have "off + 24 \<le> length data" using slot_off_in [OF assms] by (simp add: off_def)
  then have "get_u32 data (int off + int d) = Some (u32_at data (off + d))" if "d \<le> 20" for d
    using get_u32_at [of "off + d" data] that by simp
  from this [of 8] this [of 12] this [of 16] show ?thesis
    using slot_off_int [OF assms(1), of i] get_u64_at [of off data] \<open>off + 24 \<le> length data\<close>
    by (simp add: getSlot_def atomic_load_u32_def slot_at_def off_def mult.commute)
qed

definition fill_slot :: "hash_table \<Rightarrow> bytes \<Rightarrow> nat \<Rightarrow> u64 \<Rightarrow> u32 \<Rightarrow> u32 \<Rightarrow> bytes" where
  \<comment> \<open>the memory after \<open>Insert\<close> has claimed slot \<open>j\<close> and written its fields\<close>
  "fill_slot ht data j h offset vlen =
    (let off = slot_off ht j
     in wr (off + 12) (le_bytes 4 vlen) (wr (off + 8) (le_bytes 4 offset)
         (wr off (le_bytes 8 h) (wr (off + 16) (le_bytes 4 SlotUsed) data))))"

definition tomb_slot :: "hash_table \<Rightarrow> bytes \<Rightarrow> nat \<Rightarrow> bytes" where
  \<comment> \<open>the memory after \<open>Delete\<close> has marked slot \<open>j\<close>\<close>
  "tomb_slot ht data j = wr (slot_off ht j + 16) (le_bytes 4 SlotTomb) data"

section \<open>The loops as walks\<close>

definition get_result :: "hash_table \<Rightarrow> bytes \<Rightarrow> nat option \<Rightarrow> bytes option \<times> bool" where
  "get_result ht data r = (case r of None \<Rightarrow> (None, False) | Some j \<Rightarrow> (slot_value ht data j, True))"

lemma Get_loop_walk:
  assumes wf: "ht_wf ht data" and "i < ncap ht"
  shows "Get_loop n ht data h key (int i) =
    Some (get_result ht data (find_probe (ncap ht) (slot_empty ht data) (slot_hit ht data h key) i n))"
  using assms(2)
proof (induction n arbitrary: i)
  case 0
  then show ?case by (simp add: get_result_def)
next
  case (Suc n)
  have "Suc i mod ncap ht < ncap ht" using wf by simp
  from Suc.IH [OF this] show ?case
    using Suc.prems
    by (auto simp: getSlot_at [OF wf] next_index_int [OF wf] matchKeyAt_eq [OF wf] getValue_eq [OF wf]
        get_result_def slot_empty_def slot_hit_def slot_used_def slot_value_def)
qed

lemma slot_field_loads:
  assumes "ht_wf ht data" "i < ncap ht"
  shows "atomic_load_u32 data (slotBase ht + int i * SlotSize + 16) = Some (Status (slot_at ht data i))"
    and "slotHash ht data (int i) = Some (Hash (slot_at ht data i))"
    and "matchKeyAtSlot ht data (int i) key = Some (key_at ht data (Offset (slot_at ht data i)) = Some key)"
proof -
  define off where "off = slot_off ht i"
  have off: "slotBase ht + int i * SlotSize = int off" "off + 24 \<le> length data"
    using slot_off_int [OF assms(1), of i] slot_off_in [OF assms] by (auto simp: off_def)
  then have "get_u32 data (int off + int d) = Some (u32_at data (off + d))" if "d \<le> 20" for d
    using get_u32_at [of "off + d" data] that by simp
  note ld = this [of 8] this [of 16]
  show "atomic_load_u32 data (slotBase ht + int i * SlotSize + 16) = Some (Status (slot_at ht data i))"
    unfolding off using ld by (simp add: atomic_load_u32_def slot_at_def off_def)
  show "slotHash ht data (int i) = Some (Hash (slot_at ht data i))"
    unfolding slotHash_def off using off by (simp add: slot_at_def off_def)
  show "matchKeyAtSlot ht data (int i) key = Some (key_at ht data (Offset (slot_at ht data i)) = Some key)"
    unfolding matchKeyAtSlot_def off Let_def
    using ld by (simp add: slot_at_def off_def matchKeyAt_eq [OF assms(1)])
qed

definition insert_result ::
  "hash_table \<Rightarrow> bytes \<Rightarrow> u64 \<Rightarrow> u32 \<Rightarrow> u32 \<Rightarrow> nat option \<Rightarrow> bool \<times> bytes" where
  "insert_result ht data h offset vlen r =
    (case r of None \<Rightarrow> (False, data) | Some j \<Rightarrow> (True, fill_slot ht data j h offset vlen))"

lemma claim_and_fill:
  assumes "off + 24 \<le> length data"
  shows "do { (claimed, data) \<leftarrow> atomic_cas_u32 data (int off + 16) (u32_at data (off + 16)) SlotUsed;
              if \<not> claimed then retry data
              else do { data \<leftarrow> put_u64 data (int off) h;
                        data \<leftarrow> put_u32 data (int off + 8) offset;
                        data \<leftarrow> put_u32 data (int off + 12) vlen;
                        Some (True, data) } } =
    Some (True, wr (off + 12) (le_bytes 4 vlen) (wr (off + 8) (le_bytes 4 offset)
         (wr off (le_bytes 8 h) (wr (off + 16) (le_bytes 4 SlotUsed) data))))"
proof -
  have p8: "put_u32 D (int off + 8) w = Some (wr (off + 8) (le_bytes 4 w) D)"
    and p12: "put_u32 D (int off + 12) w = Some (wr (off + 12) (le_bytes 4 w) D)"
    if "length D = length data" for D w
    using put_u32_at [of "off + 8" D w] put_u32_at [of "off + 12" D w] that assms by simp_all
  have "atomic_cas_u32 data (int off + 16) (u32_at data (off + 16)) SlotUsed =
      Some (True, wr (off + 16) (le_bytes 4 SlotUsed) data)"
    using cas_at [of "off + 16" data SlotUsed] assms by simp
  then show ?thesis using assms by (simp add: p8 p12)
qed

lemma Insert_loop_walk:
  assumes wf: "ht_wf ht data" and "i < ncap ht"
  shows "Insert_loop n ht data h offset vlen (int i) =
    Some (insert_result ht data h offset vlen
      (find_probe (ncap ht) (\<lambda>_. False) (slot_free ht data) i n))"
  using assms(2)
proof (induction n arbitrary: i)
  case 0
  then show ?case by (simp add: insert_result_def)
next
  case (Suc n)
  have "Suc i mod ncap ht < ncap ht" using wf by simp
  note IH = Suc.IH [OF this]
  note ld = slot_field_loads(1) [OF wf Suc.prems]
  show ?case
  proof (cases "slot_free ht data i")
    case False
    then show ?thesis using IH ld by (simp add: slot_free_def next_index_int [OF wf])
  next
    case True
    define off where "off = slot_off ht i"
    have off: "slotBase ht + int i * SlotSize = int off" "off + 24 \<le> length data"
      using slot_off_int [OF wf, of i] slot_off_in [OF wf Suc.prems] by (auto simp: off_def)
    have st: "Status (slot_at ht data i) = u32_at data (off + 16)" by (simp add: slot_at_def off_def)
    have "Insert_loop (Suc n) ht data h offset vlen (int i) =
        Some (True, fill_slot ht data i h offset vlen)"
      using True ld claim_and_fill [OF off(2)] unfolding Insert_loop.simps off(1) Let_def
      by (simp add: slot_free_def st fill_slot_def off_def [symmetric] Let_def)
    with True show ?thesis by (simp add: insert_result_def)
  qed
qed

definition delete_result :: "hash_table \<Rightarrow> bytes \<Rightarrow> nat option \<Rightarrow> bool \<times> bytes" where
  "delete_result ht data r =
    (case r of None \<Rightarrow> (False, data) | Some j \<Rightarrow> (True, tomb_slot ht data j))"

lemma Delete_loop_walk:
  assumes wf: "ht_wf ht data" and "i < ncap ht"
  shows "Delete_loop n ht data h key (int i) =
    Some (delete_result ht data
      (find_probe (ncap ht) (slot_empty ht data) (slot_hit ht data h key) i n))"
  using assms(2)
proof (induction n arbitrary: i)
  case 0
  then show ?case by (simp add: delete_result_def)
next
  case (Suc n)
  have "Suc i mod ncap ht < ncap ht" using wf by simp
  note IH = Suc.IH [OF this]
  have store: "atomic_store_u32 data (slotBase ht + int i * SlotSize + 16) SlotTomb =
      Some (tomb_slot ht data i)"
    using slot_off_int [OF wf, of i] slot_off_in [OF wf Suc.prems]
      put_u32_at [of "slot_off ht i + 16" data SlotTomb]
    by (simp add: atomic_store_u32_def tomb_slot_def)
  show ?case using Suc.prems IH slot_field_loads [OF wf Suc.prems] store
    by (auto simp: next_index_int [OF wf] Let_def delete_result_def slot_empty_def slot_hit_def
        slot_used_def)
qed

end
