(* ===== verification/Hash_Table_Props.thy ===== *)
theory Hash_Table_Props
  imports Hash_Table_Refine
begin

text \<open>
  What the hash table promises: the probe invariant that makes lookups complete, that every operation
  keeps it, and what a lookup returns after an insertion and a deletion. \<open>lookup\<close> is the reference:
  the first slot in probe order that holds the key, with no early stop.
\<close>

section \<open>The operations as walks\<close>

definition walk :: "hash_table \<Rightarrow> bytes \<Rightarrow> u64 \<Rightarrow> bytes \<Rightarrow> nat option" where
  "walk ht data h key =
    find_probe (ncap ht) (slot_empty ht data) (slot_hit ht data h key) (home ht h) (ncap ht)"

definition free_walk :: "hash_table \<Rightarrow> bytes \<Rightarrow> u64 \<Rightarrow> nat option" where
  "free_walk ht data h =
    find_probe (ncap ht) (\<lambda>_. False) (slot_free ht data) (home ht h) (ncap ht)"

lemma Get_walk:
  "ht_wf ht data \<Longrightarrow> HashTable_Get ht data h key = Some (get_result ht data (walk ht data h key))"
  by (simp add: HashTable_Get_def walk_def home_index_int ncap_def [symmetric]
      Get_loop_walk [OF _ home_less])

lemma Insert_walk:
  "ht_wf ht data \<Longrightarrow> HashTable_Insert ht data h key offset vlen =
    Some (insert_result ht data h offset vlen (free_walk ht data h))"
  by (simp add: HashTable_Insert_def free_walk_def home_index_int ncap_def [symmetric]
      Insert_loop_walk [OF _ home_less])

lemma Delete_walk:
  "ht_wf ht data \<Longrightarrow> HashTable_Delete ht data h key =
    Some (delete_result ht data (walk ht data h key))"
  by (simp add: HashTable_Delete_def walk_def home_index_int ncap_def [symmetric]
      Delete_loop_walk [OF _ home_less])

lemmas table_walks = Get_walk Insert_walk Delete_walk

lemma walk_Some:
  assumes "ht_wf ht data" "walk ht data h key = Some j"
  shows "j < ncap ht" "slot_hit ht data h key j"
  using assms by (auto simp: walk_def find_probe_Some dest: find_probe_less)

lemma free_walk_Some:
  assumes "ht_wf ht data" "free_walk ht data h = Some j"
  shows "j < ncap ht" "slot_free ht data j"
  using assms by (auto simp: free_walk_def find_probe_Some dest: find_probe_less)

lemma free_walk_None:
  "ht_wf ht data \<Longrightarrow> free_walk ht data h = None \<longleftrightarrow> (\<forall>j<ncap ht. \<not> slot_free ht data j)"
  by (simp add: free_walk_def find_probe_no_stop_None)

section \<open>Frame\<close>

lemma length_fill_slot [frame_simps]:
  "ht_wf ht data \<Longrightarrow> j < ncap ht \<Longrightarrow> length (fill_slot ht data j h ofs vl) = length data"
  using slot_off_in [of ht data j] by (simp add: fill_slot_def Let_def)

lemma length_tomb_slot [frame_simps]:
  "ht_wf ht data \<Longrightarrow> j < ncap ht \<Longrightarrow> length (tomb_slot ht data j) = length data"
  using slot_off_in [of ht data j] by (simp add: tomb_slot_def)

lemma rd_fill_slot [frame_simps]:
  assumes "ht_wf ht data" "j < ncap ht" "p + n \<le> slot_off ht j \<or> slot_off ht j + 24 \<le> p"
  shows "rd p n (fill_slot ht data j h ofs vl) = rd p n data"
  using slot_off_in [OF assms(1,2)] assms(3) by (auto simp: fill_slot_def Let_def rd_wr_disjoint)

lemma rd_tomb_slot [frame_simps]:
  assumes "ht_wf ht data" "j < ncap ht" "p + n \<le> slot_off ht j \<or> slot_off ht j + 24 \<le> p"
  shows "rd p n (tomb_slot ht data j) = rd p n data"
  using slot_off_in [OF assms(1,2)] assms(3) by (auto simp: tomb_slot_def rd_wr_disjoint)

lemma slot_at_cong:
  assumes "rd (slot_off ht i) 24 data' = rd (slot_off ht i) 24 data"
    and "slot_off ht i + 24 \<le> length data" "length data' = length data"
  shows "slot_at ht data' i = slot_at ht data i"
proof -
  have "rd (slot_off ht i + a) b data' = rd (slot_off ht i + a) b data" if "a + b \<le> 24" for a b
    using assms rd_rd [OF that, of "slot_off ht i" data'] rd_rd [OF that, of "slot_off ht i" data] by simp
  from this [of 0 8] this [of 8 4] this [of 12 4] this [of 16 4] show ?thesis
    by (simp add: slot_at_def u32_at_def u64_at_def)
qed

lemma slot_at_fill:
  assumes "ht_wf ht data" "j < ncap ht" "i < ncap ht"
  shows "slot_at ht (fill_slot ht data j h ofs vl) i =
    (if i = j then \<lparr>Hash = h, Offset = ofs, VLen = vl, Status = SlotUsed\<rparr> else slot_at ht data i)"
proof (cases "i = j")
  case True
  then show ?thesis using slot_off_in [OF assms(1,2)]
    by (simp add: slot_at_def fill_slot_def Let_def u64_at_wr_disjoint u32_at_wr_disjoint)
next
  case False
  then show ?thesis
    using slots_apart [OF False, of ht] slot_off_in [OF assms(1,3)] length_fill_slot [OF assms(1,2)]
    by (auto intro!: slot_at_cong rd_fill_slot [OF assms(1,2)])
qed

lemma slot_at_tomb:
  assumes "ht_wf ht data" "j < ncap ht" "i < ncap ht"
  shows "slot_at ht (tomb_slot ht data j) i =
    (if i = j then (slot_at ht data i)\<lparr>Status := SlotTomb\<rparr> else slot_at ht data i)"
proof (cases "i = j")
  case True
  then show ?thesis using slot_off_in [OF assms(1,2)]
    by (simp add: slot_at_def tomb_slot_def u64_at_wr_disjoint u32_at_wr_disjoint)
next
  case False
  then show ?thesis
    using slots_apart [OF False, of ht] slot_off_in [OF assms(1,3)] length_tomb_slot [OF assms(1,2)]
    by (auto intro!: slot_at_cong rd_tomb_slot [OF assms(1,2)])
qed

text \<open>Two memories of one length that agree from the data base on hold the same keys and values.\<close>

lemma data_cong:
  assumes "length data' = length data" "drop (data_base ht) data' = drop (data_base ht) data"
  shows "key_at ht data' p = key_at ht data p" "value_at ht data' p vl = value_at ht data p vl"
proof -
  have "rd (data_base ht + a) n data' = rd (data_base ht + a) n data" for a n
    using arg_cong [OF assms(2), of "drop a"] by (simp add: rd_def add.commute)
  from this [of "unat p"] this [of "unat p + 4"]
    this [of "unat p + (4 + unat (u32_at data (data_base ht + unat p)))"]
  show "key_at ht data' p = key_at ht data p" "value_at ht data' p vl = value_at ht data p vl"
    using assms(1) by (simp_all add: key_at_def value_at_def Let_def u32_at_def add.assoc)
qed

lemma drop_eq_rd: "drop p xs = rd p (length xs - p) xs"
  by (simp add: rd_def)

lemma drop_fill_slot [frame_simps]:
  assumes "ht_wf ht data" "j < ncap ht"
  shows "drop (data_base ht) (fill_slot ht data j h ofs vl) = drop (data_base ht) data"
  using assms slot_off_bound [OF assms] by (simp add: drop_eq_rd frame_simps)

lemma drop_tomb_slot [frame_simps]:
  assumes "ht_wf ht data" "j < ncap ht"
  shows "drop (data_base ht) (tomb_slot ht data j) = drop (data_base ht) data"
  using assms slot_off_bound [OF assms] by (simp add: drop_eq_rd frame_simps)

lemmas fill_data = data_cong [OF length_fill_slot drop_fill_slot]
lemmas tomb_data = data_cong [OF length_tomb_slot drop_tomb_slot]

lemma ht_wf_fill: "ht_wf ht data \<Longrightarrow> j < ncap ht \<Longrightarrow> ht_wf ht (fill_slot ht data j h ofs vl)"
  by (simp add: ht_wf_cong [of "fill_slot ht data j h ofs vl" data] length_fill_slot)

lemma ht_wf_tomb: "ht_wf ht data \<Longrightarrow> j < ncap ht \<Longrightarrow> ht_wf ht (tomb_slot ht data j)"
  by (simp add: ht_wf_cong [of "tomb_slot ht data j" data] length_tomb_slot)

section \<open>The probe invariant\<close>

text \<open>
  From the home position of a used slot's hash to the slot itself there is no empty slot. This is
  what makes the early stop of \<open>Get\<close> and \<open>Delete\<close> harmless.
\<close>

definition probe_inv :: "hash_table \<Rightarrow> bytes \<Rightarrow> bool" where
  "probe_inv ht data \<longleftrightarrow>
    (\<forall>i<ncap ht. slot_used ht data i \<longrightarrow>
      reachable (ncap ht) (slot_empty ht data) (home ht (Hash (slot_at ht data i))) i)"

definition table_inv :: "hash_table \<Rightarrow> bytes \<Rightarrow> bool" where
  "table_inv ht data \<longleftrightarrow> ht_wf ht data \<and> probe_inv ht data"

lemma table_inv_wf [simp, intro]: "table_inv ht data \<Longrightarrow> ht_wf ht data"
  by (simp add: table_inv_def)

definition first_hit :: "hash_table \<Rightarrow> bytes \<Rightarrow> u64 \<Rightarrow> bytes \<Rightarrow> nat option" where
  "first_hit ht data h key =
    find_probe (ncap ht) (\<lambda>_. False) (slot_hit ht data h key) (home ht h) (ncap ht)"

definition lookup :: "hash_table \<Rightarrow> bytes \<Rightarrow> u64 \<Rightarrow> bytes \<Rightarrow> bytes option option" where
  "lookup ht data h key = map_option (slot_value ht data) (first_hit ht data h key)"

lemma walk_first_hit:
  assumes "table_inv ht data"
  shows "walk ht data h key = first_hit ht data h key"
  unfolding walk_def first_hit_def
proof (rule find_probe_stop_irrelevant)
  show "home ht h < ncap ht" using assms by (intro home_less) auto
  fix j assume "j < ncap ht" "slot_hit ht data h key j"
  then show "reachable (ncap ht) (slot_empty ht data) (home ht h) j"
    using assms by (auto simp: table_inv_def probe_inv_def slot_hit_def)
qed

lemma first_hit_None:
  "ht_wf ht data \<Longrightarrow> first_hit ht data h key = None \<longleftrightarrow> (\<forall>j<ncap ht. \<not> slot_hit ht data h key j)"
  by (simp add: first_hit_def find_probe_no_stop_None)

lemma first_hit_Some:
  assumes "ht_wf ht data" "first_hit ht data h key = Some j"
  shows "j < ncap ht" "slot_hit ht data h key j"
  using assms by (auto simp: first_hit_def find_probe_Some dest: find_probe_less)

lemma lookup_None: "lookup ht data h key = None \<longleftrightarrow> first_hit ht data h key = None"
  by (simp add: lookup_def)

definition lookup_result :: "bytes option option \<Rightarrow> bytes option \<times> bool" where
  "lookup_result r = (case r of None \<Rightarrow> (None, False) | Some v \<Rightarrow> (v, True))"

lemma Get_lookup:
  "table_inv ht data \<Longrightarrow> HashTable_Get ht data h key = Some (lookup_result (lookup ht data h key))"
  by (simp add: Get_walk walk_first_hit get_result_def lookup_def lookup_result_def split: option.split)

text \<open>
  C3. \<open>Get\<close> on a table that satisfies the probe invariant never panics and is the exhaustive search:
  it returns the value of the first slot in probe order that is in use for this hash and key, and a
  miss exactly when no slot of the whole table holds the key.
\<close>

theorem Get_exhaustive:
  assumes "table_inv ht data"
  shows "HashTable_Get ht data h key = Some (lookup_result (lookup ht data h key)) \<and>
    (lookup ht data h key = None \<longleftrightarrow> (\<forall>j<ncap ht. \<not> slot_hit ht data h key j))"
  using assms by (simp add: Get_lookup lookup_None first_hit_None)

section \<open>Creation\<close>

lemma zero_loop_eq:
  "sb + i + n \<le> length data \<Longrightarrow>
    zero_loop n data (int sb) (int i) = Some (wr (sb + i) (replicate n 0) data)"
proof (induction n arbitrary: data i)
  case 0
  then show ?case by simp
next
  case (Suc n)
  have "put_index data (int sb + int i) 0 = Some (wr (sb + i) [0] data)"
    using Suc.prems by (simp add: put_index_def wr_def nat_add_distrib upd_conv_take_nth_drop)
  moreover have "zero_loop n (wr (sb + i) [0] data) (int sb) (int i + 1) =
      Some (wr (sb + Suc i) (replicate n 0) (wr (sb + i) [0] data))"
    using Suc.IH [of "Suc i" "wr (sb + i) [0] data"] Suc.prems by (simp add: add.commute)
  moreover have "wr (sb + Suc i) (replicate n 0) (wr (sb + i) [0] data) =
      wr (sb + i) (replicate (Suc n) 0) data"
    using wr_wr_adjacent [of "sb + i" "[0]" "replicate n 0" data] Suc.prems by simp
  ultimately show ?case by simp
qed

lemma InitHashTable_eq:
  assumes "sb + 24 * n \<le> length data"
  shows "InitHashTable data (int sb) (int n) =
    Some (wr sb (replicate (24 * n) 0) data, int (sb + 24 * n))"
  using zero_loop_eq [of sb 0 "24 * n" data] assms
  by (simp add: InitHashTable_def nat_mult_distrib mult.commute)

lemma le_word_zeros [simp]: "le_word (replicate n 0) = 0"
  by (induction n) auto

lemma fresh_slots:
  assumes "i < n" "sb + 24 * n \<le> length data" "nat (slotBase ht) = sb"
  shows "slot_at ht (wr sb (replicate (24 * n) 0) data) i = \<lparr>Hash = 0, Offset = 0, VLen = 0, Status = 0\<rparr>"
proof -
  have "rd (sb + a) b (wr sb (replicate (24 * n) 0) data) = replicate b 0" if "a + b \<le> 24 * n" for a b
    using that assms by (intro nth_equalityI) (auto simp: nth_wr)
  from this [of "24 * i" 8] this [of "24 * i + 8" 4] this [of "24 * i + 12" 4] this [of "24 * i + 16" 4]
  show ?thesis using assms(1,3) by (simp add: slot_at_def slot_off_def u32_at_def u64_at_def add.assoc)
qed

text \<open>
  \<open>InitHashTable\<close> over a region inside the memory zeroes exactly that region and returns the
  offset past it; the table over it satisfies the invariant and every lookup misses.
\<close>

lemma InitHashTable_fresh:
  assumes "0 \<le> sb" "sb + 24 * 2 ^ k \<le> db" "db \<le> int (length data)"
  shows "\<exists>data'. InitHashTable data sb (2 ^ k) = Some (data', sb + 24 * 2 ^ k) \<and>
    length data' = length data \<and>
    (\<forall>p n. p + n \<le> nat sb \<or> nat (sb + 24 * 2 ^ k) \<le> p \<longrightarrow> rd p n data' = rd p n data) \<and>
    table_inv (NewHashTable sb db (2 ^ k)) data' \<and>
    (\<forall>h key. lookup (NewHashTable sb db (2 ^ k)) data' h key = None) \<and>
    (\<forall>i<2 ^ k. Status (slot_at (NewHashTable sb db (2 ^ k)) data' i) = SlotEmpty)"
proof -
  let ?ht = "NewHashTable sb db (2 ^ k)" and ?n = "(2::nat) ^ k"
  define s where "s = nat sb"
  have s1: "sb = int s" using assms by (simp add: s_def)
  have "int (s + 24 * ?n) \<le> int (length data)" using assms by (simp add: s_def)
  then have s: "sb = int s" "s + 24 * ?n \<le> length data" using s1 by linarith+
  define data' where "data' = wr s (replicate (24 * ?n) 0) data"
  have init: "InitHashTable data sb (2 ^ k) = Some (data', sb + 24 * 2 ^ k)"
    using InitHashTable_eq [OF s(2)] by (simp add: s(1) data'_def)
  have len: "length data' = length data" using s(2) by (simp add: data'_def)
  have wf: "ht_wf ?ht data'" using assms len by (auto simp: ht_wf_def NewHashTable_def)
  have cap: "ncap ?ht = ?n" by (simp add: ncap_def NewHashTable_def nat_power_eq)
  have slots: "slot_at ?ht data' i = \<lparr>Hash = 0, Offset = 0, VLen = 0, Status = 0\<rparr>" if "i < ?n" for i
    using fresh_slots [OF that s(2)] by (simp add: data'_def NewHashTable_def s_def)
  then have unused: "\<not> slot_used ?ht data' i" if "i < ncap ?ht" for i
    using that cap by (simp add: slot_used_def)
  then have "table_inv ?ht data'" using wf by (auto simp: table_inv_def probe_inv_def)
  moreover have "lookup ?ht data' h key = None" for h key
    using unused by (auto simp: lookup_None first_hit_None [OF wf] slot_hit_def)
  moreover have "rd p n data' = rd p n data" if "p + n \<le> nat sb \<or> nat (sb + 24 * 2 ^ k) \<le> p" for p n
  proof -
    have "sb + 24 * 2 ^ k = int (s + 24 * ?n)" using s1 by simp
    then have "nat (sb + 24 * 2 ^ k) = s + 24 * ?n" by (simp only: nat_int)
    then have "p + n \<le> s \<or> s + 24 * ?n \<le> p" using that unfolding s_def by simp
    then show ?thesis unfolding data'_def by (intro rd_wr_disjoint) (use s(2) in auto)
  qed
  moreover have "\<forall>i<2 ^ k. Status (slot_at ?ht data' i) = SlotEmpty" using slots by simp
  ultimately show ?thesis using init len by blast
qed

section \<open>What a write to one slot changes\<close>

lemma after_fill:
  fixes h :: u64 and ofs vl :: u32
  assumes "ht_wf ht data" "j < ncap ht" "i < ncap ht"
  defines "data' \<equiv> fill_slot ht data j h ofs vl"
  shows "slot_used ht data' i \<longleftrightarrow> i = j \<or> slot_used ht data i"
    and "slot_empty ht data' i \<longleftrightarrow> i \<noteq> j \<and> slot_empty ht data i"
    and "slot_hit ht data' h' k' i \<longleftrightarrow>
      (if i = j then h' = h \<and> key_at ht data ofs = Some k' else slot_hit ht data h' k' i)"
    and "slot_value ht data' i = (if i = j then value_at ht data ofs vl else slot_value ht data i)"
  using assms(1-3) unfolding data'_def
  by (auto simp: slot_used_def slot_empty_def slot_hit_def slot_value_def slot_at_fill fill_data)

lemma after_tomb:
  assumes "ht_wf ht data" "j < ncap ht" "i < ncap ht"
  defines "data' \<equiv> tomb_slot ht data j"
  shows "slot_used ht data' i \<longleftrightarrow> i \<noteq> j \<and> slot_used ht data i"
    and "slot_empty ht data' i \<longleftrightarrow> i \<noteq> j \<and> slot_empty ht data i"
    and "slot_hit ht data' h' k' i \<longleftrightarrow> i \<noteq> j \<and> slot_hit ht data h' k' i"
    and "i \<noteq> j \<Longrightarrow> slot_value ht data' i = slot_value ht data i"
  using assms(1-3) unfolding data'_def
  by (auto simp: slot_used_def slot_empty_def slot_hit_def slot_value_def slot_at_tomb tomb_data)

lemma table_inv_iff:
  "table_inv ht data \<longleftrightarrow> ht_wf ht data \<and>
    (\<forall>i<ncap ht. slot_used ht data i \<longrightarrow>
      (\<forall>m<ncap ht. dist (ncap ht) (home ht (Hash (slot_at ht data i))) m
          \<le> dist (ncap ht) (home ht (Hash (slot_at ht data i))) i \<longrightarrow> \<not> slot_empty ht data m))"
proof (cases "ht_wf ht data")
  case True
  then show ?thesis
    by (simp add: table_inv_def probe_inv_def reachable_iff [OF home_less [OF True]] cong: imp_cong)
qed (simp add: table_inv_def)

lemma free_walk_nearest:
  "ht_wf ht data \<Longrightarrow> free_walk ht data h = Some j \<longleftrightarrow> j < ncap ht \<and> slot_free ht data j \<and>
    (\<forall>m<ncap ht. slot_free ht data m \<longrightarrow> dist (ncap ht) (home ht h) j \<le> dist (ncap ht) (home ht h) m)"
  by (simp add: free_walk_def find_probe_nearest)

lemma first_hit_nearest:
  "ht_wf ht data \<Longrightarrow> first_hit ht data h key = Some j \<longleftrightarrow> j < ncap ht \<and> slot_hit ht data h key j \<and>
    (\<forall>m<ncap ht. slot_hit ht data h key m \<longrightarrow>
      dist (ncap ht) (home ht h) j \<le> dist (ncap ht) (home ht h) m)"
  by (simp add: first_hit_def find_probe_nearest)

lemma slot_free_of_empty: "slot_empty ht data i \<Longrightarrow> slot_free ht data i"
  by (simp add: slot_empty_def slot_free_def)

lemma table_inv_fill:
  assumes inv: "table_inv ht data" and j: "free_walk ht data h = Some j"
  shows "table_inv ht (fill_slot ht data j h ofs vl)"
proof -
  let ?data' = "fill_slot ht data j h ofs vl"
  have wf: "ht_wf ht data" using inv by simp
  have jn: "j < ncap ht" and near: "\<And>m. m < ncap ht \<Longrightarrow> slot_free ht data m \<Longrightarrow>
      dist (ncap ht) (home ht h) j \<le> dist (ncap ht) (home ht h) m"
    using j by (auto simp: free_walk_nearest [OF wf])
  have "\<not> slot_empty ht ?data' m"
    if i: "i < ncap ht" "slot_used ht ?data' i" and m: "m < ncap ht"
      "dist (ncap ht) (home ht (Hash (slot_at ht ?data' i))) m
        \<le> dist (ncap ht) (home ht (Hash (slot_at ht ?data' i))) i" for i m
  proof (cases "i = j")
    case True
    then have le: "dist (ncap ht) (home ht h) m \<le> dist (ncap ht) (home ht h) j"
      using m(2) by (simp add: slot_at_fill [OF wf jn jn])
    show ?thesis
    proof
      assume "slot_empty ht ?data' m"
      then have e: "m \<noteq> j" "slot_empty ht data m" by (auto simp: after_fill(2) [OF wf jn m(1)])
      then have "dist (ncap ht) (home ht h) j \<le> dist (ncap ht) (home ht h) m"
        using near [OF m(1)] by (simp add: slot_free_of_empty)
      with le have "m = j" using dist_inj [OF home_less [OF wf] m(1) jn] by simp
      with e show False by simp
    qed
  next
    case False
    then show ?thesis using inv i m
      by (auto simp: table_inv_iff after_fill [OF wf jn] slot_at_fill [OF wf jn])
  qed
  then show ?thesis using ht_wf_fill [OF wf jn] by (auto simp: table_inv_iff)
qed

lemma table_inv_tomb:
  assumes inv: "table_inv ht data" and j: "j < ncap ht"
  shows "table_inv ht (tomb_slot ht data j)"
proof -
  have wf: "ht_wf ht data" using inv by simp
  show ?thesis using inv ht_wf_tomb [OF wf j]
    by (auto simp: table_inv_iff after_tomb [OF wf j] slot_at_tomb [OF wf j])
qed

section \<open>Counting\<close>

definition used_count :: "hash_table \<Rightarrow> bytes \<Rightarrow> nat" where
  "used_count ht data = card {i. i < ncap ht \<and> slot_used ht data i}"

lemma Count_loop_eq:
  assumes "ht_wf ht data" "i + n \<le> ncap ht"
  shows "Count_loop n ht data (int i) c =
    Some (c + int (card {m. i \<le> m \<and> m < i + n \<and> slot_used ht data m}))"
  using assms(2)
proof (induction n arbitrary: i c)
  case 0
  then show ?case by simp
next
  case (Suc n)
  let ?S = "\<lambda>i n. {m. i \<le> m \<and> m < i + n \<and> slot_used ht data m}"
  have S: "?S i (Suc n) = (if slot_used ht data i then insert i (?S (Suc i) n) else ?S (Suc i) n)"
    by (auto simp: Suc_le_eq) (metis le_neq_implies_less)+
  have "finite (?S (Suc i) n)" "i \<notin> ?S (Suc i) n" by auto
  then have "int (card (?S i (Suc n))) = (if slot_used ht data i then 1 else 0) + int (card (?S (Suc i) n))"
    unfolding S by simp
  then show ?case
    using Suc.prems Suc.IH [of "Suc i"] getSlot_at [OF assms(1), of i]
    by (auto simp: slot_used_def add.commute)
qed

text \<open>
  \<open>Count\<close> never panics on a table that lies in its memory, and is the number of slots in use.
\<close>

lemma Count_correct:
  "ht_wf ht data \<Longrightarrow> HashTable_Count ht data = Some (int (used_count ht data))"
  using Count_loop_eq [of ht data 0 "ncap ht" 0]
  by (simp add: HashTable_Count_def used_count_def ncap_def)

lemma used_count_fill:
  assumes "ht_wf ht data" "j < ncap ht" "\<not> slot_used ht data j"
  shows "used_count ht (fill_slot ht data j h ofs vl) = Suc (used_count ht data)"
proof -
  have "{i. i < ncap ht \<and> slot_used ht (fill_slot ht data j h ofs vl) i} =
      insert j {i. i < ncap ht \<and> slot_used ht data i}"
    using assms by (auto simp: after_fill(1) [OF assms(1,2)])
  then show ?thesis using assms(3) by (simp add: used_count_def)
qed

lemma used_count_tomb:
  assumes "ht_wf ht data" "j < ncap ht" "slot_used ht data j"
  shows "Suc (used_count ht (tomb_slot ht data j)) = used_count ht data"
proof -
  have "{i. i < ncap ht \<and> slot_used ht data i} =
      insert j {i. i < ncap ht \<and> slot_used ht (tomb_slot ht data j) i}"
    using assms by (auto simp: after_tomb(1) [OF assms(1,2)])
  then show ?thesis using assms(2) by (simp add: used_count_def after_tomb(1) [OF assms(1,2)])
qed

fun visit :: "(hash_slot \<Rightarrow> 's \<Rightarrow> bool \<times> 's) \<Rightarrow> hash_slot list \<Rightarrow> 's \<Rightarrow> 's" where
  "visit fn [] s = s"
| "visit fn (x # xs) s = (case fn x s of (go, s) \<Rightarrow> if go then visit fn xs s else s)"

lemma Iterate_loop_eq:
  assumes "ht_wf ht data" "i + n \<le> ncap ht"
  shows "Iterate_loop n ht data fn (int i) s =
    Some (visit fn (map (slot_at ht data) (filter (slot_used ht data) [i..<i + n])) s)"
  using assms(2)
proof (induction n arbitrary: i s)
  case 0
  then show ?case by simp
next
  case (Suc n)
  have "[i..<i + Suc n] = i # [Suc i..<Suc i + n]" by (simp add: upt_conv_Cons)
  then show ?case
    using Suc.prems Suc.IH [of "Suc i"] getSlot_at [OF assms(1), of i]
    by (auto simp: slot_used_def add.commute split: prod.splits)
qed

text \<open>
  C38. \<open>Iterate\<close> hands the callback every slot in use, once each and in table order, until the
  callback asks to stop.
\<close>

theorem Iterate_correct:
  "ht_wf ht data \<Longrightarrow> HashTable_Iterate ht data fn s =
    Some (visit fn (map (slot_at ht data) (filter (slot_used ht data) [0..<ncap ht])) s)"
  using Iterate_loop_eq [of ht data 0 "ncap ht"] by (simp add: HashTable_Iterate_def ncap_def)

section \<open>Insertion\<close>

lemma take_eq_rd: "take n xs = rd 0 n xs"
  by (simp add: rd_def)

lemma take_fill_slot [frame_simps]:
  "ht_wf ht data \<Longrightarrow> j < ncap ht \<Longrightarrow> p \<le> nat (slotBase ht) \<Longrightarrow>
    take p (fill_slot ht data j h ofs vl) = take p data"
  unfolding take_eq_rd by (rule rd_fill_slot) (auto simp: slot_off_def)

lemma take_tomb_slot [frame_simps]:
  "ht_wf ht data \<Longrightarrow> j < ncap ht \<Longrightarrow> p \<le> nat (slotBase ht) \<Longrightarrow> take p (tomb_slot ht data j) = take p data"
  unfolding take_eq_rd by (rule rd_tomb_slot) (auto simp: slot_off_def)

text \<open>
  C17. \<open>Insert\<close> fails exactly when no slot is empty or a tombstone, and then writes nothing.
  Otherwise it fills the first such slot in probe order, counts one entry more, keeps the probe
  invariant, and changes no other slot and no byte outside the table.
\<close>

theorem Insert_first_free:
  assumes "table_inv ht data"
  shows "case free_walk ht data h of
      None \<Rightarrow> HashTable_Insert ht data h key ofs vl = Some (False, data) \<and>
        (\<forall>j<ncap ht. \<not> slot_free ht data j)
    | Some j \<Rightarrow> (\<exists>data'. HashTable_Insert ht data h key ofs vl = Some (True, data') \<and>
        table_inv ht data' \<and> used_count ht data' = used_count ht data + 1 \<and>
        slot_at ht data' j = \<lparr>Hash = h, Offset = ofs, VLen = vl, Status = SlotUsed\<rparr> \<and>
        (\<forall>i<ncap ht. i \<noteq> j \<longrightarrow> slot_at ht data' i = slot_at ht data i) \<and>
        take (nat (slotBase ht)) data' = take (nat (slotBase ht)) data \<and>
        drop (data_base ht) data' = drop (data_base ht) data \<and> length data' = length data)"
proof (cases "free_walk ht data h")
  case None
  have wf: "ht_wf ht data" using assms by simp
  have "\<forall>j<ncap ht. \<not> slot_free ht data j" using None by (simp only: free_walk_None [OF wf])
  with None show ?thesis by (simp add: Insert_walk [OF wf] insert_result_def)
next
  case (Some j)
  have wf: "ht_wf ht data" using assms by simp
  note j = free_walk_Some [OF wf Some]
  show ?thesis using Some
    by (simp add: Insert_walk [OF wf] insert_result_def table_inv_fill [OF assms Some]
        used_count_fill [OF wf j(1) slot_free_not_used [OF j(2)]] slot_at_fill [OF wf j(1)] j
        take_fill_slot [OF wf] drop_fill_slot [OF wf] length_fill_slot [OF wf])
qed

lemma first_hit_fill_other:
  assumes wf: "ht_wf ht data" and j: "j < ncap ht" "\<not> slot_used ht data j"
    and other: "h' = h \<Longrightarrow> key_at ht data ofs \<noteq> Some k'"
  shows "first_hit ht (fill_slot ht data j h ofs vl) h' k' = first_hit ht data h' k'"
  unfolding first_hit_def
proof (rule find_probe_cong)
  fix i assume "i < ncap ht"
  then show "slot_hit ht (fill_slot ht data j h ofs vl) h' k' i = slot_hit ht data h' k' i"
    using j other by (auto simp: after_fill [OF wf j(1)] dest: slot_hit_used)
qed (use wf in simp_all)

lemma lookup_fill_other:
  assumes wf: "ht_wf ht data" and j: "j < ncap ht" "\<not> slot_used ht data j"
    and other: "h' = h \<Longrightarrow> key_at ht data ofs \<noteq> Some k'"
  shows "lookup ht (fill_slot ht data j h ofs vl) h' k' = lookup ht data h' k'"
proof (cases "first_hit ht data h' k'")
  case None
  then show ?thesis by (simp add: lookup_def first_hit_fill_other [OF assms])
next
  case (Some i)
  then have "i < ncap ht" "i \<noteq> j" using first_hit_Some [OF wf Some] j slot_hit_used by auto
  with Some show ?thesis
    by (simp add: lookup_def first_hit_fill_other [OF assms] after_fill(4) [OF wf j(1)])
qed

lemma first_hit_fill_same:
  assumes wf: "ht_wf ht data" and j: "j < ncap ht" "\<not> slot_used ht data j"
    and key: "key_at ht data ofs = Some key"
  shows "first_hit ht (fill_slot ht data j h ofs vl) h key =
    (case first_hit ht data h key of
       None \<Rightarrow> Some j
     | Some i \<Rightarrow> if dist (ncap ht) (home ht h) j < dist (ncap ht) (home ht h) i then Some j else Some i)"
proof -
  let ?data' = "fill_slot ht data j h ofs vl" and ?D = "dist (ncap ht) (home ht h)"
  have wf': "ht_wf ht ?data'" using wf j by (simp add: ht_wf_fill)
  have hit: "slot_hit ht ?data' h key m \<longleftrightarrow> m = j \<or> slot_hit ht data h key m" if "m < ncap ht" for m
    using that j key by (auto simp: after_fill(3) [OF wf j(1)])
  show ?thesis
  proof (cases "first_hit ht data h key")
    case None
    then have "\<forall>m<ncap ht. \<not> slot_hit ht data h key m" by (simp only: first_hit_None [OF wf])
    then have "first_hit ht ?data' h key = Some j" using j by (auto simp: first_hit_nearest [OF wf'] hit)
    with None show ?thesis by simp
  next
    case (Some i)
    then have i: "i < ncap ht" "slot_hit ht data h key i"
        "\<And>m. m < ncap ht \<Longrightarrow> slot_hit ht data h key m \<Longrightarrow> ?D i \<le> ?D m"
      by (auto simp: first_hit_nearest [OF wf])
    show ?thesis
    proof (cases "?D j < ?D i")
      case True
      then have "first_hit ht ?data' h key = Some j"
        using i j by (auto simp: first_hit_nearest [OF wf'] hit intro: less_imp_le less_le_trans)
      with Some True show ?thesis by simp
    next
      case False
      then have "first_hit ht ?data' h key = Some i"
        using i j by (auto simp: first_hit_nearest [OF wf'] hit)
      with Some False show ?thesis by simp
    qed
  qed
qed

lemma lookup_fill_same:
  assumes wf: "ht_wf ht data" and j: "j < ncap ht" "\<not> slot_used ht data j"
    and key: "key_at ht data ofs = Some key" and new: "lookup ht data h key = None"
  shows "lookup ht (fill_slot ht data j h ofs vl) h key = Some (value_at ht data ofs vl)"
  using new first_hit_fill_same [OF wf j key, of h vl]
  by (simp add: lookup_def after_fill(4) [OF wf j(1)] j)

definition no_tombs :: "hash_table \<Rightarrow> bytes \<Rightarrow> bool" where
  "no_tombs ht data \<longleftrightarrow> (\<forall>m<ncap ht. Status (slot_at ht data m) \<noteq> SlotTomb)"

text \<open>Without tombstones a new slot for a hash is never nearer to the home position than an old one.\<close>

lemma no_tombs_free_not_nearer:
  assumes inv: "table_inv ht data" and j: "free_walk ht data h = Some j" and nt: "no_tombs ht data"
    and old: "first_hit ht data h key = Some i"
  shows "\<not> dist (ncap ht) (home ht h) j < dist (ncap ht) (home ht h) i"
proof
  have wf: "ht_wf ht data" using inv by simp
  assume near: "dist (ncap ht) (home ht h) j < dist (ncap ht) (home ht h) i"
  note jn = free_walk_Some [OF wf j] and i = first_hit_Some [OF wf old]
  have "slot_empty ht data j" using jn nt by (auto simp: no_tombs_def slot_free_def slot_empty_def)
  moreover have "slot_used ht data i" "Hash (slot_at ht data i) = h" using i(2) by (auto simp: slot_hit_def)
  ultimately show False using inv i jn near by (auto simp: table_inv_iff)
qed

lemma no_tombs_fill:
  "ht_wf ht data \<Longrightarrow> j < ncap ht \<Longrightarrow> no_tombs ht data \<Longrightarrow> no_tombs ht (fill_slot ht data j h ofs vl)"
  by (simp add: no_tombs_def slot_at_fill)

lemma lookup_fill_existing:
  assumes inv: "table_inv ht data" and j: "free_walk ht data h = Some j" and nt: "no_tombs ht data"
    and old: "lookup ht data h key \<noteq> None" and key: "key_at ht data ofs = Some key"
  shows "lookup ht (fill_slot ht data j h ofs vl) h key = lookup ht data h key"
proof -
  have wf: "ht_wf ht data" using inv by simp
  note jn = free_walk_Some(1) [OF wf j] slot_free_not_used [OF free_walk_Some(2) [OF wf j]]
  obtain i where i: "first_hit ht data h key = Some i" using old by (auto simp: lookup_def)
  note near = no_tombs_free_not_nearer [OF inv j nt i]
  have "i \<noteq> j" using first_hit_Some(2) [OF wf i] jn by (auto dest: slot_hit_used)
  then show ?thesis
    using first_hit_fill_same [OF wf jn key, of h vl] near i first_hit_Some(1) [OF wf i]
    by (simp add: lookup_def after_fill(4) [OF wf jn(1)])
qed

text \<open>
  C4. Insertion and lookup: after a successful \<open>Insert\<close> for a key that the table did not hold, and
  whose chunk was written before the call, \<open>Get\<close> returns that chunk's value; for every other key
  \<open>Get\<close> returns what it returned before. Keys that collide on the whole 64-bit hash are no
  exception.
\<close>

theorem Insert_then_Get:
  assumes inv: "table_inv ht data"
    and ins: "HashTable_Insert ht data h key ofs vl = Some (True, data')"
    and new: "lookup ht data h key = None" and chunk: "key_at ht data ofs = Some key"
  shows "table_inv ht data' \<and>
    HashTable_Get ht data' h key = Some (value_at ht data ofs vl, True) \<and>
    (\<forall>h' k'. (h', k') \<noteq> (h, key) \<longrightarrow> HashTable_Get ht data' h' k' = HashTable_Get ht data h' k')"
proof -
  have wf: "ht_wf ht data" using inv by simp
  obtain j where j: "free_walk ht data h = Some j" "data' = fill_slot ht data j h ofs vl"
    using ins by (auto simp: Insert_walk [OF wf] insert_result_def split: option.splits)
  note jn = free_walk_Some(1) [OF wf j(1)] slot_free_not_used [OF free_walk_Some(2) [OF wf j(1)]]
  have inv': "table_inv ht data'" using table_inv_fill [OF inv j(1)] j(2) by simp
  moreover have "HashTable_Get ht data' h key = Some (value_at ht data ofs vl, True)"
    using lookup_fill_same [OF wf jn chunk new]
    by (simp add: j(2) Get_lookup [OF inv' [unfolded j(2)]] lookup_result_def)
  moreover have "HashTable_Get ht data' h' k' = HashTable_Get ht data h' k'" if "(h', k') \<noteq> (h, key)" for h' k'
    using lookup_fill_other [OF wf jn, of h' h ofs k'] that chunk
    by (auto simp: j(2) Get_lookup [OF inv' [unfolded j(2)]] Get_lookup [OF inv])
  ultimately show ?thesis by blast
qed

text \<open>
  C22. A key inserted again, with a chunk of its own, is a second entry, not an update. Both copies
  count; \<open>Get\<close> returns the one nearer to the home position, which is the old one unless the
  new one went into a tombstone before it. In a table without tombstones the first value inserted stays
  the one that is read.
\<close>

theorem Insert_existing_key:
  assumes inv: "table_inv ht data"
    and ins: "HashTable_Insert ht data h key ofs vl = Some (True, data')"
    and old: "first_hit ht data h key = Some i" and chunk: "key_at ht data ofs = Some key"
  shows "used_count ht data' = used_count ht data + 1 \<and>
    (\<exists>j. free_walk ht data h = Some j \<and> HashTable_Get ht data' h key =
      Some (if dist (ncap ht) (home ht h) j < dist (ncap ht) (home ht h) i then value_at ht data ofs vl
            else slot_value ht data i, True)) \<and>
    (no_tombs ht data \<longrightarrow> HashTable_Get ht data' h key = HashTable_Get ht data h key)"
proof -
  have wf: "ht_wf ht data" using inv by simp
  obtain j where j: "free_walk ht data h = Some j" "data' = fill_slot ht data j h ofs vl"
    using ins by (auto simp: Insert_walk [OF wf] insert_result_def split: option.splits)
  note free = free_walk_Some(2) [OF wf j(1)]
  note jn = free_walk_Some(1) [OF wf j(1)] slot_free_not_used [OF free]
  note i = first_hit_Some [OF wf old]
  let ?near = "dist (ncap ht) (home ht h) j < dist (ncap ht) (home ht h) i"
  have inv': "table_inv ht data'" using table_inv_fill [OF inv j(1)] j(2) by simp
  have ij: "i \<noteq> j" using i(2) jn by (auto dest: slot_hit_used)
  have get: "HashTable_Get ht data' h key =
      Some (if ?near then value_at ht data ofs vl else slot_value ht data i, True)"
    using first_hit_fill_same [OF wf jn chunk, of h vl] i old jn ij
    by (auto simp: j(2) Get_lookup [OF inv' [unfolded j(2)]] lookup_def lookup_result_def
        after_fill(4) [OF wf jn(1)])
  have "HashTable_Get ht data' h key = HashTable_Get ht data h key" if "no_tombs ht data"
    using no_tombs_free_not_nearer [OF inv j(1) that old] old get
    by (simp add: Get_lookup [OF inv] lookup_def lookup_result_def)
  moreover have "used_count ht data' = used_count ht data + 1"
    using used_count_fill [OF wf jn] j(2) by simp
  ultimately show ?thesis using get j(1) by blast
qed

section \<open>Deletion\<close>

lemma lookup_tomb_other:
  assumes wf: "ht_wf ht data" and j: "j < ncap ht" and other: "\<not> slot_hit ht data h' k' j"
  shows "lookup ht (tomb_slot ht data j) h' k' = lookup ht data h' k'"
proof -
  have f: "first_hit ht (tomb_slot ht data j) h' k' = first_hit ht data h' k'"
    unfolding first_hit_def
    by (rule find_probe_cong) (use wf other in \<open>auto simp: after_tomb(3) [OF wf j]\<close>)
  show ?thesis
  proof (cases "first_hit ht data h' k'")
    case None
    with f show ?thesis by (simp add: lookup_def)
  next
    case (Some i)
    then have "i < ncap ht" "i \<noteq> j" using first_hit_Some [OF wf Some] other by auto
    with Some f show ?thesis by (simp add: lookup_def after_tomb(4) [OF wf j])
  qed
qed

text \<open>
  C16. \<open>Delete\<close> on a table that satisfies the probe invariant, of a key the table does not
  hold, returns false and writes nothing. Otherwise it turns the first copy in probe order into a
  tombstone, whose hash, offset and length stay, and writes nothing else: neither the other slots nor
  the bytes before the table or in the data region. The invariant is kept, one entry less is counted,
  every other key reads as before, and the key itself reads as missing exactly when no second copy of it
  is left.
\<close>

theorem Delete_correct:
  assumes inv: "table_inv ht data"
  shows "case first_hit ht data h key of
      None \<Rightarrow> (\<forall>m<ncap ht. \<not> slot_hit ht data h key m) \<and> HashTable_Delete ht data h key = Some (False, data)
    | Some i \<Rightarrow> i < ncap ht \<and> slot_hit ht data h key i \<and>
        (\<forall>m<ncap ht. slot_hit ht data h key m \<longrightarrow> dist (ncap ht) (home ht h) i \<le> dist (ncap ht) (home ht h) m) \<and>
        (\<exists>data'. HashTable_Delete ht data h key = Some (True, data') \<and> table_inv ht data' \<and>
        slot_at ht data' i = (slot_at ht data i)\<lparr>Status := SlotTomb\<rparr> \<and>
        (\<forall>m<ncap ht. m \<noteq> i \<longrightarrow> slot_at ht data' m = slot_at ht data m) \<and>
        length data' = length data \<and> take (nat (slotBase ht)) data' = take (nat (slotBase ht)) data \<and>
        drop (data_base ht) data' = drop (data_base ht) data \<and>
        used_count ht data' + 1 = used_count ht data \<and>
        (\<forall>h' k'. (h', k') \<noteq> (h, key) \<longrightarrow> HashTable_Get ht data' h' k' = HashTable_Get ht data h' k') \<and>
        (HashTable_Get ht data' h key = Some (None, False) \<longleftrightarrow>
          (\<forall>m<ncap ht. slot_hit ht data h key m \<longrightarrow> m = i)))"
proof (cases "first_hit ht data h key")
  case None
  moreover have "\<forall>m<ncap ht. \<not> slot_hit ht data h key m" using None inv by (simp add: first_hit_None)
  ultimately show ?thesis using inv by (simp add: Delete_walk walk_first_hit delete_result_def)
next
  case (Some i)
  have wf: "ht_wf ht data" using inv by simp
  note i = first_hit_Some [OF wf Some]
  have first: "\<forall>m<ncap ht. slot_hit ht data h key m \<longrightarrow> dist (ncap ht) (home ht h) i \<le> dist (ncap ht) (home ht h) m"
    using Some unfolding first_hit_nearest [OF wf] by blast
  note frame = take_tomb_slot [OF wf i(1) order_refl] length_tomb_slot [OF wf i(1)] drop_tomb_slot [OF wf i(1)]
  let ?data' = "tomb_slot ht data i"
  have inv': "table_inv ht ?data'" by (rule table_inv_tomb [OF inv i(1)])
  have del: "HashTable_Delete ht data h key = Some (True, ?data')"
    using Some inv by (simp add: Delete_walk walk_first_hit delete_result_def)
  have other: "HashTable_Get ht ?data' h' k' = HashTable_Get ht data h' k'" if "(h', k') \<noteq> (h, key)" for h' k'
    using lookup_tomb_other [OF wf i(1), of h' k'] that i(2)
    by (auto simp: Get_lookup [OF inv'] Get_lookup [OF inv] slot_hit_def)
  have "HashTable_Get ht ?data' h key = Some (None, False) \<longleftrightarrow> first_hit ht ?data' h key = None"
    by (auto simp: Get_lookup [OF inv'] lookup_def lookup_result_def split: option.splits)
  also have "\<dots> \<longleftrightarrow> (\<forall>m<ncap ht. slot_hit ht data h key m \<longrightarrow> m = i)"
    using after_tomb(3) [OF wf i(1), where h' = h and k' = key]
    by (auto simp: first_hit_None [OF ht_wf_tomb [OF wf i(1)]])
  finally have gone: "HashTable_Get ht ?data' h key = Some (None, False) \<longleftrightarrow>
    (\<forall>m<ncap ht. slot_hit ht data h key m \<longrightarrow> m = i)" .
  have count: "used_count ht ?data' + 1 = used_count ht data"
    using used_count_tomb [OF wf i(1) slot_hit_used [OF i(2)]] by simp
  have slots: "slot_at ht ?data' i = (slot_at ht data i)\<lparr>Status := SlotTomb\<rparr>"
    "\<forall>m<ncap ht. m \<noteq> i \<longrightarrow> slot_at ht ?data' m = slot_at ht data m"
    by (simp_all add: slot_at_tomb [OF wf i(1)] i(1) del: SlotTomb_def)
  show ?thesis
    unfolding Some option.case
    by (intro conjI exI [of _ ?data'] i(1,2) first del inv' slots frame count gone allI impI other)
qed

section \<open>A concrete table\<close>

text \<open>
  Two slots and, behind them, the chunks of the entries \<open>[9] \<mapsto> [5]\<close> and \<open>[9] \<mapsto> [6]\<close>; the instances
  below exercise the theorems on it.
\<close>

definition demo_ht :: hash_table where
  "demo_ht = NewHashTable 0 48 2"

definition demo_data :: bytes where
  "demo_data = replicate 48 0 @ [1, 0, 0, 0, 9, 5] @ [1, 0, 0, 0, 9, 6]"

definition demo_data1 :: bytes where
  \<comment> \<open>after \<open>Insert\<close> of the first chunk with hash 7\<close>
  "demo_data1 = fill_slot demo_ht demo_data 1 7 0 1"

lemma demo_ncap [simp]: "ncap demo_ht = 2"
  by (simp add: demo_ht_def NewHashTable_def ncap_def)

lemma demo_wf: "length data = 60 \<Longrightarrow> ht_wf demo_ht data"
  by (auto simp: demo_ht_def NewHashTable_def ht_wf_def intro: exI [of _ 1])

lemma demo_slots: "slot_at demo_ht demo_data 0 = \<lparr>Hash = 0, Offset = 0, VLen = 0, Status = 0\<rparr>"
    "slot_at demo_ht demo_data 1 = \<lparr>Hash = 0, Offset = 0, VLen = 0, Status = 0\<rparr>"
  by code_simp+

lemma demo_unused: "\<forall>i<2. \<not> slot_used demo_ht demo_data i \<and> slot_empty demo_ht demo_data i"
  using demo_slots by (auto simp: less_2_cases_iff slot_used_def slot_empty_def)

lemma demo_inv: "table_inv demo_ht demo_data"
  using demo_unused by (auto simp: table_inv_iff demo_wf demo_data_def)

lemma demo_keys: "key_at demo_ht demo_data 0 = Some [9]" "key_at demo_ht demo_data 6 = Some [9]"
    "value_at demo_ht demo_data 0 1 = Some [5]" "value_at demo_ht demo_data 6 1 = Some [6]"
  by code_simp+

lemma demo_insert: "HashTable_Insert demo_ht demo_data 7 [9] 0 1 = Some (True, demo_data1)"
  by code_simp

lemma demo_miss: "lookup demo_ht demo_data 7 [9] = None"
  using demo_unused demo_wf [of demo_data]
  by (auto simp: lookup_None first_hit_None demo_data_def slot_hit_def)

theorem Insert_first_free_witness:
  "\<exists>data'. HashTable_Insert demo_ht demo_data 7 [9] 0 1 = Some (True, data') \<and>
    table_inv demo_ht data' \<and> used_count demo_ht data' = 1"
proof -
  have "free_walk demo_ht demo_data 7 = Some 1" by code_simp
  with Insert_first_free [OF demo_inv, of 7 "[9]" 0 1] demo_unused show ?thesis
    by (auto simp: used_count_def)
qed

theorem Insert_then_Get_witness:
  "table_inv demo_ht demo_data1 \<and> HashTable_Get demo_ht demo_data1 7 [9] = Some (Some [5], True)"
  using Insert_then_Get [OF demo_inv demo_insert demo_miss demo_keys(1)] by (simp add: demo_keys)

lemma demo_data1_inv: "table_inv demo_ht demo_data1"
proof -
  have "free_walk demo_ht demo_data 7 = Some 1" by code_simp
  from table_inv_fill [OF demo_inv this] show ?thesis by (simp add: demo_data1_def)
qed

lemma demo_first_hit: "first_hit demo_ht demo_data1 7 [9] = Some 1"
  by code_simp

theorem Insert_existing_key_witness:
  "\<exists>data'. HashTable_Insert demo_ht demo_data1 7 [9] 6 1 = Some (True, data') \<and>
    used_count demo_ht data' = used_count demo_ht demo_data1 + 1 \<and>
    HashTable_Get demo_ht data' 7 [9] = Some (Some [5], True)"
proof -
  have ins: "HashTable_Insert demo_ht demo_data1 7 [9] 6 1 =
      Some (True, fill_slot demo_ht demo_data1 0 7 6 1)" by code_simp
  have key: "key_at demo_ht demo_data1 6 = Some [9]" by code_simp
  have "free_walk demo_ht demo_data1 7 = Some 0" "slot_value demo_ht demo_data1 1 = Some [5]"
    "\<not> dist (ncap demo_ht) (home demo_ht 7) 0 < dist (ncap demo_ht) (home demo_ht 7) 1" by code_simp+
  with Insert_existing_key [OF demo_data1_inv ins demo_first_hit key] ins show ?thesis by auto
qed

theorem Delete_correct_witness:
  "\<exists>data'. HashTable_Delete demo_ht demo_data1 7 [9] = Some (True, data') \<and> table_inv demo_ht data' \<and>
    HashTable_Get demo_ht data' 7 [9] = Some (None, False)"
proof -
  have "\<not> slot_hit demo_ht demo_data1 7 [9] 0" by code_simp
  then have "\<forall>m<2. slot_hit demo_ht demo_data1 7 [9] m \<longrightarrow> m = 1" by (auto simp: less_2_cases_iff)
  with Delete_correct [OF demo_data1_inv, of 7 "[9]"] demo_first_hit show ?thesis by auto
qed

theorem Get_exhaustive_witness:
  "HashTable_Get demo_ht demo_data1 7 [9] = Some (Some [5], True) \<and>
    HashTable_Get demo_ht demo_data1 8 [9] = Some (None, False)"
proof -
  have "slot_value demo_ht demo_data1 1 = Some [5]" by code_simp
  then have "lookup demo_ht demo_data1 7 [9] = Some (Some [5])" using demo_first_hit by (simp add: lookup_def)
  moreover have "\<not> slot_hit demo_ht demo_data1 8 [9] 0" "\<not> slot_hit demo_ht demo_data1 8 [9] 1" by code_simp+
  then have "\<forall>j<ncap demo_ht. \<not> slot_hit demo_ht demo_data1 8 [9] j" by (auto simp: less_2_cases_iff)
  ultimately show ?thesis
    using Get_exhaustive [OF demo_data1_inv, of 7 "[9]"] Get_exhaustive [OF demo_data1_inv, of 8 "[9]"]
    by (simp add: lookup_result_def)
qed

theorem Iterate_correct_witness:
  "HashTable_Iterate demo_ht demo_data1 (\<lambda>slot n. (True, n + VLen slot)) 0 = Some 1"
proof -
  have "filter (slot_used demo_ht demo_data1) [0..<ncap demo_ht] = [1]" "VLen (slot_at demo_ht demo_data1 1) = 1"
    by code_simp+
  then show ?thesis
    using Iterate_correct [OF table_inv_wf [OF demo_data1_inv], of "\<lambda>slot n. (True, n + VLen slot)" 0] by simp
qed

end
