(* ===== verification/Store.thy ===== *)
theory Store
  imports Hash Hash_Table_Props
begin

text \<open>
  What holds of a segment between two calls of the writer. \<open>store_inv\<close>: the header describes the
  table, the table satisfies its invariant, and every slot in use points at a chunk that lies between
  the data base and the end of the data written so far, for a key whose hash under the persisted seed
  is the slot's hash. \<open>stored\<close> is the abstract content of such a segment, a map from keys to values.
  The lemmas say what writing a chunk above the end and filling a slot with it do to that map.
\<close>

section \<open>The segment invariant\<close>

definition stored_seed :: "bytes \<Rightarrow> u64" where
  "stored_seed data = le_word (rd 0 8 (hdr_Reserved (header_at data)))"

definition layout :: "hash_table \<Rightarrow> bytes \<Rightarrow> bool" where
  "layout ht data \<longleftrightarrow>
    table_inv ht data \<and> slotBase ht = 64 \<and>
    uint (hdr_HashOffset (header_at data)) = slotBase ht \<and>
    uint (hdr_DataOffset (header_at data)) = dataBase ht \<and>
    uint (hdr_HashCap (header_at data)) = capacity ht \<and>
    stored_seed data \<noteq> 0 \<and> length data < 2 ^ 31"

definition entry_ok :: "hash_table \<Rightarrow> nat \<Rightarrow> bytes \<Rightarrow> nat \<Rightarrow> bool" where
  "entry_ok ht e data i \<longleftrightarrow>
    (\<exists>key. key_at ht data (Offset (slot_at ht data i)) = Some key \<and>
      Hash (slot_at ht data i) = HashKeyWithSeed key (stored_seed data) \<and>
      data_base ht + unat (Offset (slot_at ht data i)) + 4 + length key + unat (VLen (slot_at ht data i))
        \<le> min e (length data))"

definition store_inv :: "hash_table \<Rightarrow> nat \<Rightarrow> bytes \<Rightarrow> bool" where
  \<comment> \<open>\<open>e\<close> is the loader's \<open>dataEnd\<close>; it may lie past the segment after a failed \<open>put\<close>\<close>
  "store_inv ht e data \<longleftrightarrow>
    layout ht data \<and> no_tombs ht data \<and> data_base ht \<le> e \<and> e < 2 ^ 31 \<and>
    (\<forall>i<ncap ht. Status (slot_at ht data i) = SlotEmpty \<or> slot_used ht data i \<and> entry_ok ht e data i)"

definition stored :: "hash_table \<Rightarrow> bytes \<Rightarrow> bytes \<Rightarrow> bytes option" where
  "stored ht data key =
    (case lookup ht data (HashKeyWithSeed key (stored_seed data)) key of None \<Rightarrow> None | Some v \<Rightarrow> v)"

lemma store_invD:
  assumes "store_inv ht e data"
  shows "table_inv ht data" "ht_wf ht data" "slotBase ht = 64" "stored_seed data \<noteq> 0"
    "length data < 2 ^ 31" "data_base ht \<le> e" "e < 2 ^ 31" "64 \<le> data_base ht"
    "uint (hdr_DataOffset (header_at data)) = dataBase ht" "no_tombs ht data"
proof -
  show wf: "ht_wf ht data" using assms by (simp add: store_inv_def layout_def)
  show "slotBase ht = 64" using assms by (simp add: store_inv_def layout_def)
  then show "64 \<le> data_base ht" using slot_off_bound [OF wf ncap_pos [OF wf]] by (simp add: slot_off_def)
qed (use assms in \<open>simp_all add: store_inv_def layout_def\<close>)

lemma store_inv_entry: "store_inv ht e data \<Longrightarrow> i < ncap ht \<Longrightarrow> slot_used ht data i \<Longrightarrow> entry_ok ht e data i"
  by (auto simp: store_inv_def slot_used_def)

lemma store_inv_free: "store_inv ht e data \<Longrightarrow> i < ncap ht \<Longrightarrow> slot_free ht data i \<longleftrightarrow> \<not> slot_used ht data i"
  by (auto simp: store_inv_def slot_used_def slot_free_def)

lemma headerHashSeed_stored: "stored_seed data \<noteq> 0 \<Longrightarrow> headerHashSeed pkg (header_at data) = stored_seed data"
  by (simp add: headerHashSeed_def stored_seed_def Let_def)

lemma entry_value:
  assumes "ht_wf ht data" "entry_ok ht e data i"
  shows "slot_value ht data i \<noteq> None"
  using assms
  by (auto simp: entry_ok_def slot_value_def key_at_def value_at_def Let_def split: if_splits)

lemma lookup_value:
  assumes "store_inv ht e data"
  shows "lookup ht data h key \<noteq> Some None"
proof
  note i = store_invD [OF assms]
  assume "lookup ht data h key = Some None"
  then obtain j where j: "first_hit ht data h key = Some j" "slot_value ht data j = None"
    by (auto simp: lookup_def)
  have "entry_ok ht e data j"
    using store_inv_entry [OF assms] first_hit_Some [OF i(2) j(1)] slot_hit_used by blast
  then show False using entry_value [OF i(2)] j(2) by blast
qed

lemma Get_stored:
  assumes "store_inv ht e data"
  shows "HashTable_Get ht data (HashKeyWithSeed key (stored_seed data)) key =
    Some (stored ht data key, stored ht data key \<noteq> None)"
  using lookup_value [OF assms, of "HashKeyWithSeed key (stored_seed data)" key] store_invD(1) [OF assms]
  by (auto simp: Get_lookup stored_def lookup_result_def split: option.splits)

section \<open>Writing a chunk\<close>

definition chunk :: "bytes \<Rightarrow> bytes \<Rightarrow> bytes" where
  "chunk key value = le_bytes 4 (of_nat (length key) :: u32) @ key @ value"

lemma length_chunk [simp]: "length (chunk key value) = 4 + length key + length value"
  by (simp add: chunk_def)

lemma write_chunk:
  assumes "e + length (chunk key value) \<le> length data"
  shows "do { data \<leftarrow> put_u32 data (int e) (of_nat (length key));
              data \<leftarrow> copy_at data (int e + 4) key;
              data \<leftarrow> copy_at data (int e + 4 + int (length key)) value;
              f data } = f (wr e (chunk key value) data)"
proof -
  let ?w = "le_bytes 4 (of_nat (length key) :: u32)"
  have len: "e + 4 + length key + length value \<le> length data" using assms by simp
  have c1: "copy_at (wr e ?w data) (int e + 4) key = Some (wr (e + 4) key (wr e ?w data))"
    using copy_at_int [of "e + 4" key "wr e ?w data"] len by simp
  have c2: "wr (e + 4) key (wr e ?w data) = wr e (?w @ key) data"
    using wr_wr_adjacent [of e ?w key data] len by simp
  have c3: "copy_at (wr e (?w @ key) data) (int e + 4 + int (length key)) value =
      Some (wr (e + (4 + length key)) value (wr e (?w @ key) data))"
    using copy_at_int [of "e + 4 + length key" "value" "wr e (?w @ key) data"] len by (simp add: add.assoc)
  have c4: "wr (e + (4 + length key)) value (wr e (?w @ key) data) = wr e (chunk key value) data"
    using wr_wr_adjacent [of e "?w @ key" "value" data] len by (simp add: chunk_def)
  show ?thesis using len by (simp add: c1 c2 c3 c4)
qed

lemma chunk_readback:
  assumes "e + length (chunk key value) \<le> length data" "length data < 2 ^ 31"
    and "data_base ht + unat p = e" "unat vl = length value"
  shows "key_at ht (wr e (chunk key value) data) p = Some key"
    "value_at ht (wr e (chunk key value) data) p vl = Some value"
proof -
  let ?d = "wr e (chunk key value) data"
  have len: "e + 4 + length key + length value \<le> length data" using assms by simp
  have all: "rd e (4 + length key + length value) ?d = chunk key value" using assms(1) by simp
  have part: "rd (e + a) b ?d = rd a b (chunk key value)" if "a + b \<le> 4 + length key + length value" for a b
    using rd_rd [OF that, of e ?d] all by simp
  have "u32_at ?d e = of_nat (length key)"
    using part [of 0 4] by (simp add: u32_at_def chunk_def rd_def)
  then have kl: "unat (u32_at ?d e) = length key" using len assms(2) by (simp add: unat_of_nat_small)
  have "rd (e + 4) (length key) ?d = key" using part [of 4 "length key"] by (simp add: chunk_def rd_def)
  moreover have "rd (e + (4 + length key)) (length value) ?d = value"
    using part [of "4 + length key" "length value"] by (simp add: chunk_def rd_def)
  ultimately show "key_at ht ?d p = Some key" "value_at ht ?d p vl = Some value"
    using len assms(3,4) by (simp_all add: key_at_def value_at_def Let_def kl add.assoc)
qed

text \<open>Writing above the end of the data changes nothing that the table refers to.\<close>

lemma slot_at_above:
  assumes "ht_wf ht data" "i < ncap ht" "data_base ht \<le> e" "e + length ys \<le> length data"
  shows "slot_at ht (wr e ys data) i = slot_at ht data i"
  by (rule slot_at_cong)
    (use assms slot_off_bound [OF assms(1,2)] slot_off_in [OF assms(1,2)] in
      \<open>auto intro!: rd_wr_disjoint\<close>)

lemma chunk_below:
  assumes "key_at ht data p = Some key" "data_base ht + unat p + 4 + length key + unat vl \<le> e"
    and "e + length ys \<le> length data"
  shows "key_at ht (wr e ys data) p = Some key" "value_at ht (wr e ys data) p vl = value_at ht data p vl"
proof -
  let ?a = "data_base ht + unat p"
  have len: "length (wr e ys data) = length data" using assms(3) by simp
  have kl: "unat (u32_at data ?a) = length key" and key: "rd (?a + 4) (length key) data = key"
    using assms(1,2) by (auto simp: key_at_def Let_def split: if_splits)
  have same: "rd b n (wr e ys data) = rd b n data" if "b + n \<le> e" for b n
    using that assms(3) by (intro rd_wr_disjoint) auto
  have u: "u32_at (wr e ys data) ?a = u32_at data ?a" using assms(2) by (simp add: u32_at_def same)
  show "key_at ht (wr e ys data) p = Some key"
    using assms(1,2) by (simp add: key_at_def Let_def u len kl same split: if_splits)
  show "value_at ht (wr e ys data) p vl = value_at ht data p vl"
    using assms(2) by (simp add: value_at_def Let_def u len kl same)
qed

section \<open>Writing a chunk keeps the store\<close>

lemma stored_seed_cong: "header_at data' = header_at data \<Longrightarrow> stored_seed data' = stored_seed data"
  by (simp add: stored_seed_def)

lemma slot_predicates_cong:
  assumes "slot_at ht data' i = slot_at ht data i"
  shows "slot_used ht data' i = slot_used ht data i" "slot_empty ht data' i = slot_empty ht data i"
    "slot_free ht data' i = slot_free ht data i"
  using assms by (simp_all add: slot_used_def slot_empty_def slot_free_def)

lemma slot_hit_value_cong:
  assumes "slot_at ht data' i = slot_at ht data i"
    and "slot_used ht data i \<Longrightarrow> key_at ht data' (Offset (slot_at ht data i)) = key_at ht data (Offset (slot_at ht data i))"
    and "slot_used ht data i \<Longrightarrow> value_at ht data' (Offset (slot_at ht data i)) (VLen (slot_at ht data i)) =
        value_at ht data (Offset (slot_at ht data i)) (VLen (slot_at ht data i))"
  shows "slot_hit ht data' h key i = slot_hit ht data h key i"
    "slot_used ht data i \<Longrightarrow> slot_value ht data' i = slot_value ht data i"
  using assms by (auto simp: slot_hit_def slot_value_def slot_used_def)

lemma lookup_cong:
  assumes wf: "ht_wf ht data"
    and hit: "\<And>i h key. i < ncap ht \<Longrightarrow> slot_hit ht data' h key i = slot_hit ht data h key i"
    and val: "\<And>i. i < ncap ht \<Longrightarrow> slot_used ht data i \<Longrightarrow> slot_value ht data' i = slot_value ht data i"
  shows "lookup ht data' h key = lookup ht data h key"
proof -
  have f: "first_hit ht data' h key = first_hit ht data h key"
    unfolding first_hit_def by (rule find_probe_cong) (use wf hit in simp_all)
  show ?thesis
    using val first_hit_Some [OF wf, of h key] slot_hit_used
    by (cases "first_hit ht data h key") (auto simp: lookup_def f)
qed

lemma table_inv_cong:
  assumes "table_inv ht data" "length data' = length data"
    and "\<And>i. i < ncap ht \<Longrightarrow> slot_at ht data' i = slot_at ht data i"
  shows "table_inv ht data'"
proof -
  note same = assms(3) slot_predicates_cong [OF assms(3)]
  show ?thesis using assms(1) same ht_wf_cong [OF assms(2), of ht] by (auto simp: table_inv_iff)
qed

lemma store_inv_write:
  assumes inv: "store_inv ht e data" and fits: "e + length ys \<le> length data"
  defines "data' \<equiv> wr e ys data"
  shows "store_inv ht (e + length ys) data'" "lookup ht data' h key = lookup ht data h key"
    "stored ht data' k = stored ht data k" "\<And>i. i < ncap ht \<Longrightarrow> slot_at ht data' i = slot_at ht data i"
    "header_at data' = header_at data"
    "\<And>i. i < ncap ht \<Longrightarrow> slot_used ht data i \<Longrightarrow>
      key_at ht data' (Offset (slot_at ht data i)) = key_at ht data (Offset (slot_at ht data i))"
    "\<And>i. i < ncap ht \<Longrightarrow> slot_used ht data i \<Longrightarrow> slot_value ht data' i = slot_value ht data i"
proof -
  note d = store_invD [OF inv]
  have len: "length data' = length data" using fits by (simp add: data'_def)
  show hdr: "header_at data' = header_at data" using d(6,8) fits by (simp add: data'_def header_at_wr)
  show slot: "slot_at ht data' i = slot_at ht data i" if "i < ncap ht" for i
    using slot_at_above [OF d(2) that d(6) fits] by (simp add: data'_def)
  have entry: "entry_ok ht (e + length ys) data' i \<and>
      key_at ht data' (Offset (slot_at ht data i)) = key_at ht data (Offset (slot_at ht data i)) \<and>
      slot_value ht data' i = slot_value ht data i"
    if i: "i < ncap ht" "slot_used ht data i" for i
  proof -
    obtain key where key: "key_at ht data (Offset (slot_at ht data i)) = Some key"
        "Hash (slot_at ht data i) = HashKeyWithSeed key (stored_seed data)"
        "data_base ht + unat (Offset (slot_at ht data i)) + 4 + length key + unat (VLen (slot_at ht data i))
          \<le> min e (length data)"
      using store_inv_entry [OF inv i] by (auto simp: entry_ok_def)
    then show ?thesis
      using chunk_below [OF key(1) _ fits, of "VLen (slot_at ht data i)"] slot [OF i(1)] len
      by (auto simp: entry_ok_def slot_value_def data'_def [symmetric] stored_seed_cong [OF hdr])
  qed
  then show "\<And>i. i < ncap ht \<Longrightarrow> slot_used ht data i \<Longrightarrow>
      key_at ht data' (Offset (slot_at ht data i)) = key_at ht data (Offset (slot_at ht data i))"
    "\<And>i. i < ncap ht \<Longrightarrow> slot_used ht data i \<Longrightarrow> slot_value ht data' i = slot_value ht data i" by blast+
  have inv_t: "table_inv ht data'" by (rule table_inv_cong [OF d(1) len slot])
  have "layout ht data'"
    using inv inv_t len unfolding store_inv_def layout_def by (simp add: hdr stored_seed_cong [OF hdr])
  moreover have "no_tombs ht data'" using d(10) slot by (simp add: no_tombs_def)
  moreover have "Status (slot_at ht data' i) = SlotEmpty \<or>
      slot_used ht data' i \<and> entry_ok ht (e + length ys) data' i" if "i < ncap ht" for i
    using inv that entry [OF that] slot [OF that] unfolding store_inv_def slot_used_def by metis
  moreover have "e + length ys < 2 ^ 31" using fits d(5) by linarith
  ultimately show "store_inv ht (e + length ys) data'" using d(6) unfolding store_inv_def by simp
  show look: "lookup ht data' h key = lookup ht data h key" for h key
    by (rule lookup_cong [OF d(2)]) (use entry slot in \<open>auto simp: slot_hit_def slot_used_def\<close>)
  show "stored ht data' k = stored ht data k" by (simp add: stored_def look stored_seed_cong [OF hdr])
qed

section \<open>Writing the header keeps the store\<close>

lemma store_inv_set_header:
  assumes inv: "store_inv ht e data" and ok: "header_ok h"
    and same: "hdr_Reserved h = hdr_Reserved (header_at data)" "hdr_HashOffset h = hdr_HashOffset (header_at data)"
      "hdr_DataOffset h = hdr_DataOffset (header_at data)" "hdr_HashCap h = hdr_HashCap (header_at data)"
  defines "data' \<equiv> set_header data h"
  shows "store_inv ht e data'" "stored ht data' k = stored ht data k" "used_count ht data' = used_count ht data"
    "header_at data' = h" "length data' = length data"
    "\<And>i. i < ncap ht \<Longrightarrow> slot_at ht data' i = slot_at ht data i"
    "\<And>p. key_at ht data' p = key_at ht data p" "\<And>p vl. value_at ht data' p vl = value_at ht data p vl"
proof -
  note d = store_invD [OF inv]
  have L: "64 \<le> length data" using d(8) data_base_le [OF d(2)] by linarith
  show len: "length data' = length data" and hdr: "header_at data' = h"
    using ok L by (simp_all add: data'_def)
  have seed: "stored_seed data' = stored_seed data" by (simp add: stored_seed_def hdr same)
  show slot: "slot_at ht data' i = slot_at ht data i" if i: "i < ncap ht" for i
    by (rule slot_at_cong)
      (use slot_off_in [OF d(2) i] len ok L d(3) in \<open>simp_all add: data'_def rd_set_header slot_off_def\<close>)
  have "drop (data_base ht) data' = drop (data_base ht) data"
    using ok L d(8) by (simp add: data'_def drop_set_header)
  note kv = data_cong [OF len this]
  show "\<And>p. key_at ht data' p = key_at ht data p" "\<And>p vl. value_at ht data' p vl = value_at ht data p vl"
    by (simp_all add: kv)
  have entry: "entry_ok ht e data' i \<longleftrightarrow> entry_ok ht e data i" if "i < ncap ht" for i
    using slot [OF that] by (simp add: entry_ok_def kv seed len)
  have "layout ht data'"
    using inv table_inv_cong [OF d(1) len slot] unfolding store_inv_def layout_def hdr
    by (simp add: seed same len)
  moreover have "no_tombs ht data'" using d(10) slot by (simp add: no_tombs_def)
  moreover have "Status (slot_at ht data' i) = SlotEmpty \<or> slot_used ht data' i \<and> entry_ok ht e data' i"
    if "i < ncap ht" for i
    using inv that entry [OF that] slot [OF that] unfolding store_inv_def slot_used_def by metis
  ultimately show "store_inv ht e data'" using d(6,7) unfolding store_inv_def by blast
  have "lookup ht data' h' k = lookup ht data h' k" for h'
    by (rule lookup_cong [OF d(2)]) (use slot in \<open>simp_all add: slot_hit_def slot_used_def slot_value_def kv\<close>)
  then show "stored ht data' k = stored ht data k" by (simp add: stored_def seed)
  show "used_count ht data' = used_count ht data"
    using slot by (auto simp: used_count_def slot_used_def intro!: arg_cong [where f = card])
qed

section \<open>A put that succeeds\<close>

text \<open>The memory after the chunk is written at \<open>e\<close> and slot \<open>j\<close> points at it.\<close>

definition put_memory :: "hash_table \<Rightarrow> nat \<Rightarrow> bytes \<Rightarrow> bytes \<Rightarrow> bytes \<Rightarrow> nat \<Rightarrow> bytes" where
  "put_memory ht e data key value j =
    fill_slot ht (wr e (chunk key value) data) j (HashKeyWithSeed key (stored_seed data))
      (of_nat (e - data_base ht)) (of_nat (length value))"

lemma header_at_fill:
  assumes "ht_wf ht data" "j < ncap ht" "slotBase ht = 64"
  shows "header_at (fill_slot ht data j h ofs vl) = header_at data"
  using slot_off_in [OF assms(1,2)] assms(3)
  by (simp add: fill_slot_def Let_def slot_off_def header_at_wr)

lemma used_count_cong:
  "(\<And>i. i < ncap ht \<Longrightarrow> slot_at ht data' i = slot_at ht data i) \<Longrightarrow> used_count ht data' = used_count ht data"
  by (auto simp: used_count_def slot_used_def intro!: arg_cong [where f = card])

lemma put_memory_facts:
  assumes inv: "store_inv ht e data" and fits: "e + length (chunk key value) \<le> length data"
    and j: "free_walk ht (wr e (chunk key value) data) h = Some j"
  defines "d1 \<equiv> wr e (chunk key value) data" and "p \<equiv> of_nat (e - data_base ht) :: u32"
  shows "ht_wf ht d1" "j < ncap ht" "\<not> slot_used ht d1 j" "length d1 = length data"
    "key_at ht d1 p = Some key" "value_at ht d1 p (of_nat (length value)) = Some value"
    "data_base ht + unat p = e" "unat (of_nat (length value) :: u32) = length value"
proof -
  note d = store_invD [OF inv]
  have len: "e + 4 + length key + length value \<le> length data" using fits by simp
  show l1: "length d1 = length data" using fits by (simp add: d1_def)
  show wf: "ht_wf ht d1" using d(2) ht_wf_cong [OF l1] by simp
  show "j < ncap ht" "\<not> slot_used ht d1 j"
    using free_walk_Some [OF wf j [folded d1_def]] by (auto dest: slot_free_not_used)
  have "e - data_base ht < 2 ^ 32" using d(7) by simp
  then have "unat p = e - data_base ht" by (simp add: p_def unat_of_nat_small)
  then show p: "data_base ht + unat p = e" using d(6) by simp
  show v: "unat (of_nat (length value) :: u32) = length value"
    using len d(5) by (simp add: unat_of_nat_small)
  show "key_at ht d1 p = Some key" "value_at ht d1 p (of_nat (length value)) = Some value"
    using chunk_readback [OF fits d(5) p v] by (simp_all add: d1_def)
qed

lemma put_memory_store:
  assumes inv: "store_inv ht e data" and fits: "e + length (chunk key value) \<le> length data"
    and j: "free_walk ht (wr e (chunk key value) data) (HashKeyWithSeed key (stored_seed data)) = Some j"
  defines "data' \<equiv> put_memory ht e data key value j"
  shows "store_inv ht (e + length (chunk key value)) data'" "length data' = length data"
    "used_count ht data' = Suc (used_count ht data)" "header_at data' = header_at data"
    "stored ht data' = [key \<mapsto> value] ++ stored ht data"
proof -
  define d1 where "d1 = wr e (chunk key value) data"
  define p where "p = (of_nat (e - data_base ht) :: u32)"
  define vl where "vl = (of_nat (length value) :: u32)"
  define h where "h = HashKeyWithSeed key (stored_seed data)"
  have data': "data' = fill_slot ht d1 j h p vl"
    by (simp add: data'_def put_memory_def d1_def p_def vl_def h_def)
  note f = put_memory_facts [OF inv fits j, folded d1_def p_def vl_def]
  note w = store_inv_write [OF inv fits, folded d1_def]
  note d = store_invD [OF inv] and d1 = store_invD [OF w(1)]
  note j1 = j [folded d1_def h_def]
  show len: "length data' = length data" by (simp add: data' length_fill_slot [OF f(1,2)] f(4))
  show hdr: "header_at data' = header_at data" by (simp add: data' header_at_fill [OF f(1,2) d(3)] w(5))
  have seed: "stored_seed data' = stored_seed data" by (rule stored_seed_cong [OF hdr])
  show "used_count ht data' = Suc (used_count ht data)"
    using used_count_fill [OF f(1,2,3)] used_count_cong [OF w(4)] by (simp add: data')
  have slot: "slot_at ht data' i = (if i = j then \<lparr>Hash = h, Offset = p, VLen = vl, Status = SlotUsed\<rparr>
      else slot_at ht d1 i)" if "i < ncap ht" for i
    unfolding data' using slot_at_fill [OF f(1,2) that] by simp
  have tinv: "table_inv ht data'" unfolding data' by (rule table_inv_fill [OF d1(1) j1])
  have keys: "key_at ht data' q = key_at ht d1 q" for q by (simp add: data' fill_data [OF f(1,2) f(1,2)])
  have lay: "layout ht data'"
    using inv tinv len unfolding store_inv_def layout_def by (simp add: hdr seed)
  have nt: "no_tombs ht data'" unfolding data' by (rule no_tombs_fill [OF f(1,2) d1(10)])
  have st: "Status (slot_at ht data' i) = SlotEmpty \<or>
      slot_used ht data' i \<and> entry_ok ht (e + length (chunk key value)) data' i" if i: "i < ncap ht" for i
  proof (cases "i = j")
    case True
    have "data_base ht + unat p + 4 + length key + unat vl \<le> min (e + length (chunk key value)) (length data')"
      using fits f(7,8) len by simp
    then show ?thesis using True slot [OF i] f(5)
      by (simp add: slot_used_def entry_ok_def keys seed h_def)
  next
    case False
    have "stored_seed d1 = stored_seed data" by (rule stored_seed_cong [OF w(5)])
    then show ?thesis using w(1) i False slot [OF i] f(4) len
      unfolding store_inv_def slot_used_def entry_ok_def keys seed by metis
  qed
  show "store_inv ht (e + length (chunk key value)) data'"
    unfolding store_inv_def using lay nt st d1(6,7) by blast
  have "stored ht data' k = ([key \<mapsto> value] ++ stored ht data) k" for k
  proof (cases "k = key")
    case False
    then have "lookup ht data' h' k = lookup ht d1 h' k" for h'
      unfolding data' using lookup_fill_other [OF f(1,2,3), of h' h p k] f(5) by simp
    then show ?thesis using False by (simp add: stored_def seed w(2) map_add_def split: option.split)
  next
    case True
    show ?thesis
    proof (cases "lookup ht data h key")
      case None
      then have "lookup ht data' h key = Some (Some value)"
        unfolding data' using lookup_fill_same [OF f(1,2,3,5)] f(6) [unfolded vl_def [symmetric]] w(2) by simp
      with None True show ?thesis by (simp add: stored_def seed h_def map_add_def)
    next
      case (Some v)
      then have "lookup ht data' h key = Some v"
        unfolding data' using lookup_fill_existing [OF d1(1) j1 d1(10) _ f(5)] w(2) by simp
      with Some True lookup_value [OF inv, of h key] show ?thesis
        by (auto simp: stored_def seed h_def map_add_def)
    qed
  qed
  then show "stored ht data' = [key \<mapsto> value] ++ stored ht data" by (rule ext)
qed

section \<open>The end of the data, and the full table\<close>

lemma store_inv_mono: "store_inv ht e data \<Longrightarrow> e \<le> e' \<Longrightarrow> e' < 2 ^ 31 \<Longrightarrow> store_inv ht e' data"
  unfolding store_inv_def entry_ok_def min_def by (smt (verit) le_trans)

lemma used_count_full: "used_count ht data = ncap ht \<longleftrightarrow> (\<forall>i<ncap ht. slot_used ht data i)"
proof
  assume "used_count ht data = ncap ht"
  then have "{i. i < ncap ht \<and> slot_used ht data i} = {..<ncap ht}"
    by (intro card_subset_eq) (auto simp: used_count_def)
  then show "\<forall>i<ncap ht. slot_used ht data i" by blast
next
  assume "\<forall>i<ncap ht. slot_used ht data i"
  then have "{i. i < ncap ht \<and> slot_used ht data i} = {..<ncap ht}" by auto
  then show "used_count ht data = ncap ht" by (simp add: used_count_def)
qed

lemma store_full: "store_inv ht e data \<Longrightarrow> free_walk ht data h = None \<longleftrightarrow> used_count ht data = ncap ht"
  using store_inv_free [of ht e data] store_invD(2) [of ht e data]
  by (simp add: free_walk_None used_count_full)

end
