(* ===== verification/Errors.thy ===== *)
theory Errors
  imports Encoding
begin

text \<open>
  The error values of the program. A Go function that returns an \<open>error\<close> returns one of these (or
  nil), so that every early return is a branch of the model. The texts of the messages are left out,
  except for the values they carry.
\<close>

datatype error =
    ErrEOF                                 \<comment> \<open>\<open>featcache.ErrEOF\<close>: the data source is exhausted\<close>
  | ErrRead io_error                       \<comment> \<open>\<open>io.EOF\<close> and \<open>io.ErrUnexpectedEOF\<close>\<close>
  | ErrTooLong                             \<comment> \<open>\<open>bufio.ErrTooLong\<close>\<close>
  | ErrNotExist                            \<comment> \<open>\<open>os.Open\<close> of a missing file\<close>
  | ErrExist                               \<comment> \<open>an exclusive create of an existing file\<close>
  | ErrClosed                              \<comment> \<open>closing a file twice\<close>
  | ErrSyscall                             \<comment> \<open>a failed \<open>Stat\<close>, \<open>Truncate\<close>, \<open>Mmap\<close>, \<open>Munmap\<close> or \<open>Remove\<close>\<close>
  | ErrJoined error error                  \<comment> \<open>\<open>errors.Join\<close> of two errors\<close>
  | ErrNotSupported                        \<comment> \<open>\<open>shm.ErrNotSupported\<close>\<close>
  | ErrSegmentTooSmall                     \<comment> \<open>\<open>Loader.Init\<close>\<close>
  | ErrDataRegionFull                      \<comment> \<open>\<open>Loader.put\<close>\<close>
  | errHashFull                            \<comment> \<open>\<open>Loader.put\<close>\<close>
  | ErrDial                                \<comment> \<open>\<open>net.DialTimeout\<close> or \<open>net.ListenUnix\<close> failed\<close>
  | ErrWrite                               \<comment> \<open>a failed write to a connection\<close>
  | ErrLoaderBusy u32                      \<comment> \<open>\<open>Reader.connect\<close>: busy, with the loader's state\<close>
  | ErrLoaderStatus byte                   \<comment> \<open>\<open>Reader.connect\<close>: any other status\<close>
  | ErrNameMismatch bytes bytes            \<comment> \<open>\<open>Reader.connect\<close>: the wanted and the reported name\<close>
  | ErrEmptyName                           \<comment> \<open>\<open>Reader.connect\<close>: no name to open\<close>

end
