(* ===== verification/Shm.thy ===== *)
theory Shm
  imports Errors
begin

text \<open>
  \<open>pkg/shm\<close>: shared memory segments. The \<open>world\<close> is the state that segments live in, for all processes
  of the machine together: the files under \<open>/dev/shm\<close>, the memory objects behind them, the slices that
  map an object into an address space, and the \<open>Segment\<close> structs. A \<open>*Segment\<close> is a number, so that
  two holders of one pointer see each other's changes (\<open>Borrow\<close>, \<open>Close\<close>). A memory object outlives
  its file for as long as anything maps it; the model never frees one.

  The calls into the kernel (\<open>os\<close> and \<open>golang.org/x/sys/unix\<close>) may fail: the record \<open>sys\<close> says which.
\<close>

section \<open>The world\<close>

record segment =
  seg_name :: go_string
  seg_data :: "nat option"   \<comment> \<open>the slice; nil is None\<close>
  seg_cap :: int
  seg_mapped :: bool
  seg_backedByFile :: bool

record world =
  files :: "go_string \<rightharpoonup> nat"
  objects :: "nat \<rightharpoonup> bytes"
  views :: "nat \<rightharpoonup> nat"          \<comment> \<open>a slice, and the memory object it shows\<close>
  segments :: "nat \<rightharpoonup> segment"
  testSegments :: "go_string \<rightharpoonup> nat"
  next_id :: nat

record sys =
  sys_open_ok :: "go_string \<Rightarrow> bool"
  sys_truncate_ok :: "int \<Rightarrow> bool"
  sys_stat_ok :: bool
  sys_mmap_ok :: "int \<Rightarrow> bool"
  sys_munmap_ok :: bool
  sys_remove_ok :: "go_string \<Rightarrow> bool"

definition view_bytes :: "world \<Rightarrow> nat option \<Rightarrow> bytes option" where
  \<comment> \<open>the bytes a slice shows; \<open>None\<close> is the fault on memory that is no longer mapped\<close>
  "view_bytes w v =
    (case v of None \<Rightarrow> Some [] | Some i \<Rightarrow> (case views w i of None \<Rightarrow> None | Some obj \<Rightarrow> objects w obj))"

definition view_store :: "world \<Rightarrow> nat option \<Rightarrow> bytes \<Rightarrow> world" where
  \<comment> \<open>the world after writes through a slice have turned its bytes into \<open>bs\<close>\<close>
  "view_store w v bs =
    (case v of None \<Rightarrow> w
     | Some i \<Rightarrow> (case views w i of None \<Rightarrow> w | Some obj \<Rightarrow> w\<lparr>objects := (objects w)(obj \<mapsto> bs)\<rparr>))"

definition os_Remove :: "sys \<Rightarrow> world \<Rightarrow> go_string \<Rightarrow> error option \<times> world" where
  "os_Remove sys w path =
    (if files w path = None then (Some ErrNotExist, w)
     else if sys_remove_ok sys path then (None, w\<lparr>files := (files w)(path := None)\<rparr>)
     else (Some ErrSyscall, w))"

definition errors_Join :: "error option \<Rightarrow> error option \<Rightarrow> error option" where
  "errors_Join a b =
    (case a of None \<Rightarrow> b | Some x \<Rightarrow> (case b of None \<Rightarrow> a | Some y \<Rightarrow> Some (ErrJoined x y)))"

section \<open>Linux: segment_linux.go\<close>

definition DevShmPath :: "go_string \<Rightarrow> go_string" where
  \<comment> \<open>\<open>"/dev/shm/" + name\<close>\<close>
  "DevShmPath name = [47, 100, 101, 118, 47, 115, 104, 109, 47] @ name"

definition linux_createSegment :: "sys \<Rightarrow> world \<Rightarrow> go_string \<Rightarrow> int \<Rightarrow> (error + nat) \<times> world" where
  "linux_createSegment sys w name sz =
    (let path = DevShmPath name
     in if files w path \<noteq> None then (Inl ErrExist, w)
        else if \<not> sys_open_ok sys path then (Inl ErrSyscall, w)
        else
          let obj = next_id w;
              w = w\<lparr>files := (files w)(path \<mapsto> obj), next_id := obj + 1, objects := (objects w)(obj \<mapsto> [])\<rparr>
          in if \<not> sys_truncate_ok sys sz then (Inl ErrSyscall, snd (os_Remove sys w path))
             else
               let w = w\<lparr>objects := (objects w)(obj \<mapsto> replicate (nat sz) 0)\<rparr>
               in if \<not> sys_mmap_ok sys sz then (Inl ErrSyscall, snd (os_Remove sys w path))
                  else
                    let data = next_id w; seg = next_id w + 1
                    in (Inr seg,
                        w\<lparr>views := (views w)(data \<mapsto> obj),
                          segments := (segments w)(seg \<mapsto>
                            \<lparr>seg_name = name, seg_data = Some data, seg_cap = sz,
                             seg_mapped = True, seg_backedByFile = True\<rparr>),
                          next_id := seg + 1\<rparr>))"

definition linux_openSegment :: "sys \<Rightarrow> world \<Rightarrow> go_string \<Rightarrow> (error + nat) \<times> world" where
  "linux_openSegment sys w name =
    (let path = DevShmPath name
     in case files w path of
          None \<Rightarrow> (Inl ErrNotExist, w)
        | Some obj \<Rightarrow>
            if \<not> sys_open_ok sys path \<or> \<not> sys_stat_ok sys then (Inl ErrSyscall, w)
            else
              let sz = (case objects w obj of None \<Rightarrow> 0 | Some bs \<Rightarrow> int (length bs))
              in if \<not> sys_mmap_ok sys sz then (Inl ErrSyscall, w)
                 else
                   let data = next_id w; seg = next_id w + 1
                   in (Inr seg,
                       w\<lparr>views := (views w)(data \<mapsto> obj),
                         segments := (segments w)(seg \<mapsto>
                           \<lparr>seg_name = name, seg_data = Some data, seg_cap = sz,
                            seg_mapped = True, seg_backedByFile = True\<rparr>),
                         next_id := seg + 1\<rparr>))"

text \<open>The methods return \<open>None\<close> for a nil receiver.\<close>

definition linux_close :: "sys \<Rightarrow> world \<Rightarrow> nat \<Rightarrow> (error option \<times> world) option" where
  "linux_close sys w s =
    do { seg \<leftarrow> segments w s;
         case seg_data seg of
           None \<Rightarrow> Some (None, w)
         | Some v \<Rightarrow>
             let nil = w\<lparr>segments := (segments w)(s \<mapsto> seg\<lparr>seg_mapped := False, seg_data := None\<rparr>)\<rparr>
             in if seg_mapped seg then
                  if \<not> sys_munmap_ok sys
                  then Some (Some ErrSyscall, w\<lparr>segments := (segments w)(s \<mapsto> seg\<lparr>seg_mapped := False\<rparr>)\<rparr>)
                  else Some (None, nil\<lparr>views := (views w)(v := None)\<rparr>)
                else Some (None, nil) }"

definition linux_destroy :: "sys \<Rightarrow> world \<Rightarrow> nat \<Rightarrow> (error option \<times> world) option" where
  "linux_destroy sys w s =
    do { (err, w) \<leftarrow> linux_close sys w s;
         seg \<leftarrow> segments w s;
         if \<not> seg_backedByFile seg then Some (err, w)
         else
           (case os_Remove sys w (DevShmPath (seg_name seg)) of
              (rmErr, w) \<Rightarrow> Some (errors_Join err (if rmErr = Some ErrNotExist then None else rmErr), w)) }"

section \<open>Other platforms: segment_other.go\<close>

definition RegisterTestSegment :: "world \<Rightarrow> go_string \<Rightarrow> nat \<Rightarrow> world" where
  "RegisterTestSegment w name s =
    (if name \<noteq> [] then w\<lparr>testSegments := (testSegments w)(name \<mapsto> s)\<rparr> else w)"

definition UnregisterTestSegment :: "world \<Rightarrow> go_string \<Rightarrow> world" where
  "UnregisterTestSegment w name = w\<lparr>testSegments := (testSegments w)(name := None)\<rparr>"

definition other_createSegment :: "world \<Rightarrow> go_string \<Rightarrow> int \<Rightarrow> (error + nat) \<times> world" where
  "other_createSegment w _ _ = (Inl ErrNotSupported, w)"

definition other_openSegment :: "world \<Rightarrow> go_string \<Rightarrow> (error + nat) option \<times> world" where
  \<comment> \<open>\<open>None\<close>: a nil segment was registered, and is dereferenced\<close>
  "other_openSegment w name =
    (case testSegments w name of
       None \<Rightarrow> (Some (Inl ErrNotSupported), w)
     | Some s \<Rightarrow>
         (case segments w s of
            None \<Rightarrow> (None, w)
          | Some seg \<Rightarrow>
              (Some (Inr (next_id w)),
               w\<lparr>segments := (segments w)(next_id w \<mapsto> seg\<lparr>seg_backedByFile := False\<rparr>), next_id := next_id w + 1\<rparr>)))"

definition other_close :: "world \<Rightarrow> nat \<Rightarrow> (error option \<times> world) option" where
  "other_close w s =
    do { seg \<leftarrow> segments w s;
         if seg_data seg = None then Some (None, w)
         else Some (None, w\<lparr>segments := (segments w)(s \<mapsto> seg\<lparr>seg_data := None\<rparr>)\<rparr>) }"

definition other_destroy :: "world \<Rightarrow> nat \<Rightarrow> (error option \<times> world) option" where
  "other_destroy w s =
    do { (_, w) \<leftarrow> other_close w s;
         seg \<leftarrow> segments w s;
         Some (None, UnregisterTestSegment w (seg_name seg)) }"

section \<open>The public interface: segment.go\<close>

datatype platform = Linux | Other

definition CreateSegment :: "platform \<Rightarrow> sys \<Rightarrow> world \<Rightarrow> go_string \<Rightarrow> int \<Rightarrow> (error + nat) \<times> world" where
  "CreateSegment p sys w name sz =
    (case p of Linux \<Rightarrow> linux_createSegment sys w name sz | Other \<Rightarrow> other_createSegment w name sz)"

definition OpenSegment :: "platform \<Rightarrow> sys \<Rightarrow> world \<Rightarrow> go_string \<Rightarrow> (error + nat) option \<times> world" where
  "OpenSegment p sys w name =
    (case p of
       Linux \<Rightarrow> (case linux_openSegment sys w name of (r, w) \<Rightarrow> (Some r, w))
     | Other \<Rightarrow> other_openSegment w name)"

definition Segment_Close :: "platform \<Rightarrow> sys \<Rightarrow> world \<Rightarrow> nat \<Rightarrow> (error option \<times> world) option" where
  "Segment_Close p sys w s = (case p of Linux \<Rightarrow> linux_close sys w s | Other \<Rightarrow> other_close w s)"

definition Segment_Destroy :: "platform \<Rightarrow> sys \<Rightarrow> world \<Rightarrow> nat \<Rightarrow> (error option \<times> world) option" where
  "Segment_Destroy p sys w s = (case p of Linux \<Rightarrow> linux_destroy sys w s | Other \<Rightarrow> other_destroy w s)"

definition Segment_Data :: "world \<Rightarrow> nat \<Rightarrow> nat option option" where
  "Segment_Data w s = map_option seg_data (segments w s)"

definition Segment_Cap :: "world \<Rightarrow> nat \<Rightarrow> int option" where
  "Segment_Cap w s = map_option seg_cap (segments w s)"

definition Segment_Name :: "world \<Rightarrow> nat \<Rightarrow> go_string option" where
  "Segment_Name w s = map_option seg_name (segments w s)"

definition Borrow :: "world \<Rightarrow> nat \<Rightarrow> world option" where
  "Borrow w s =
    do { seg \<leftarrow> segments w s;
         Some (w\<lparr>segments := (segments w)(s \<mapsto> seg\<lparr>seg_backedByFile := False\<rparr>)\<rparr>) }"

definition NewInMemorySegment :: "world \<Rightarrow> go_string \<Rightarrow> int \<Rightarrow> (nat \<times> world) option" where
  "NewInMemorySegment w name sz =
    (if sz < 0 then None
     else let obj = next_id w; data = obj + 1; seg = obj + 2
          in Some (seg,
               w\<lparr>objects := (objects w)(obj \<mapsto> replicate (nat sz) 0), views := (views w)(data \<mapsto> obj),
                 segments := (segments w)(seg \<mapsto> \<lparr>seg_name = name, seg_data = Some data, seg_cap = sz,
                   seg_mapped = False, seg_backedByFile = False\<rparr>),
                 next_id := seg + 1\<rparr>))"

end
