(* ===== verification/Protocol.thy ===== *)
theory Protocol
  imports Types Errors
begin

text \<open>
  \<open>pkg/featcache/protocol.go\<close>: the binary messages of the control plane. An \<open>io.Writer\<close> is a function
  that takes its state and the bytes of one \<open>Write\<close>; an \<open>io.Reader\<close> is the bytes it has left. The
  round trips are proved without conditions: they say what the truncations and the padding do to every
  message.
\<close>

section \<open>Messages\<close>

definition ReqHeaderLen :: nat where [simp]: "ReqHeaderLen = 3"
definition RespHeaderLen :: nat where [simp]: "RespHeaderLen = 1 + 64 + 8 + 4 + 4 + 4 + 8 + 4"
definition MaxMsgLen :: nat where [simp]: "MaxMsgLen = 2 ^ 20"

record request =
  req_Op :: byte
  req_Key :: bytes

record response =
  resp_Status :: byte
  resp_SegmentName :: go_string
  resp_SegmentSize :: u64
  resp_HashOffset :: u32
  resp_HashCap :: u32
  resp_DataOffset :: u32
  resp_GenCounter :: u64
  resp_State :: u32

type_synonym 'w writer = "'w \<Rightarrow> bytes \<Rightarrow> error option \<times> 'w"

definition EncodeRequest :: "'w writer \<Rightarrow> 'w \<Rightarrow> request \<Rightarrow> error option \<times> 'w" where
  "EncodeRequest write w req =
    (let keyLen = (if length (req_Key req) > 65535 then 65535 else length (req_Key req));
         header = wr 1 (be_bytes 2 (of_nat keyLen :: u16)) ((replicate ReqHeaderLen 0)[0 := req_Op req])
     in case write w header of
          (Some e, w) \<Rightarrow> (Some e, w)
        | (None, w) \<Rightarrow> if keyLen > 0 then write w (take keyLen (req_Key req)) else (None, w))"

definition DecodeRequest :: "bytes \<Rightarrow> (error + request) \<times> bytes" where
  "DecodeRequest r =
    (case ReadFull ReqHeaderLen r of
       (Inl e, r) \<Rightarrow> (Inl (ErrRead e), r)
     | (Inr header, r) \<Rightarrow>
         (let keyLen = unat (be_word (rd 1 2 header) :: u16);
              req = \<lparr>req_Op = header ! 0, req_Key = []\<rparr>
          in if keyLen > MaxMsgLen then (Inl (ErrRead ErrUnexpectedEOF), r)
             else if keyLen > 0 then
               (case ReadFull keyLen r of
                  (Inl e, r) \<Rightarrow> (Inl (ErrRead e), r)
                | (Inr key, r) \<Rightarrow> (Inr (req\<lparr>req_Key := key\<rparr>), r))
             else (Inr req, r)))"

definition response_header :: "response \<Rightarrow> bytes" where
  \<comment> \<open>the 97 bytes that \<open>EncodeResponse\<close> fills in, field by field\<close>
  "response_header resp =
    (let header = (replicate RespHeaderLen 0)[0 := resp_Status resp]; off = 1;
         header = wr off (take 64 (resp_SegmentName resp)) header; off = off + 64;
         header = wr off (be_bytes 8 (resp_SegmentSize resp)) header; off = off + 8;
         header = wr off (be_bytes 4 (resp_HashOffset resp)) header; off = off + 4;
         header = wr off (be_bytes 4 (resp_HashCap resp)) header; off = off + 4;
         header = wr off (be_bytes 4 (resp_DataOffset resp)) header; off = off + 4;
         header = wr off (be_bytes 8 (resp_GenCounter resp)) header; off = off + 8
     in wr off (be_bytes 4 (resp_State resp)) header)"

definition EncodeResponse :: "'w writer \<Rightarrow> 'w \<Rightarrow> response \<Rightarrow> error option \<times> 'w" where
  "EncodeResponse write w resp = write w (response_header resp)"

text \<open>\<open>trim_loop (i + 1) s\<close> is the trimming loop from index \<open>i\<close> down.\<close>

fun trim_loop :: "nat \<Rightarrow> go_string \<Rightarrow> go_string" where
  "trim_loop 0 s = s"
| "trim_loop (Suc i) s = (if s ! i \<noteq> 0 then take (i + 1) s else trim_loop i s)"

definition DecodeResponse :: "bytes \<Rightarrow> (error + response) \<times> bytes" where
  "DecodeResponse r =
    (case ReadFull RespHeaderLen r of
       (Inl e, r) \<Rightarrow> (Inl (ErrRead e), r)
     | (Inr header, r) \<Rightarrow>
         (let name = rd 1 64 header
          in (Inr \<lparr>resp_Status = header ! 0,
                   resp_SegmentName = trim_loop (length name) name,
                   resp_SegmentSize = be_word (rd 65 8 header),
                   resp_HashOffset = be_word (rd 73 4 header),
                   resp_HashCap = be_word (rd 77 4 header),
                   resp_DataOffset = be_word (rd 81 4 header),
                   resp_GenCounter = be_word (rd 85 8 header),
                   resp_State = be_word (rd 93 4 header)\<rparr>, r)))"

section \<open>Requests\<close>

definition buffer :: "bytes writer" where
  \<comment> \<open>\<open>bytes.Buffer\<close>\<close>
  "buffer w bs = (None, w @ bs)"

definition request_bytes :: "request \<Rightarrow> bytes" where
  "request_bytes req =
    req_Op req # be_bytes 2 (of_nat (min 65535 (length (req_Key req))) :: u16) @ take 65535 (req_Key req)"

lemma request_header_eq:
  "wr (Suc 0) (be_bytes 2 (k :: u16)) ((replicate ReqHeaderLen 0)[0 := op]) = op # be_bytes 2 k"
proof -
  have "(replicate ReqHeaderLen 0)[0 := op] = [op, 0, 0]" by (simp add: numeral_3_eq_3)
  then show ?thesis by (simp only:) (simp add: wr_def)
qed

lemma EncodeRequest_buffer: "EncodeRequest buffer w req = (None, w @ request_bytes req)"
  by (auto simp: EncodeRequest_def buffer_def request_header_eq request_bytes_def Let_def min_def
      simp del: ReqHeaderLen_def)

lemma DecodeRequest_bytes:
  "DecodeRequest (request_bytes req @ rest) = (Inr (req\<lparr>req_Key := take 65535 (req_Key req)\<rparr>), rest)"
proof -
  define n where "n = min 65535 (length (req_Key req))"
  define key where "key = take 65535 (req_Key req)"
  have n: "length key = n" "unat (of_nat n :: u16) = n"
    by (simp_all add: key_def n_def min.commute unat_of_nat_small)
  have h: "ReadFull ReqHeaderLen (request_bytes req @ rest) = (Inr (req_Op req # be_bytes 2 (of_nat n :: u16)), key @ rest)"
    using ReadFull_append [of 3 "req_Op req # be_bytes 2 (of_nat n :: u16)" "key @ rest"]
    by (simp add: request_bytes_def n_def key_def)
  have k: "rd 1 2 (req_Op req # be_bytes 2 (of_nat n :: u16)) = be_bytes 2 (of_nat n :: u16)" by (simp add: rd_def)
  have "n \<le> MaxMsgLen" by (simp add: n_def)
  then show ?thesis
    unfolding DecodeRequest_def h prod.case sum.case k
    using n by (auto simp: Let_def key_def [symmetric])
qed

text \<open>
  C31. Requests round-trip: whatever a client encodes, and whatever follows it on the connection, the
  server decodes the operation and the key, cut to 65535 bytes when it was longer, and leaves the rest
  of the stream unread.
\<close>

theorem request_roundtrip:
  "\<exists>out. EncodeRequest buffer [] req = (None, out) \<and>
    length out = ReqHeaderLen + min 65535 (length (req_Key req)) \<and>
    DecodeRequest (out @ rest) = (Inr (req\<lparr>req_Key := take 65535 (req_Key req)\<rparr>), rest)"
  by (simp add: EncodeRequest_buffer DecodeRequest_bytes) (simp add: request_bytes_def min.commute)

text \<open>
  A request cut off anywhere is an error and never a shorter request; the error is \<open>io.EOF\<close> only
  when nothing arrived or when the connection ended exactly between header and key.
\<close>

lemma request_truncated:
  assumes "request_bytes req = p @ q" "q \<noteq> []"
  shows "\<exists>e. DecodeRequest p = (Inl (ErrRead e), []) \<and> (e = EOF \<longleftrightarrow> p = [] \<or> length p = ReqHeaderLen)"
proof (cases "length p < 3")
  case True
  then show ?thesis by (auto simp: DecodeRequest_def ReadFull_def)
next
  case False
  define n where "n = min 65535 (length (req_Key req))"
  define head where "head = req_Op req # be_bytes 2 (of_nat n :: u16)"
  have req: "request_bytes req = head @ take 65535 (req_Key req)"
    by (simp add: request_bytes_def head_def n_def)
  have n: "unat (of_nat n :: u16) = n" "length (take 65535 (req_Key req)) = n"
    by (simp_all add: n_def unat_of_nat_small min.commute)
  have "length head = 3" by (simp add: head_def)
  then obtain p' where p: "p = head @ p'" "take 65535 (req_Key req) = p' @ q"
    using prefix_split [of head "take 65535 (req_Key req)" p q] assms(1) req False by auto
  have short: "length p' < n" using p(2) n(2) assms(2) by (metis length_append length_greater_0_conv less_add_same_cancel1)
  have "n \<le> MaxMsgLen" by (simp add: n_def)
  moreover have "rd 1 2 head = be_bytes 2 (of_nat n :: u16)" by (simp add: head_def rd_def)
  moreover have "ReadFull ReqHeaderLen p = (Inr head, p')" unfolding p(1) ReqHeaderLen_def by (rule ReadFull_append) (simp add: head_def)
  ultimately have "DecodeRequest p = (Inl (ErrRead (if p' = [] then EOF else ErrUnexpectedEOF)), [])"
    using short n by (auto simp: DecodeRequest_def Let_def ReadFull_def)
  moreover have "length p = ReqHeaderLen \<longleftrightarrow> p' = []" using p(1) by (simp add: head_def)
  ultimately show ?thesis using False by auto
qed

section \<open>Responses\<close>

definition padded_name :: "go_string \<Rightarrow> bytes" where
  "padded_name name = take 64 name @ replicate (64 - length name) 0"

definition response_bytes :: "response \<Rightarrow> bytes" where
  "response_bytes resp =
    resp_Status resp # padded_name (resp_SegmentName resp) @
    be_bytes 8 (resp_SegmentSize resp) @ be_bytes 4 (resp_HashOffset resp) @ be_bytes 4 (resp_HashCap resp) @
    be_bytes 4 (resp_DataOffset resp) @ be_bytes 8 (resp_GenCounter resp) @ be_bytes 4 (resp_State resp)"

lemma length_padded_name [simp]: "length (padded_name name) = 64"
  by (simp add: padded_name_def min_def)

lemma length_response_bytes [simp]: "length (response_bytes resp) = 97"
  by (simp add: response_bytes_def)

lemma response_header_eq: "response_header resp = response_bytes resp"
proof -
  define H where "H = wr 1 (take 64 (resp_SegmentName resp)) ((replicate 97 0)[0 := resp_Status resp])"
  have "length (take 64 (resp_SegmentName resp)) \<le> 64" by simp
  then have lenH: "length H = 97" unfolding H_def by (subst length_wr) auto
  have adj: "wr q zs (wr 65 ys H) = wr 65 (ys @ zs) H" if "65 + length ys = q" "q + length zs \<le> 97" for q ys zs
    using wr_wr_adjacent [of 65 ys zs H] that lenH by simp
  have "(replicate 97 0)[0 := resp_Status resp] = resp_Status resp # replicate 96 0"
  proof -
    have "(97 :: nat) = Suc 96" by simp
    then show ?thesis by (simp only: replicate_Suc list_update_code(2))
  qed
  then have "take 65 H = resp_Status resp # padded_name (resp_SegmentName resp)"
    by (simp add: H_def wr_def padded_name_def min_def take_Cons' drop_Cons' del: replicate.simps)
  then have tail: "wr 65 ys H = resp_Status resp # padded_name (resp_SegmentName resp) @ ys" if "length ys = 32" for ys
    using that lenH by (simp add: wr_def)
  have "wr (Suc 0) (take 64 (resp_SegmentName resp)) ((replicate 97 0)[0 := resp_Status resp]) = H"
    by (simp add: H_def)
  then show ?thesis
    unfolding response_header_def Let_def RespHeaderLen_def
    by (simp add: adj tail response_bytes_def)
qed

text \<open>The name that comes back: an all-NUL field is not trimmed at all.\<close>

definition decoded_name :: "go_string \<Rightarrow> go_string" where
  "decoded_name name =
    (if \<forall>b\<in>set (take 64 name). b = 0 then replicate 64 0
     else rev (dropWhile (\<lambda>b. b = 0) (rev (take 64 name))))"

lemma trim_loop_eq:
  "i \<le> length s \<Longrightarrow> trim_loop i s =
    (if \<forall>b\<in>set (take i s). b = 0 then s else rev (dropWhile (\<lambda>b. b = 0) (rev (take i s))))"
proof (induction i)
  case (Suc i)
  have t: "take (Suc i) s = take i s @ [s ! i]" using Suc.prems by (simp add: take_Suc_conv_app_nth)
  then have r: "rev (take (Suc i) s) = s ! i # rev (take i s)" by simp
  show ?case using Suc unfolding r by (simp add: t)
qed simp

lemma dropWhile_replicate_append: "P x \<Longrightarrow> dropWhile P (replicate n x @ ys) = dropWhile P ys"
  by (induction n) auto

lemma trim_padded_name: "trim_loop 64 (padded_name name) = decoded_name name"
proof -
  have all: "(\<forall>b\<in>set (padded_name name). b = 0) \<longleftrightarrow> (\<forall>b\<in>set (take 64 name). b = 0)"
    by (auto simp: padded_name_def)
  have "padded_name name = replicate 64 0" if "\<forall>b\<in>set (padded_name name). b = 0"
    using that replicate_length_same [of "padded_name name" 0] by (simp del: replicate.simps)
  moreover have "dropWhile (\<lambda>b. b = 0) (rev (padded_name name)) = dropWhile (\<lambda>b. b = 0) (rev (take 64 name))"
    by (simp add: padded_name_def dropWhile_replicate_append del: replicate.simps)
  ultimately show ?thesis
    using trim_loop_eq [of 64 "padded_name name"] by (auto simp: decoded_name_def all)
qed

lemma DecodeResponse_bytes:
  "DecodeResponse (response_bytes resp @ rest) =
    (Inr (resp\<lparr>resp_SegmentName := decoded_name (resp_SegmentName resp)\<rparr>), rest)"
proof -
  let ?h = "response_bytes resp"
  define tail where "tail = be_bytes 8 (resp_SegmentSize resp) @ be_bytes 4 (resp_HashOffset resp) @
    be_bytes 4 (resp_HashCap resp) @ be_bytes 4 (resp_DataOffset resp) @ be_bytes 8 (resp_GenCounter resp) @
    be_bytes 4 (resp_State resp)"
  have h: "?h = (resp_Status resp # padded_name (resp_SegmentName resp)) @ tail"
    by (simp add: response_bytes_def tail_def)
  have "length (resp_Status resp # padded_name (resp_SegmentName resp)) = 65" by simp
  then have drp: "drop (65 + d) ?h = drop d tail" for d unfolding h drop_append by (simp only:) simp
  have fields: "rd 65 8 ?h = be_bytes 8 (resp_SegmentSize resp)" "rd 73 4 ?h = be_bytes 4 (resp_HashOffset resp)"
      "rd 77 4 ?h = be_bytes 4 (resp_HashCap resp)" "rd 81 4 ?h = be_bytes 4 (resp_DataOffset resp)"
      "rd 85 8 ?h = be_bytes 8 (resp_GenCounter resp)" "rd 93 4 ?h = be_bytes 4 (resp_State resp)"
    using drp [of 0] drp [of 8] drp [of 12] drp [of 16] drp [of 20] drp [of 28]
    by (simp_all add: rd_def tail_def)
  have name: "rd 1 64 ?h = padded_name (resp_SegmentName resp)" "?h ! 0 = resp_Status resp"
    unfolding h by (simp_all add: rd_def)
  have read: "ReadFull RespHeaderLen (?h @ rest) = (Inr ?h, rest)"
    by (rule ReadFull_append) simp
  show ?thesis
    unfolding DecodeResponse_def read prod.case sum.case Let_def fields name length_padded_name trim_padded_name
    by simp
qed

text \<open>
  C30. Responses round-trip: every response is encoded as 97 bytes and decoded with every field equal,
  except that the segment name is cut to 64 bytes and loses the NULs at its end; a name of nothing but
  NULs, the empty one included, comes back as 64 NULs.
\<close>

theorem response_roundtrip:
  "\<exists>out. EncodeResponse buffer [] resp = (None, out) \<and> length out = RespHeaderLen \<and>
    DecodeResponse (out @ rest) =
      (Inr (resp\<lparr>resp_SegmentName :=
        (if list_all (\<lambda>b. b = 0) (take 64 (resp_SegmentName resp)) then replicate 64 0
         else rev (dropWhile (\<lambda>b. b = 0) (rev (take 64 (resp_SegmentName resp)))))\<rparr>), rest)"
  using DecodeResponse_bytes [of resp rest]
  by (simp add: EncodeResponse_def buffer_def response_header_eq decoded_name_def list_all_iff
      del: replicate.simps)

lemma decoded_name_id:
  assumes "name \<noteq> []" "length name \<le> 64" "last name \<noteq> 0"
  shows "decoded_name name = name"
proof -
  obtain xs x where n: "name = xs @ [x]" "x \<noteq> 0" using assms(1,3) by (metis append_butlast_last_id)
  then have "take 64 name = xs @ [x]" using assms(2) by simp
  then show ?thesis using n by (simp add: decoded_name_def)
qed

end
