(* ===== verification/Reader.thy ===== *)
theory Reader
  imports Store Shm Protocol
begin

text \<open>
  \<open>pkg/featcache/reader.go\<close>: the read side. \<open>r_data\<close> is the slice that \<open>initHashTable\<close> hands to the
  hash table, a view that stays what it was when the segment is closed: \<open>Get\<close> on memory that is no
  longer mapped is the fault \<open>None\<close>. A connection is where it stands: never dialed, open, closed. The
  network is an argument: whom a dial reaches, and what the peer answers to the bytes it was sent.
\<close>

datatype conn_status = NoConn | ConnOpen | ConnClosed

record reader =
  r_segment :: "nat option"
  r_hashTable :: "hash_table option"
  r_data :: "nat option"
  r_seed :: u64
  r_conn :: conn_status
  r_closed :: bool

record net =
  net_dial :: "go_string \<Rightarrow> (bytes \<Rightarrow> bytes) option"
  net_write :: "bytes writer"

definition nil_reader :: reader where
  "nil_reader = \<lparr>r_segment = None, r_hashTable = None, r_data = None, r_seed = 0, r_conn = NoConn, r_closed = False\<rparr>"

definition initHashTable :: "u64 \<Rightarrow> world \<Rightarrow> reader \<Rightarrow> reader option" where
  "initHashTable pkgSeed w r =
    do { s \<leftarrow> r_segment r;
         v \<leftarrow> Segment_Data w s;
         data \<leftarrow> view_bytes w v;
         hdr \<leftarrow> headerOf data;
         Some (r\<lparr>r_hashTable := Some (NewHashTable (uint (hdr_HashOffset hdr)) (uint (hdr_DataOffset hdr))
                   (uint (hdr_HashCap hdr))),
                 r_data := v, r_seed := headerHashSeed pkgSeed hdr\<rparr>) }"

definition NewReaderFromSegment :: "u64 \<Rightarrow> world \<Rightarrow> nat \<Rightarrow> reader option" where
  "NewReaderFromSegment pkgSeed w s = initHashTable pkgSeed w (nil_reader\<lparr>r_segment := Some s\<rparr>)"

text \<open>\<open>connect\<close> returns the error, the reader, the local connection and the world.\<close>

definition connect ::
  "u64 \<Rightarrow> platform \<Rightarrow> sys \<Rightarrow> net \<Rightarrow> world \<Rightarrow> reader \<Rightarrow> go_string \<Rightarrow> go_string \<Rightarrow>
    (error option \<times> reader \<times> conn_status \<times> world) option" where
  "connect pkgSeed p sys net w r udsAddr wantName =
    (case net_dial net udsAddr of
       None \<Rightarrow> Some (Some ErrDial, r, NoConn, w)
     | Some peer \<Rightarrow>
       (case EncodeRequest (net_write net) [] \<lparr>req_Op = OpGetInfo, req_Key = []\<rparr> of
          (Some e, _) \<Rightarrow> Some (Some e, r, ConnClosed, w)
        | (None, sent) \<Rightarrow>
          (case DecodeResponse (peer sent) of
             (Inl e, _) \<Rightarrow> Some (Some e, r, ConnClosed, w)
           | (Inr resp, _) \<Rightarrow>
             if resp_Status resp \<noteq> RespOK then
               Some (Some (if resp_Status resp = RespBusy then ErrLoaderBusy (resp_State resp)
                           else ErrLoaderStatus (resp_Status resp)), r, ConnClosed, w)
             else if wantName \<noteq> [] \<and> resp_SegmentName resp \<noteq> [] \<and> wantName \<noteq> resp_SegmentName resp then
               Some (Some (ErrNameMismatch wantName (resp_SegmentName resp)), r, ConnClosed, w)
             else
               (let segName = (if resp_SegmentName resp = [] then wantName else resp_SegmentName resp)
                in if segName = [] then Some (Some ErrEmptyName, r, ConnClosed, w)
                   else
                     (case OpenSegment p sys w segName of
                        (None, w) \<Rightarrow> None
                      | (Some (Inl e), w) \<Rightarrow> Some (Some e, r, ConnClosed, w)
                      | (Some (Inr seg), w) \<Rightarrow>
                          do { r \<leftarrow> initHashTable pkgSeed w (r\<lparr>r_conn := ConnOpen, r_segment := Some seg\<rparr>);
                               Some (None, r, ConnOpen, w) })))))"

definition NewReader ::
  "u64 \<Rightarrow> platform \<Rightarrow> sys \<Rightarrow> net \<Rightarrow> world \<Rightarrow> go_string \<Rightarrow> go_string \<Rightarrow> ((error + reader) \<times> world) option" where
  "NewReader pkgSeed p sys net w segmentName udsAddr =
    (if udsAddr \<noteq> [] then
       do { (err, r, _, w) \<leftarrow> connect pkgSeed p sys net w nil_reader udsAddr segmentName;
            Some (case err of Some e \<Rightarrow> (Inl e, w) | None \<Rightarrow> (Inr r, w)) }
     else
       (case OpenSegment p sys w segmentName of
          (None, w) \<Rightarrow> None
        | (Some (Inl e), w) \<Rightarrow> Some (Inl e, w)
        | (Some (Inr seg), w) \<Rightarrow>
            do { r \<leftarrow> initHashTable pkgSeed w (nil_reader\<lparr>r_segment := Some seg\<rparr>); Some (Inr r, w) }))"

definition NewReaderViaUDS ::
  "u64 \<Rightarrow> platform \<Rightarrow> sys \<Rightarrow> net \<Rightarrow> world \<Rightarrow> go_string \<Rightarrow> ((error + reader) \<times> world) option" where
  "NewReaderViaUDS pkgSeed p sys net w udsAddr = NewReader pkgSeed p sys net w [] udsAddr"

definition Reader_Get :: "world \<Rightarrow> reader \<Rightarrow> bytes \<Rightarrow> (bytes option \<times> bool) option" where
  \<comment> \<open>a table of no slots is left without touching its memory\<close>
  "Reader_Get w r key =
    do { ht \<leftarrow> r_hashTable r;
         case view_bytes w (r_data r) of
           None \<Rightarrow> if capacity ht \<le> 0 then Some (None, False) else None
         | Some data \<Rightarrow> HashTable_Get ht data (HashKeyWithSeed key (r_seed r)) key }"

text \<open>The loop of \<open>GetBatch\<close> over the \<open>Get\<close> of its reader.\<close>

fun batch_loop :: "(bytes \<Rightarrow> (bytes option \<times> bool) option) \<Rightarrow> bytes list \<Rightarrow> (bytes option list \<times> bool list) option" where
  "batch_loop get [] = Some ([], [])"
| "batch_loop get (key # keys) =
    do { (v, ok) \<leftarrow> get key; (vs, oks) \<leftarrow> batch_loop get keys; Some (v # vs, ok # oks) }"

definition Reader_GetBatch :: "world \<Rightarrow> reader \<Rightarrow> bytes list \<Rightarrow> (bytes option list \<times> bool list) option" where
  "Reader_GetBatch w r keys = batch_loop (Reader_Get w r) keys"

definition Reader_GenCounter :: "world \<Rightarrow> reader \<Rightarrow> u64 option" where
  "Reader_GenCounter w r =
    do { s \<leftarrow> r_segment r; v \<leftarrow> Segment_Data w s; data \<leftarrow> view_bytes w v; hdr \<leftarrow> headerOf data;
         Some (hdr_GenCounter hdr) }"

definition Reader_Close :: "platform \<Rightarrow> sys \<Rightarrow> world \<Rightarrow> reader \<Rightarrow> (error option \<times> reader \<times> world) option" where
  "Reader_Close p sys w r =
    (if r_closed r then Some (None, r, w)
     else
       let r = r\<lparr>r_closed := True, r_conn := (if r_conn r = NoConn then NoConn else ConnClosed)\<rparr>
       in do { s \<leftarrow> r_segment r; (e, w) \<leftarrow> Segment_Close p sys w s; Some (e, r, w) })"

definition Reader_Segment :: "reader \<Rightarrow> nat option" where
  "Reader_Segment r = r_segment r"

section \<open>Lookups\<close>

text \<open>What \<open>GetBatch\<close> relies on: a \<open>Get\<close> that reads a fixed content.\<close>

locale lookup_service =
  fixes usable :: "'r \<Rightarrow> bool" and get :: "'r \<Rightarrow> bytes \<Rightarrow> (bytes option \<times> bool) option"
    and content :: "'r \<Rightarrow> bytes \<rightharpoonup> bytes"
  assumes get_content: "usable r \<Longrightarrow> get r key = Some (content r key, content r key \<noteq> None)"
begin

lemma batch_content:
  "usable r \<Longrightarrow> batch_loop (get r) keys = Some (map (content r) keys, map (\<lambda>k. content r k \<noteq> None) keys)"
  by (induction keys) (simp_all add: get_content)

end

definition reader_table :: "reader \<Rightarrow> hash_table" where
  "reader_table r = the (r_hashTable r)"

definition reader_bytes :: "world \<Rightarrow> reader \<Rightarrow> bytes" where
  "reader_bytes w r = the (view_bytes w (r_data r))"

definition reader_usable :: "world \<times> reader \<Rightarrow> bool" where
  "reader_usable st \<longleftrightarrow>
    (case st of (w, r) \<Rightarrow> r_hashTable r \<noteq> None \<and> view_bytes w (r_data r) \<noteq> None \<and>
      (\<exists>e. store_inv (reader_table r) e (reader_bytes w r)) \<and> r_seed r = stored_seed (reader_bytes w r))"

definition reader_content :: "world \<times> reader \<Rightarrow> bytes \<rightharpoonup> bytes" where
  "reader_content st = (case st of (w, r) \<Rightarrow> stored (reader_table r) (reader_bytes w r))"

definition reader_get :: "world \<times> reader \<Rightarrow> bytes \<Rightarrow> (bytes option \<times> bool) option" where
  "reader_get st = (case st of (w, r) \<Rightarrow> Reader_Get w r)"

interpretation rd: lookup_service reader_usable reader_get reader_content
proof
  fix st :: "world \<times> reader" and key
  assume u: "reader_usable st"
  obtain w r where st: "st = (w, r)" by (cases st)
  obtain ht data e where h: "r_hashTable r = Some ht" "view_bytes w (r_data r) = Some data"
      "store_inv ht e data" "r_seed r = stored_seed data"
    using u unfolding st reader_usable_def reader_table_def reader_bytes_def by auto
  show "reader_get st key = Some (reader_content st key, reader_content st key \<noteq> None)"
    using Get_stored [OF h(3), of key] h
    by (simp add: st reader_get_def reader_content_def reader_table_def reader_bytes_def Reader_Get_def)
qed

end
