(* ===== verification/Server.thy ===== *)
theory Server
  imports Shm Protocol Header
begin

text \<open>
  \<open>pkg/featcache/server.go\<close>: the control-plane server. The state \<open>sv_state\<close> is the \<open>int32\<close> the loader
  sets; a connection is the bytes it delivers, the bytes written to it, and whether it is closed. What
  other threads do between two steps of the accept loop (\<open>Close\<close> setting the flag) is part of the
  loop's input.
\<close>

definition StateIdle :: u32 where [simp]: "StateIdle = 0"
definition StateLoading :: u32 where [simp]: "StateLoading = 1"
definition StateReady :: u32 where [simp]: "StateReady = 2"
definition StateUpdating :: u32 where [simp]: "StateUpdating = 3"

record server =
  sv_segmentName :: go_string
  sv_segmentSize :: int
  sv_udsAddr :: go_string
  sv_seg :: nat
  sv_ln :: "bool option"   \<comment> \<open>the listener: nil, or whether it is open\<close>
  sv_closed :: bool
  sv_state :: u32

record conn =
  conn_in :: bytes
  conn_out :: bytes
  conn_write_ok :: bool
  conn_closed :: bool

definition conn_write :: "conn writer" where
  "conn_write c bs = (if conn_write_ok c then (None, c\<lparr>conn_out := conn_out c @ bs\<rparr>) else (Some ErrWrite, c))"

definition new_server :: "go_string \<Rightarrow> int \<Rightarrow> go_string \<Rightarrow> nat \<Rightarrow> server" where
  "new_server name sz udsAddr seg =
    \<lparr>sv_segmentName = name, sv_segmentSize = sz, sv_udsAddr = udsAddr, sv_seg = seg, sv_ln = None,
     sv_closed = False, sv_state = StateIdle\<rparr>"

definition NewCacheServer ::
  "platform \<Rightarrow> sys \<Rightarrow> world \<Rightarrow> go_string \<Rightarrow> int \<Rightarrow> go_string \<Rightarrow> ((error + server) \<times> world) option" where
  "NewCacheServer p sys w segmentName segmentSize udsAddr =
    (case CreateSegment p sys w segmentName segmentSize of
       (Inr seg, w) \<Rightarrow> Some (Inr (new_server segmentName segmentSize udsAddr seg), w)
     | (Inl _, w) \<Rightarrow>
         (case OpenSegment p sys w segmentName of
            (None, w) \<Rightarrow> None
          | (Some (Inl e), w) \<Rightarrow> Some (Inl e, w)
          | (Some (Inr seg), w) \<Rightarrow> Some (Inr (new_server segmentName segmentSize udsAddr seg), w)))"

definition NewServer :: "world \<Rightarrow> nat \<Rightarrow> go_string \<Rightarrow> (server \<times> world) option" where
  "NewServer w seg udsAddr =
    do { w \<leftarrow> Borrow w seg;
         name \<leftarrow> Segment_Name w seg;
         c \<leftarrow> Segment_Cap w seg;
         Some (new_server name c udsAddr seg, w) }"

definition SetState :: "server \<Rightarrow> u32 \<Rightarrow> server" where
  "SetState s state = s\<lparr>sv_state := state\<rparr>"

definition Server_State :: "server \<Rightarrow> u32" where
  "Server_State s = sv_state s"

definition Server_Segment :: "server \<Rightarrow> nat" where
  "Server_Segment s = sv_seg s"

section \<open>Requests\<close>

definition statusForState :: "server \<Rightarrow> byte" where
  "statusForState s =
    (if Server_State s = StateLoading \<or> Server_State s = StateUpdating then RespBusy else RespOK)"

definition segmentResponse :: "world \<Rightarrow> server \<Rightarrow> response option" where
  "segmentResponse w s =
    do { v \<leftarrow> Segment_Data w (sv_seg s);
         data \<leftarrow> view_bytes w v;
         hdr \<leftarrow> headerOf data;
         Some \<lparr>resp_Status = 0, resp_SegmentName = sv_segmentName s, resp_SegmentSize = hdr_Size hdr,
               resp_HashOffset = hdr_HashOffset hdr, resp_HashCap = hdr_HashCap hdr,
               resp_DataOffset = hdr_DataOffset hdr, resp_GenCounter = hdr_GenCounter hdr,
               resp_State = Server_State s\<rparr> }"

definition handleGetInfo :: "world \<Rightarrow> server \<Rightarrow> response option" where
  "handleGetInfo w s =
    do { resp \<leftarrow> segmentResponse w s; Some (resp\<lparr>resp_Status := statusForState s\<rparr>) }"

definition handleGetStatus :: "world \<Rightarrow> server \<Rightarrow> response option" where
  "handleGetStatus w s = handleGetInfo w s"

definition error_response :: response where
  "error_response = \<lparr>resp_Status = RespError, resp_SegmentName = [], resp_SegmentSize = 0, resp_HashOffset = 0,
     resp_HashCap = 0, resp_DataOffset = 0, resp_GenCounter = 0, resp_State = 0\<rparr>"

definition handleConn :: "world \<Rightarrow> server \<Rightarrow> conn \<Rightarrow> conn option" where
  "handleConn w s c =
    (case DecodeRequest (conn_in c) of
       (Inl e, rest) \<Rightarrow> Some (c\<lparr>conn_in := rest, conn_closed := True\<rparr>)
     | (Inr req, rest) \<Rightarrow>
         do { resp \<leftarrow> (if req_Op req = OpGetInfo then handleGetInfo w s
                        else if req_Op req = OpGetStatus then handleGetStatus w s
                        else Some error_response);
              let c = snd (EncodeResponse conn_write (c\<lparr>conn_in := rest\<rparr>) resp);
              Some (c\<lparr>conn_closed := True\<rparr>) })"

section \<open>The listener\<close>

definition uds_is_path :: "go_string \<Rightarrow> bool" where
  "uds_is_path addr \<longleftrightarrow> addr \<noteq> [] \<and> addr ! 0 = 47"

datatype accept = Accepted conn | AcceptError

text \<open>
  One round of the loop: the flag at the loop test, what \<open>AcceptUnix\<close> returns, and the flag when an
  error is looked at. The result lists the connections handed to \<open>handleConn\<close> and tells whether the
  loop has ended.
\<close>

fun accept_loop :: "(bool \<times> accept \<times> bool) list \<Rightarrow> conn list \<times> bool" where
  "accept_loop [] = ([], False)"
| "accept_loop ((closed, a, closed') # rounds) =
    (if closed then ([], True)
     else case a of
         Accepted c \<Rightarrow> (case accept_loop rounds of (cs, ended) \<Rightarrow> (c # cs, ended))
       | AcceptError \<Rightarrow> if closed' then ([], True) else accept_loop rounds)"

definition Listen ::
  "(go_string \<Rightarrow> bool) \<Rightarrow> sys \<Rightarrow> world \<Rightarrow> server \<Rightarrow> (bool \<times> accept \<times> bool) list \<Rightarrow>
    error option \<times> server \<times> world \<times> conn list \<times> bool" where
  \<comment> \<open>\<open>listen_ok\<close>: whether \<open>net.ListenUnix\<close> succeeds on an address. The server it returns has the fields as \<open>Listen\<close>
      itself leaves them; what a \<open>Close\<close> of another thread does to them meanwhile is \<open>server_shutdown\<close>\<close>
  "Listen listen_ok sys w s rounds =
    (let w = (if uds_is_path (sv_udsAddr s) then snd (os_Remove sys w (sv_udsAddr s)) else w)
     in if \<not> listen_ok (sv_udsAddr s) then (Some ErrDial, s, w, [], True)
        else (case accept_loop rounds of (cs, ended) \<Rightarrow> (None, s\<lparr>sv_ln := Some True\<rparr>, w, cs, ended)))"

definition server_shutdown :: "sys \<Rightarrow> world \<Rightarrow> server \<Rightarrow> server \<times> world" where
  \<comment> \<open>the part that \<open>Close\<close> and \<open>Destroy\<close> share\<close>
  "server_shutdown sys w s =
    (s\<lparr>sv_closed := True, sv_ln := map_option (\<lambda>_. False) (sv_ln s)\<rparr>,
     if uds_is_path (sv_udsAddr s) then snd (os_Remove sys w (sv_udsAddr s)) else w)"

definition Server_Close :: "platform \<Rightarrow> sys \<Rightarrow> world \<Rightarrow> server \<Rightarrow> (error option \<times> server \<times> world) option" where
  "Server_Close p sys w s =
    (case server_shutdown sys w s of (s, w) \<Rightarrow>
       do { (e, w) \<leftarrow> Segment_Close p sys w (sv_seg s); Some (e, s, w) })"

definition Server_Destroy :: "platform \<Rightarrow> sys \<Rightarrow> world \<Rightarrow> server \<Rightarrow> (error option \<times> server \<times> world) option" where
  "Server_Destroy p sys w s =
    (case server_shutdown sys w s of (s, w) \<Rightarrow>
       do { (e, w) \<leftarrow> Segment_Destroy p sys w (sv_seg s); Some (e, s, w) })"

end
