(* ===== verification/Data_Source.thy ===== *)
theory Data_Source
  imports Errors
begin

text \<open>
  \<open>pkg/featcache/datasource.go\<close>: the interface \<open>DataSource\<close> and its three implementations. A source
  is its state; \<open>Next\<close> returns the next pair or an error together with the new state, or \<open>None\<close> for
  a panic. A nil value slice is the empty byte string: the loader only takes its length and copies it.

  Files are the argument \<open>fs\<close>: what the standard library finds under a path, and whether \<open>Stat\<close> of
  the opened file fails. Reading from a source after its \<open>Close\<close> is not modelled.

  The interface is stated by two locales: \<open>finite_source\<close> (every delivered pair makes progress, so
  draining the source ends) and \<open>data_source\<close> (the source delivers exactly a list of pairs and then
  \<open>ErrEOF\<close>). All three implementations are interpreted in both.
\<close>

record file_system =
  fs_file :: "go_string \<Rightarrow> bytes option"
  fs_stat_ok :: "go_string \<Rightarrow> bool"

type_synonym next_result = "error + bytes \<times> bytes"

record 's source =
  ds_Open :: "'s \<Rightarrow> (error + int) \<times> 's"
  ds_Next :: "'s \<Rightarrow> (next_result \<times> 's) option"
  ds_Close :: "'s \<Rightarrow> error option \<times> 's"

section \<open>MapDataSource\<close>

text \<open>
  A Go map is an association list with distinct keys; the order of the list is the order in which
  \<open>range\<close> visits the map, which Go leaves open.
\<close>

record map_source =
  map_entries :: "(bytes \<times> bytes) list"
  map_keys :: "bytes list"
  map_idx :: int

definition NewMapDataSource :: "(bytes \<times> bytes) list \<Rightarrow> map_source" where
  "NewMapDataSource es = \<lparr>map_entries = es, map_keys = map fst es, map_idx = 0\<rparr>"

definition Map_Open :: "map_source \<Rightarrow> (error + int) \<times> map_source" where
  "Map_Open ds = (Inr (int (length (map_entries ds))), ds)"

definition Map_Next :: "map_source \<Rightarrow> (next_result \<times> map_source) option" where
  "Map_Next ds =
    (if map_idx ds \<ge> int (length (map_keys ds)) then Some (Inl ErrEOF, ds)
     else do { k \<leftarrow> index (map_keys ds) (map_idx ds);
               let v = (case map_of (map_entries ds) k of None \<Rightarrow> [] | Some v \<Rightarrow> v);
               Some (Inr (k, v), ds\<lparr>map_idx := map_idx ds + 1\<rparr>) })"

definition Map_Close :: "map_source \<Rightarrow> error option \<times> map_source" where
  "Map_Close ds = (None, ds)"

definition map_data_source :: "map_source source" where
  "map_data_source = \<lparr>ds_Open = Map_Open, ds_Next = Map_Next, ds_Close = Map_Close\<rparr>"

section \<open>FileDataSource\<close>

text \<open>
  \<open>file_f\<close> is nil before \<open>Open\<close>, then tells whether the file is still open; \<open>file_br\<close> is the bytes
  the buffered reader has left, nil before \<open>Open\<close>.
\<close>

record file_source =
  file_path :: go_string
  file_f :: "bool option"
  file_br :: "bytes option"

definition NewFileDataSource :: "go_string \<Rightarrow> file_source" where
  "NewFileDataSource path = \<lparr>file_path = path, file_f = None, file_br = None\<rparr>"

definition File_Open :: "file_system \<Rightarrow> file_source \<Rightarrow> (error + int) \<times> file_source" where
  "File_Open fs ds =
    (case fs_file fs (file_path ds) of
       None \<Rightarrow> (Inl ErrNotExist, ds)
     | Some content \<Rightarrow>
         (let ds = ds\<lparr>file_f := Some True, file_br := Some content\<rparr>
          in if \<not> fs_stat_ok fs (file_path ds) then (Inl ErrSyscall, ds\<lparr>file_f := Some False\<rparr>)
             else (Inr (int (length content) div 8), ds)))"

definition read_u32 :: "bytes \<Rightarrow> (io_error + u32) \<times> bytes" where
  \<comment> \<open>\<open>binary.Read(r, binary.LittleEndian, &x)\<close> for a \<open>uint32\<close>\<close>
  "read_u32 r = (case ReadFull 4 r of (Inl e, r) \<Rightarrow> (Inl e, r) | (Inr bs, r) \<Rightarrow> (Inr (le_word bs), r))"

definition File_read :: "bytes \<Rightarrow> next_result \<times> bytes" where
  \<comment> \<open>the body of \<open>Next\<close> over the reader's bytes\<close>
  "File_read r =
    (case read_u32 r of
       (Inl e, r) \<Rightarrow> (Inl (if e = EOF then ErrEOF else ErrRead e), r)
     | (Inr keyLen, r) \<Rightarrow>
         (case ReadFull (unat keyLen) r of
            (Inl e, r) \<Rightarrow> (Inl (ErrRead e), r)
          | (Inr key, r) \<Rightarrow>
              (case read_u32 r of
                 (Inl e, r) \<Rightarrow> (Inl (ErrRead e), r)
               | (Inr valLen, r) \<Rightarrow>
                   (case ReadFull (unat valLen) r of
                      (Inl e, r) \<Rightarrow> (Inl (ErrRead e), r)
                    | (Inr val, r) \<Rightarrow> (Inr (key, val), r)))))"

definition File_Next :: "file_source \<Rightarrow> (next_result \<times> file_source) option" where
  "File_Next ds =
    do { br \<leftarrow> file_br ds;
         let (res, br) = File_read br;
         Some (res, ds\<lparr>file_br := Some br\<rparr>) }"

definition close_file :: "bool option \<Rightarrow> error option \<times> bool option" where
  "close_file f =
    (case f of None \<Rightarrow> (None, None)
     | Some True \<Rightarrow> (None, Some False)
     | Some False \<Rightarrow> (Some ErrClosed, Some False))"

definition File_Close :: "file_source \<Rightarrow> error option \<times> file_source" where
  "File_Close ds = (let (e, f) = close_file (file_f ds) in (e, ds\<lparr>file_f := f\<rparr>))"

definition file_data_source :: "file_system \<Rightarrow> file_source source" where
  "file_data_source fs = \<lparr>ds_Open = File_Open fs, ds_Next = File_Next, ds_Close = File_Close\<rparr>"

section \<open>LineDataSource\<close>

text \<open>
  \<open>bufio.Scanner\<close> with its default split function and limits: a line ends at a newline or at the end
  of the file, one trailing carriage return is dropped, and a line that does not end within the first
  \<open>65536\<close> bytes stops the scan with \<open>ErrTooLong\<close>. After that error one more \<open>Scan\<close> would deliver the
  full buffer.
\<close>

definition MaxScanTokenSize :: nat where "MaxScanTokenSize = 64 * 1024"

record scanner =
  sc_rest :: bytes
  sc_err :: bool

definition dropCR :: "bytes \<Rightarrow> bytes" where
  "dropCR line = (if line \<noteq> [] \<and> last line = 13 then butlast line else line)"

definition Scan :: "scanner \<Rightarrow> bytes option \<times> scanner" where
  "Scan sc =
    (if sc_rest sc = [] then (None, sc)
     else if sc_err sc then (Some (dropCR (sc_rest sc)), sc\<lparr>sc_rest := []\<rparr>)
     else let line = takeWhile (\<lambda>b. b \<noteq> 10) (sc_rest sc)
          in if length line \<ge> MaxScanTokenSize
             then (None, \<lparr>sc_rest = take MaxScanTokenSize (sc_rest sc), sc_err = True\<rparr>)
             else (Some (dropCR line), sc\<lparr>sc_rest := drop (length line + 1) (sc_rest sc)\<rparr>))"

record line_source =
  line_path :: go_string
  line_f :: "bool option"
  line_sc :: "scanner option"
  line_n :: int

definition NewLineDataSource :: "go_string \<Rightarrow> line_source" where
  "NewLineDataSource path = \<lparr>line_path = path, line_f = None, line_sc = None, line_n = 0\<rparr>"

definition Line_Open :: "file_system \<Rightarrow> line_source \<Rightarrow> (error + int) \<times> line_source" where
  "Line_Open fs ds =
    (case fs_file fs (line_path ds) of
       None \<Rightarrow> (Inl ErrNotExist, ds)
     | Some content \<Rightarrow>
         (Inr 0, ds\<lparr>line_f := Some True, line_sc := Some \<lparr>sc_rest = content, sc_err = False\<rparr>, line_n := 0\<rparr>))"

fun split_line :: "bytes \<Rightarrow> bytes \<Rightarrow> bytes \<times> bytes" where
  \<comment> \<open>the loop over the line: \<open>pre\<close> is what lies before the position, without a tab\<close>
  "split_line pre [] = (pre, [])"
| "split_line pre (b # bs) = (if b \<noteq> 9 then split_line (pre @ [b]) bs else (pre, bs))"

definition Line_Next :: "line_source \<Rightarrow> (next_result \<times> line_source) option" where
  "Line_Next ds =
    do { sc \<leftarrow> line_sc ds;
         case Scan sc of
           (None, sc) \<Rightarrow>
             (let ds = ds\<lparr>line_sc := Some sc\<rparr>
              in if sc_err sc then Some (Inl ErrTooLong, ds) else Some (Inl ErrEOF, ds))
         | (Some line, sc) \<Rightarrow>
             Some (Inr (split_line [] line), ds\<lparr>line_sc := Some sc, line_n := line_n ds + 1\<rparr>) }"

definition Line_Close :: "line_source \<Rightarrow> error option \<times> line_source" where
  "Line_Close ds = (let (e, f) = close_file (line_f ds) in (e, ds\<lparr>line_f := f\<rparr>))"

definition line_data_source :: "file_system \<Rightarrow> line_source source" where
  "line_data_source fs = \<lparr>ds_Open = Line_Open fs, ds_Next = Line_Next, ds_Close = Line_Close\<rparr>"

section \<open>The interface\<close>

text \<open>\<open>drain n\<close> calls \<open>Next\<close> at most \<open>n\<close> times: the pairs delivered, and the error that ended it.\<close>

fun drain :: "nat \<Rightarrow> ('s \<Rightarrow> (next_result \<times> 's) option) \<Rightarrow> 's \<Rightarrow> ((bytes \<times> bytes) list \<times> error option) option" where
  "drain 0 nxt s = Some ([], None)"
| "drain (Suc n) nxt s =
    do { (r, s) \<leftarrow> nxt s;
         case r of
           Inl e \<Rightarrow> Some ([], Some e)
         | Inr kv \<Rightarrow> do { (kvs, e) \<leftarrow> drain n nxt s; Some (kv # kvs, e) } }"

locale finite_source =
  fixes nxt :: "'s \<Rightarrow> (next_result \<times> 's) option" and pending :: "'s \<Rightarrow> nat"
  assumes progress: "nxt s = Some (Inr kv, s') \<Longrightarrow> pending s' < pending s"
begin

lemma drain_ends: "pending s < n \<Longrightarrow> drain n nxt s = Some (kvs, e) \<Longrightarrow> e \<noteq> None"
proof (induction n arbitrary: s kvs e)
  case (Suc n)
  then obtain r s' where r: "nxt s = Some (r, s')" by (auto simp: bind_eq_Some_conv)
  show ?case
  proof (cases r)
    case (Inl x)
    with r Suc.prems show ?thesis by auto
  next
    case (Inr kv)
    with r Suc.prems obtain kvs' where "drain n nxt s' = Some (kvs', e)"
      by (auto simp: bind_eq_Some_conv)
    moreover have "pending s' < n" using progress [of s kv s'] r Inr Suc.prems(1) by simp
    ultimately show ?thesis using Suc.IH by blast
  qed
qed simp

end

locale data_source = finite_source nxt pending
  for nxt :: "'s \<Rightarrow> (next_result \<times> 's) option" and pending :: "'s \<Rightarrow> nat" +
  fixes delivers :: "'s \<Rightarrow> (bytes \<times> bytes) list \<Rightarrow> bool"
  assumes deliver_end: "delivers s [] \<Longrightarrow> \<exists>s'. nxt s = Some (Inl ErrEOF, s')"
    and deliver_next: "delivers s (kv # es) \<Longrightarrow> \<exists>s'. nxt s = Some (Inr kv, s') \<and> delivers s' es"
begin

lemma delivers_pending: "delivers s es \<Longrightarrow> length es \<le> pending s"
proof (induction es arbitrary: s)
  case (Cons kv es)
  then obtain s' where s': "nxt s = Some (Inr kv, s')" "delivers s' es"
    using deliver_next by blast
  then show ?case using Cons.IH [of s'] progress [of s kv s'] by simp
qed simp

lemma drain_delivers: "delivers s es \<Longrightarrow> length es < n \<Longrightarrow> drain n nxt s = Some (es, Some ErrEOF)"
proof (induction es arbitrary: s n)
  case Nil
  then show ?case using deliver_end [of s] by (cases n) auto
next
  case (Cons kv es)
  obtain m where m: "n = Suc m" "length es < m" using Cons.prems(2) by (cases n) auto
  obtain s' where "nxt s = Some (Inr kv, s')" "delivers s' es" using Cons.prems(1) deliver_next by blast
  then show ?case using Cons.IH [of s' m] m by simp
qed

end

subsection \<open>The in-memory map\<close>

definition map_pending :: "map_source \<Rightarrow> nat" where
  "map_pending ds = nat (int (length (map_keys ds)) - map_idx ds)"

definition map_delivers :: "map_source \<Rightarrow> (bytes \<times> bytes) list \<Rightarrow> bool" where
  "map_delivers ds es \<longleftrightarrow> 0 \<le> map_idx ds \<and>
    es = map (\<lambda>k. (k, case map_of (map_entries ds) k of None \<Rightarrow> [] | Some v \<Rightarrow> v))
      (drop (nat (map_idx ds)) (map_keys ds))"

interpretation map_src: data_source Map_Next map_pending map_delivers
proof
  show "map_pending s' < map_pending s" if "Map_Next s = Some (Inr kv, s')" for s kv s'
    using that by (auto simp: Map_Next_def map_pending_def bind_eq_Some_conv split: if_splits)
next
  show "\<exists>s'. Map_Next s = Some (Inl ErrEOF, s')" if "map_delivers s []" for s
    using that by (auto simp: Map_Next_def map_delivers_def nat_le_iff)
next
  fix s kv es assume d: "map_delivers s (kv # es)"
  define i where "i = nat (map_idx s)"
  have i: "map_idx s = int i" "i < length (map_keys s)"
    using d by (auto simp: map_delivers_def i_def intro: ccontr)
  have "drop i (map_keys s) = map_keys s ! i # drop (Suc i) (map_keys s)"
    using i(2) by (simp add: Cons_nth_drop_Suc)
  then show "\<exists>s'. Map_Next s = Some (Inr kv, s') \<and> map_delivers s' es"
    using d i by (auto simp: Map_Next_def map_delivers_def nat_add_distrib)
qed

lemma map_delivers_New:
  assumes "distinct (map fst es)"
  shows "map_delivers (NewMapDataSource es) es"
proof -
  have "(case map_of es k of None \<Rightarrow> [] | Some v \<Rightarrow> v) = v" if "(k, v) \<in> set es" for k v
    using map_of_is_SomeI [OF assms that] by simp
  then have "es = map (\<lambda>k. (k, case map_of es k of None \<Rightarrow> [] | Some v \<Rightarrow> v)) (map fst es)"
    by (auto simp: comp_def intro!: map_idI [symmetric])
  then show ?thesis by (simp add: map_delivers_def NewMapDataSource_def)
qed

text \<open>
  A map source delivers every entry of its map exactly once, with its value, and then \<open>ErrEOF\<close>,
  whatever the iteration order was; \<open>Open\<close> returns the number of entries.
\<close>

lemma map_source_delivers:
  assumes "distinct (map fst es)"
  shows "drain (length es + 1) Map_Next (NewMapDataSource es) = Some (es, Some ErrEOF) \<and>
    fst (Map_Open (NewMapDataSource es)) = Inr (int (length es))"
  using map_src.drain_delivers [OF map_delivers_New [OF assms], of "length es + 1"]
  by (simp add: Map_Open_def NewMapDataSource_def del: drain.simps)

subsection \<open>The binary file\<close>

text \<open>The file format: both lengths little-endian, each before its bytes.\<close>

definition entry_bytes :: "bytes \<times> bytes \<Rightarrow> bytes" where
  "entry_bytes kv =
    le_bytes 4 (of_nat (length (fst kv)) :: u32) @ fst kv @
    le_bytes 4 (of_nat (length (snd kv)) :: u32) @ snd kv"

definition file_entry_ok :: "bytes \<times> bytes \<Rightarrow> bool" where
  "file_entry_ok kv \<longleftrightarrow> length (fst kv) < 2 ^ 32 \<and> length (snd kv) < 2 ^ 32"

lemma read_u32_append [simp]: "read_u32 (le_bytes 4 w @ r) = (Inr w, r)"
  by (simp add: read_u32_def)

lemma read_u32_shorter: "read_u32 r = (Inr w, r') \<Longrightarrow> length r' + 4 = length r"
  by (auto simp: read_u32_def ReadFull_Inr split: prod.splits sum.splits)

lemma File_read_entry:
  assumes "file_entry_ok kv"
  shows "File_read (entry_bytes kv @ r) = (Inr kv, r)"
  using assms
  by (simp add: File_read_def entry_bytes_def file_entry_ok_def unat_of_nat_small)

lemma File_read_shorter: "File_read r = (Inr kv, r') \<Longrightarrow> length r' + 8 \<le> length r"
  by (auto simp: File_read_def ReadFull_Inr dest!: read_u32_shorter
      split: prod.splits sum.splits if_splits)

definition file_pending :: "file_source \<Rightarrow> nat" where
  "file_pending ds = (case file_br ds of None \<Rightarrow> 0 | Some r \<Rightarrow> length r)"

definition file_delivers :: "file_source \<Rightarrow> (bytes \<times> bytes) list \<Rightarrow> bool" where
  "file_delivers ds es \<longleftrightarrow>
    file_br ds = Some (concat (map entry_bytes es)) \<and> (\<forall>kv\<in>set es. file_entry_ok kv)"

interpretation file_src: data_source File_Next file_pending file_delivers
proof
  show "file_pending s' < file_pending s" if "File_Next s = Some (Inr kv, s')" for s kv s'
    using that File_read_shorter by (cases "file_br s"; cases "File_read (the (file_br s))")
      (fastforce simp: File_Next_def file_pending_def)+
next
  show "\<exists>s'. File_Next s = Some (Inl ErrEOF, s')" if "file_delivers s []" for s
    using that by (simp add: File_Next_def file_delivers_def File_read_def read_u32_def ReadFull_def)
next
  show "\<exists>s'. File_Next s = Some (Inr kv, s') \<and> file_delivers s' es" if "file_delivers s (kv # es)" for s kv es
    using that by (auto simp: File_Next_def file_delivers_def File_read_entry)
qed

text \<open>
  C36. The binary format round-trips: a file that holds the encodings of a list of entries is read
  back as exactly this list, then \<open>ErrEOF\<close>.
\<close>

theorem file_source_roundtrip:
  assumes "fs_file fs path = Some (concat (map entry_bytes es))" "fs_stat_ok fs path"
    and "\<forall>kv\<in>set es. file_entry_ok kv"
  shows "\<exists>n ds. File_Open fs (NewFileDataSource path) = (Inr n, ds) \<and>
    drain (length es + 1) File_Next ds = Some (es, Some ErrEOF)"
proof -
  obtain n ds where o: "File_Open fs (NewFileDataSource path) = (Inr n, ds)"
      "file_br ds = Some (concat (map entry_bytes es))"
    using assms by (auto simp: File_Open_def NewFileDataSource_def Let_def)
  then have "file_delivers ds es" using assms(3) by (simp add: file_delivers_def)
  then have "drain (length es + 1) File_Next ds = Some (es, Some ErrEOF)"
    by (rule file_src.drain_delivers) simp
  with o show ?thesis by blast
qed

theorem file_source_roundtrip_witness:
  "\<exists>n ds. File_Open \<lparr>fs_file = (\<lambda>_. Some (entry_bytes ([1], [2, 3]))), fs_stat_ok = (\<lambda>_. True)\<rparr>
      (NewFileDataSource [102]) = (Inr n, ds) \<and> drain (Suc 1) File_Next ds = Some ([([1], [2, 3])], Some ErrEOF)"
  using file_source_roundtrip [of "\<lparr>fs_file = (\<lambda>_. Some (entry_bytes ([1], [2, 3]))), fs_stat_ok = (\<lambda>_. True)\<rparr>"
      "[102]" "[([1], [2, 3])]"]
  by (simp add: file_entry_ok_def del: drain.simps)

text \<open>
  A truncated file is an error, never a silent end: if the bytes left are a proper prefix of an
  entry's encoding, \<open>Next\<close> returns \<open>ErrEOF\<close> only when the prefix is empty, and a read error otherwise.
\<close>

lemma file_source_truncated:
  assumes "file_entry_ok kv" "entry_bytes kv = r @ rest" "rest \<noteq> []" "file_br ds = Some r"
  shows "\<exists>e ds'. File_Next ds = Some (Inl e, ds') \<and> (e = ErrEOF \<longleftrightarrow> r = [])"
proof -
  obtain k v where kv: "kv = (k, v)" by (cases kv)
  define lk lv where "lk = (of_nat (length k) :: u32)" and "lv = (of_nat (length v) :: u32)"
  have n: "unat lk = length k" "unat lv = length v"
    using assms(1) by (auto simp: lk_def lv_def kv file_entry_ok_def unat_of_nat_small)
  have eq: "le_bytes 4 lk @ k @ le_bytes 4 lv @ v = r @ rest"
    using assms(2) by (simp add: entry_bytes_def kv lk_def lv_def)
  have short: "\<exists>e. fst (File_read r) = Inl e \<and> (e = ErrEOF \<longleftrightarrow> r = [])"
  proof (cases "length r < 4")
    case True
    then show ?thesis by (auto simp: File_read_def read_u32_def ReadFull_def)
  next
    case False
    then obtain r1 where r1: "r = le_bytes 4 lk @ r1" "k @ le_bytes 4 lv @ v = r1 @ rest"
      using prefix_split [OF eq] by auto
    have e1: "\<exists>e. fst (File_read r) = Inl (ErrRead e)"
    proof (cases "length r1 < length k")
      case True
      then show ?thesis by (auto simp: File_read_def r1(1) n ReadFull_def)
    next
      case False
      then obtain r2 where r2: "r1 = k @ r2" "le_bytes 4 lv @ v = r2 @ rest"
        using prefix_split [OF r1(2)] by auto
      show ?thesis
      proof (cases "length r2 < 4")
        case True
        then show ?thesis by (auto simp: File_read_def r1(1) r2(1) n read_u32_def ReadFull_def)
      next
        case False
        then obtain r3 where r3: "r2 = le_bytes 4 lv @ r3" "v = r3 @ rest"
          using prefix_split [OF r2(2)] by auto
        then have "length r3 < length v" using assms(3) by simp
        then show ?thesis by (auto simp: File_read_def r1(1) r2(1) r3(1) n ReadFull_def)
      qed
    qed
    moreover have "r \<noteq> []" using False by auto
    ultimately show ?thesis by auto
  qed
  then show ?thesis using assms(4) by (auto simp: File_Next_def split: prod.splits)
qed

subsection \<open>The text file\<close>

definition line_bytes :: "bytes \<times> bytes \<Rightarrow> bytes" where
  "line_bytes kv = fst kv @ [9] @ snd kv @ [10]"

definition line_entry_ok :: "bytes \<times> bytes \<Rightarrow> bool" where
  \<comment> \<open>what a tab-separated line can carry: no tab in the key, no newline, no carriage return at the
      end of the value, and a line shorter than the scanner's buffer\<close>
  "line_entry_ok kv \<longleftrightarrow>
    9 \<notin> set (fst kv) \<and> 10 \<notin> set (fst kv) \<and> 10 \<notin> set (snd kv) \<and>
    (snd kv \<noteq> [] \<longrightarrow> last (snd kv) \<noteq> 13) \<and>
    length (fst kv) + 1 + length (snd kv) < MaxScanTokenSize"

lemma split_line_no_tab: "9 \<notin> set line \<Longrightarrow> split_line pre line = (pre @ line, [])"
  by (induction pre line rule: split_line.induct) auto

lemma split_line_tab: "9 \<notin> set k \<Longrightarrow> split_line pre (k @ 9 # v) = (pre @ k, v)"
  by (induction k arbitrary: pre) auto

lemma Scan_line:
  assumes "line_entry_ok kv"
  shows "Scan \<lparr>sc_rest = line_bytes kv @ r, sc_err = False\<rparr> =
    (Some (fst kv @ 9 # snd kv), \<lparr>sc_rest = r, sc_err = False\<rparr>)"
proof -
  let ?line = "fst kv @ 9 # snd kv"
  have tw: "takeWhile (\<lambda>b. b \<noteq> 10) (line_bytes kv @ r) = ?line"
    using assms by (auto simp: line_bytes_def line_entry_ok_def takeWhile_append takeWhile_eq_all_conv)
  have "dropCR ?line = ?line" using assms by (auto simp: dropCR_def line_entry_ok_def)
  moreover have "line_bytes kv @ r \<noteq> []" by (simp add: line_bytes_def)
  moreover have "drop (length ?line + 1) (line_bytes kv @ r) = r" by (simp add: line_bytes_def)
  ultimately show ?thesis
    using assms unfolding Scan_def by (simp add: tw line_entry_ok_def Let_def)
qed

lemma Scan_shorter: "Scan sc = (Some line, sc') \<Longrightarrow> length (sc_rest sc') < length (sc_rest sc)"
  by (auto simp: Scan_def Let_def split: if_splits)

definition line_pending :: "line_source \<Rightarrow> nat" where
  "line_pending ds = (case line_sc ds of None \<Rightarrow> 0 | Some sc \<Rightarrow> length (sc_rest sc))"

definition line_delivers :: "line_source \<Rightarrow> (bytes \<times> bytes) list \<Rightarrow> bool" where
  "line_delivers ds es \<longleftrightarrow>
    line_sc ds = Some \<lparr>sc_rest = concat (map line_bytes es), sc_err = False\<rparr> \<and>
    (\<forall>kv\<in>set es. line_entry_ok kv)"

interpretation line_src: data_source Line_Next line_pending line_delivers
proof
  fix s kv s' assume n: "Line_Next s = Some (Inr kv, s')"
  then obtain sc where sc: "line_sc s = Some sc" by (auto simp: Line_Next_def bind_eq_Some_conv)
  obtain t sc' where scan: "Scan sc = (t, sc')" by fastforce
  show "line_pending s' < line_pending s"
    using n sc scan Scan_shorter [of sc]
    by (cases t) (auto simp: Line_Next_def line_pending_def Let_def split: if_splits)
next
  show "\<exists>s'. Line_Next s = Some (Inl ErrEOF, s')" if "line_delivers s []" for s
    using that by (auto simp: Line_Next_def line_delivers_def Scan_def)
next
  fix s kv es assume d: "line_delivers s (kv # es)"
  then have ok: "line_entry_ok kv" by (simp add: line_delivers_def)
  then have "split_line [] (fst kv @ 9 # snd kv) = kv"
    using split_line_tab [of "fst kv" "[]" "snd kv"] by (simp add: line_entry_ok_def)
  then show "\<exists>s'. Line_Next s = Some (Inr kv, s') \<and> line_delivers s' es"
    using d by (auto simp: Line_Next_def line_delivers_def Scan_line [OF ok])
qed

text \<open>
  C37. The text format round-trips for the entries a line can carry: a file of \<open>key TAB value NL\<close>
  lines is read back as exactly the entries, then \<open>ErrEOF\<close>. \<open>Open\<close> estimates zero entries for every
  file.
\<close>

theorem line_source_roundtrip:
  assumes "fs_file fs path = Some (concat (map line_bytes es))" "\<forall>kv\<in>set es. line_entry_ok kv"
  shows "\<exists>ds. Line_Open fs (NewLineDataSource path) = (Inr 0, ds) \<and>
    drain (length es + 1) Line_Next ds = Some (es, Some ErrEOF)"
proof -
  obtain ds where o: "Line_Open fs (NewLineDataSource path) = (Inr 0, ds)"
      "line_sc ds = Some \<lparr>sc_rest = concat (map line_bytes es), sc_err = False\<rparr>"
    using assms by (auto simp: Line_Open_def NewLineDataSource_def)
  then have "line_delivers ds es" using assms(2) by (simp add: line_delivers_def)
  then have "drain (length es + 1) Line_Next ds = Some (es, Some ErrEOF)"
    by (rule line_src.drain_delivers) simp
  with o show ?thesis by blast
qed

theorem line_source_roundtrip_witness:
  "\<exists>ds. Line_Open \<lparr>fs_file = (\<lambda>_. Some [97, 9, 98, 10]), fs_stat_ok = (\<lambda>_. True)\<rparr>
      (NewLineDataSource [102]) = (Inr 0, ds) \<and> drain (Suc 1) Line_Next ds = Some ([([97], [98])], Some ErrEOF)"
  using line_source_roundtrip [of "\<lparr>fs_file = (\<lambda>_. Some [97, 9, 98, 10]), fs_stat_ok = (\<lambda>_. True)\<rparr>"
      "[102]" "[([97], [98])]"]
  by (simp add: line_entry_ok_def line_bytes_def MaxScanTokenSize_def del: drain.simps)

text \<open>
  What \<open>Next\<close> makes of a line: everything before the first tab is the key and everything after it
  the value, later tabs included; a line without a tab is a key with an empty value. A line longer
  than the scanner's buffer ends the source with an error that is not \<open>ErrEOF\<close>.
\<close>

lemma line_source_next:
  assumes "line_sc ds = Some \<lparr>sc_rest = line @ 10 # r, sc_err = False\<rparr>" "10 \<notin> set line"
    and "line \<noteq> [] \<longrightarrow> last line \<noteq> 13"
  shows "\<exists>ds'. Line_Next ds =
    (if length line \<ge> MaxScanTokenSize then Some (Inl ErrTooLong, ds')
     else Some (Inr (takeWhile (\<lambda>b. b \<noteq> 9) line, drop 1 (dropWhile (\<lambda>b. b \<noteq> 9) line)), ds'))"
proof -
  have "takeWhile (\<lambda>b. b \<noteq> 10) (line @ 10 # r) = line"
    using assms(2) by (auto simp: takeWhile_append takeWhile_eq_all_conv)
  moreover have "dropCR line = line" using assms(3) by (auto simp: dropCR_def)
  moreover have "split_line [] line = (takeWhile (\<lambda>b. b \<noteq> 9) line, drop 1 (dropWhile (\<lambda>b. b \<noteq> 9) line))"
  proof (cases "9 \<in> set line")
    case False
    then have t: "takeWhile (\<lambda>b. b \<noteq> 9) line = line" "dropWhile (\<lambda>b. b \<noteq> 9) line = []"
      by (auto simp: takeWhile_eq_all_conv dropWhile_eq_Nil_conv)
    show ?thesis unfolding t using False by (simp add: split_line_no_tab)
  next
    case True
    then obtain k v where kv: "line = k @ 9 # v" "9 \<notin> set k" by (meson split_list_first)
    then have "takeWhile (\<lambda>b. b \<noteq> 9) line = k" "dropWhile (\<lambda>b. b \<noteq> 9) line = 9 # v"
      by (auto simp: takeWhile_append dropWhile_append takeWhile_eq_all_conv dropWhile_eq_Nil_conv)
    with kv show ?thesis by (simp add: split_line_tab)
  qed
  ultimately show ?thesis using assms(1) by (simp add: Line_Next_def Scan_def Let_def)
qed

end
