(* ===== verification/Loader.thy ===== *)
theory Loader
  imports Complex_Main Hash Hash_Table_Props Data_Source
begin

text \<open>
  \<open>pkg/featcache/loader.go\<close>: the writer. The bytes of the segment are the argument \<open>data\<close> of every
  operation and are returned changed; \<open>segSize\<close> is \<open>segment.Cap()\<close>; \<open>l_segment\<close> is the reference to
  the \<open>shm.Segment\<close> the loader holds. \<open>l_dataEnd\<close> keeps its 32 bits, and Go's \<open>int(dataOff)\<close> reads
  them as a signed number.

  \<open>Load\<close> calls \<open>Next\<close> until the source ends, so it takes a bound on the number of calls; running out
  of it is the outcome \<open>LoadOutOfFuel\<close>, which no run reaches whose bound exceeds what the source can
  still deliver (\<open>Loader_Props\<close>).
\<close>

section \<open>Configuration\<close>

text \<open>The values of a \<open>float64\<close> that the comparisons tell apart.\<close>

datatype f64 = NaN | NegInf | Finite rat | PosInf

fun f64_le_0 :: "f64 \<Rightarrow> bool" where
  "f64_le_0 (Finite q) = (q \<le> 0)"
| "f64_le_0 NegInf = True"
| "f64_le_0 _ = False"

fun f64_gt_1 :: "f64 \<Rightarrow> bool" where
  "f64_gt_1 (Finite q) = (q > 1)"
| "f64_gt_1 PosInf = True"
| "f64_gt_1 _ = False"

record loader_config =
  SegmentName :: go_string
  SegmentSize :: int
  LoadFactor :: f64

definition config_defaults :: "loader_config \<Rightarrow> loader_config" where
  "config_defaults c =
    (let c = (if SegmentSize c \<le> 0 then c\<lparr>SegmentSize := SegmentDefaultSize\<rparr> else c)
     in if f64_le_0 (LoadFactor c) \<or> f64_gt_1 (LoadFactor c) then c\<lparr>LoadFactor := Finite (1 / 2)\<rparr> else c)"

section \<open>The loader\<close>

record loader =
  l_segment :: nat
  l_hashTable :: "hash_table option"
  l_config :: loader_config
  l_dataEnd :: u32

definition newLoaderWithSegment :: "loader_config \<Rightarrow> nat \<Rightarrow> loader" where
  "newLoaderWithSegment config seg =
    \<lparr>l_segment = seg, l_hashTable = None, l_config = config_defaults config, l_dataEnd = 0\<rparr>"

definition slots_for :: "int \<Rightarrow> u32" where
  \<comment> \<open>\<open>NextPow2(uint32(expectedEntries) * 2)\<close>\<close>
  "slots_for expectedEntries = NextPow2 (word_of_int expectedEntries * 2)"

definition data_offset_for :: "u32 \<Rightarrow> u32" where
  \<comment> \<open>\<open>Align(uint32(hashOffset)+uint32(hashBytes), 8)\<close>\<close>
  "data_offset_for hashCap =
    Align (word_of_int HeaderSize + word_of_int (uint hashCap * SlotSize)) 8"

definition Loader_Init ::
  "rng \<Rightarrow> int \<Rightarrow> loader \<Rightarrow> bytes \<Rightarrow> int \<Rightarrow> (error option \<times> loader \<times> bytes \<times> rng) option" where
  "Loader_Init rng segSize l data expectedEntries =
    (let hashCap = slots_for expectedEntries;
         dataOffset = data_offset_for hashCap
     in if uint dataOffset \<ge> segSize then Some (Some ErrSegmentTooSmall, l, data, rng)
        else do {
          hdr \<leftarrow> headerOf data;
          (seed, hdr, rng) \<leftarrow> setHeaderHashSeed rng
            (hdr\<lparr>hdr_Magic := Magic, hdr_Version := Version, hdr_Size := word_of_int segSize,
                 hdr_GenCounter := 0, hdr_HashCap := hashCap, hdr_HashOffset := word_of_int HeaderSize,
                 hdr_DataOffset := dataOffset, hdr_DataEnd := dataOffset, hdr_SegmentID := 0,
                 hdr_Flags := 0\<rparr>);
          (data, past) \<leftarrow> InitHashTable (set_header data hdr) HeaderSize (uint hashCap);
          Some (None, l\<lparr>l_hashTable := Some (NewHashTable HeaderSize (uint dataOffset) (uint hashCap)),
                        l_dataEnd := dataOffset\<rparr>, data, rng) })"

definition Loader_put ::
  "u64 \<Rightarrow> loader \<Rightarrow> bytes \<Rightarrow> bytes \<Rightarrow> bytes \<Rightarrow> (error option \<times> loader \<times> bytes) option" where
  "Loader_put pkgSeed l data key value =
    (let chunkSize = 4 + int (length key) + int (length value);
         newEnd = l_dataEnd l + word_of_int chunkSize;
         dataOff = newEnd - word_of_int chunkSize;
         l = l\<lparr>l_dataEnd := newEnd\<rparr>;
         absOff = sint dataOff
     in if absOff + chunkSize > int (length data) then Some (Some ErrDataRegionFull, l, data)
        else do {
          data \<leftarrow> put_u32 data absOff (word_of_int (int (length key)));
          data \<leftarrow> copy_at data (absOff + 4) key;
          data \<leftarrow> copy_at data (absOff + 4 + int (length key)) value;
          hdr \<leftarrow> headerOf data;
          let h = HashKeyWithSeed key (headerHashSeed pkgSeed hdr);
          let relOffset = word_of_int absOff - hdr_DataOffset hdr;
          ht \<leftarrow> l_hashTable l;
          (inserted, data) \<leftarrow> HashTable_Insert ht data h key relOffset (word_of_int (int (length value)));
          Some (if inserted then None else Some errHashFull, l, data) })"

datatype load_end = Loaded | LoadFailed error | LoadOutOfFuel

fun Load_loop ::
  "nat \<Rightarrow> u64 \<Rightarrow> ('s \<Rightarrow> (next_result \<times> 's) option) \<Rightarrow> loader \<Rightarrow> bytes \<Rightarrow> 's \<Rightarrow> int \<Rightarrow>
    (load_end \<times> int \<times> loader \<times> bytes \<times> 's) option" where
  "Load_loop 0 pkgSeed nxt l data s count = Some (LoadOutOfFuel, count, l, data, s)"
| "Load_loop (Suc fuel) pkgSeed nxt l data s count =
    do { (r, s) \<leftarrow> nxt s;
         case r of
           Inl e \<Rightarrow> Some (if e = ErrEOF then Loaded else LoadFailed e, count, l, data, s)
         | Inr (key, value) \<Rightarrow>
             if length key = 0 \<or> length key > MaxKeyLen then Load_loop fuel pkgSeed nxt l data s count
             else do {
               (err, l, data) \<leftarrow> Loader_put pkgSeed l data key value;
               case err of
                 None \<Rightarrow> Load_loop fuel pkgSeed nxt l data s (count + 1)
               | Some e \<Rightarrow>
                   Some (if e = errHashFull then Loaded else LoadFailed e, count, l, data, s) } }"

record 's load_outcome =
  lo_end :: load_end
  lo_count :: int
  lo_loader :: loader
  lo_data :: bytes
  lo_source :: 's

definition bump_generation :: "bytes \<Rightarrow> bytes option" where
  \<comment> \<open>\<open>headerOf(l.segment).GenCounter++\<close>\<close>
  "bump_generation data =
    do { hdr \<leftarrow> headerOf data;
         Some (set_header data (hdr\<lparr>hdr_GenCounter := hdr_GenCounter hdr + 1\<rparr>)) }"

definition Loader_Load ::
  "nat \<Rightarrow> u64 \<Rightarrow> rng \<Rightarrow> int \<Rightarrow> 's source \<Rightarrow> loader \<Rightarrow> bytes \<Rightarrow> 's \<Rightarrow> 's load_outcome option" where
  "Loader_Load fuel pkgSeed rng segSize ds l data s =
    (case ds_Open ds s of
       (Inl e, s) \<Rightarrow> Some \<lparr>lo_end = LoadFailed e, lo_count = 0, lo_loader = l, lo_data = data, lo_source = s\<rparr>
     | (Inr estimate, s) \<Rightarrow>
         do {
           (err, l, data, rng) \<leftarrow>
             (if l_hashTable l = None then Loader_Init rng segSize l data estimate
              else Some (None, l, data, rng));
           case err of
             Some e \<Rightarrow> Some \<lparr>lo_end = LoadFailed e, lo_count = 0, lo_loader = l, lo_data = data,
                               lo_source = snd (ds_Close ds s)\<rparr>
           | None \<Rightarrow> do {
               (fin, count, l, data, s) \<leftarrow> Load_loop fuel pkgSeed (ds_Next ds) l data s 0;
               data \<leftarrow> (if fin = Loaded then bump_generation data else Some data);
               Some \<lparr>lo_end = fin, lo_count = count, lo_loader = l, lo_data = data,
                     lo_source = snd (ds_Close ds s)\<rparr> } })"

end
