(* ===== verification/Loader_Segment.thy ===== *)
theory Loader_Segment
  imports Loader Shm
begin

text \<open>
  The loader over its segment: \<open>NewLoader\<close>, and the methods of \<open>pkg/featcache/loader.go\<close> applied to the
  bytes that \<open>l.segment.Data()\<close> shows. \<open>on_segment\<close> reads the slice and the capacity of a segment, runs
  an operation over the bytes and stores what it left of them; a closed segment shows no bytes, one
  whose memory is gone is a fault.
\<close>

definition on_segment :: "world \<Rightarrow> nat \<Rightarrow> (int \<Rightarrow> bytes \<Rightarrow> ('a \<times> bytes) option) \<Rightarrow> ('a \<times> world) option" where
  "on_segment w s f =
    do { v \<leftarrow> Segment_Data w s;
         c \<leftarrow> Segment_Cap w s;
         data \<leftarrow> view_bytes w v;
         (x, data) \<leftarrow> f c data;
         Some (x, view_store w v data) }"

definition NewLoader :: "platform \<Rightarrow> sys \<Rightarrow> world \<Rightarrow> loader_config \<Rightarrow> ((error + loader) \<times> world) option" where
  "NewLoader p sys w config =
    (let config = config_defaults config
     in case CreateSegment p sys w (SegmentName config) (SegmentSize config) of
          (Inr seg, w) \<Rightarrow> Some (Inr (newLoaderWithSegment config seg), w)
        | (Inl _, w) \<Rightarrow>
            (case OpenSegment p sys w (SegmentName config) of
               (None, w) \<Rightarrow> None
             | (Some (Inl e), w) \<Rightarrow> Some (Inl e, w)
             | (Some (Inr seg), w) \<Rightarrow> Some (Inr (newLoaderWithSegment config seg), w)))"

definition Segment_Init :: "rng \<Rightarrow> world \<Rightarrow> loader \<Rightarrow> int \<Rightarrow> ((error option \<times> loader \<times> rng) \<times> world) option" where
  "Segment_Init rng w l expectedEntries =
    on_segment w (l_segment l) (\<lambda>c data.
      do { (err, l, data, rng) \<leftarrow> Loader_Init rng c l data expectedEntries; Some ((err, l, rng), data) })"

definition Segment_put :: "u64 \<Rightarrow> world \<Rightarrow> loader \<Rightarrow> bytes \<Rightarrow> bytes \<Rightarrow> ((error option \<times> loader) \<times> world) option" where
  "Segment_put pkgSeed w l key value =
    on_segment w (l_segment l) (\<lambda>c data.
      do { (err, l, data) \<leftarrow> Loader_put pkgSeed l data key value; Some ((err, l), data) })"

definition Segment_Load ::
  "nat \<Rightarrow> u64 \<Rightarrow> rng \<Rightarrow> 's source \<Rightarrow> world \<Rightarrow> loader \<Rightarrow> 's \<Rightarrow> ((load_end \<times> int \<times> loader \<times> 's) \<times> world) option" where
  "Segment_Load fuel pkgSeed rng ds w l s =
    on_segment w (l_segment l) (\<lambda>c data.
      do { r \<leftarrow> Loader_Load fuel pkgSeed rng c ds l data s;
           Some ((lo_end r, lo_count r, lo_loader r, lo_source r), lo_data r) })"

definition Loader_Close :: "platform \<Rightarrow> sys \<Rightarrow> world \<Rightarrow> loader \<Rightarrow> (error option \<times> world) option" where
  "Loader_Close p sys w l = Segment_Close p sys w (l_segment l)"

definition Loader_Destroy :: "platform \<Rightarrow> sys \<Rightarrow> world \<Rightarrow> loader \<Rightarrow> (error option \<times> world) option" where
  "Loader_Destroy p sys w l = Segment_Destroy p sys w (l_segment l)"

definition Loader_Segment :: "loader \<Rightarrow> nat" where
  "Loader_Segment l = l_segment l"

definition Loader_HashTable :: "loader \<Rightarrow> hash_table option" where
  "Loader_HashTable l = l_hashTable l"

section \<open>A live segment\<close>

definition live :: "world \<Rightarrow> nat \<Rightarrow> nat \<Rightarrow> nat \<Rightarrow> bytes \<Rightarrow> bool" where
  \<comment> \<open>segment \<open>s\<close> maps object \<open>obj\<close> through slice \<open>v\<close>; the object holds \<open>data\<close>\<close>
  "live w s v obj data \<longleftrightarrow>
    Segment_Data w s = Some (Some v) \<and> Segment_Cap w s = Some (int (length data)) \<and>
    views w v = Some obj \<and> objects w obj = Some data"

lemma on_segment_live:
  assumes "live w s v obj data" "f (int (length data)) data = Some (x, data')"
  shows "on_segment w s f = Some (x, w\<lparr>objects := (objects w)(obj \<mapsto> data')\<rparr>)"
  using assms by (simp add: on_segment_def live_def view_bytes_def view_store_def)

lemma live_update:
  "live w s v obj data \<Longrightarrow> length data' = length data \<Longrightarrow>
    live (w\<lparr>objects := (objects w)(obj \<mapsto> data')\<rparr>) s v obj data'"
  by (simp add: live_def Segment_Data_def Segment_Cap_def)

lemma create_live:
  assumes "linux_createSegment sys w name sz = (Inr s, w')" "0 \<le> sz"
  shows "live w' s (Suc (next_id w)) (next_id w) (replicate (nat sz) 0)"
    "files w' (DevShmPath name) = Some (next_id w)" "segments w' s \<noteq> None"
    "map_option seg_name (segments w' s) = Some name"
  using assms by (auto simp: linux_createSegment_def Let_def live_def Segment_Data_def Segment_Cap_def split: if_splits)

lemma create_segment:
  "linux_createSegment sys w name sz = (Inr s, w') \<Longrightarrow>
    segments w' s = Some \<lparr>seg_name = name, seg_data = Some (Suc (next_id w)), seg_cap = sz,
      seg_mapped = True, seg_backedByFile = True\<rparr>"
  by (auto simp: linux_createSegment_def Let_def split: if_splits)

lemma close_then_destroy:
  assumes "segments w s = Some \<lparr>seg_name = name, seg_data = Some v, seg_cap = c, seg_mapped = True, seg_backedByFile = True\<rparr>"
    and "sys_munmap_ok sys" "sys_remove_ok sys (DevShmPath name)"
  shows "\<exists>w1 w2. linux_close sys w s = Some (None, w1) \<and> linux_destroy sys w1 s = Some (None, w2) \<and>
    files w2 (DevShmPath name) = None"
proof -
  define w1 where "w1 = w\<lparr>segments := (segments w)(s \<mapsto> \<lparr>seg_name = name, seg_data = None, seg_cap = c,
      seg_mapped = False, seg_backedByFile = True\<rparr>), views := (views w)(v := None)\<rparr>"
  have "linux_close sys w s = Some (None, w1)" using assms by (simp add: linux_close_def w1_def Let_def)
  moreover have "linux_close sys w1 s = Some (None, w1)" by (simp add: linux_close_def w1_def)
  then have "linux_destroy sys w1 s = Some (None, snd (os_Remove sys w1 (DevShmPath name)))"
    using assms(3) by (simp add: linux_destroy_def w1_def os_Remove_def errors_Join_def)
  moreover have "files (snd (os_Remove sys w1 (DevShmPath name))) (DevShmPath name) = None"
    using assms(3) by (simp add: os_Remove_def)
  ultimately show ?thesis by blast
qed

lemma open_live:
  assumes "linux_openSegment sys w name = (Inr t, w')" "files w (DevShmPath name) = Some obj" "objects w obj = Some data"
  shows "live w' t (next_id w) obj data" "t = Suc (next_id w)"
    "live w s v obj' data' \<Longrightarrow> s < next_id w \<Longrightarrow> v < next_id w \<Longrightarrow> live w' s v obj' data'"
  using assms by (auto simp: linux_openSegment_def Let_def live_def Segment_Data_def Segment_Cap_def split: if_splits)

end
