(* ===== verification/Shm_Props.thy ===== *)
theory Shm_Props
  imports Shm
begin

text \<open>
  What shared memory segments promise: in every state that the operations can reach, the slice of a
  segment is either nil or fully mapped memory of \<open>Cap\<close> bytes; handles that opened the same name see
  each other's writes; a destroyed segment stays readable for those who still map it, while its name
  is free again; a creation that fails leaves no file behind.
\<close>

section \<open>Reachable states\<close>

definition empty_world :: world where
  "empty_world = \<lparr>files = Map.empty, objects = Map.empty, views = Map.empty, segments = Map.empty,
     testSegments = Map.empty, next_id = 0\<rparr>"

definition sys_sane :: "sys \<Rightarrow> bool" where
  \<comment> \<open>documented: \<open>ftruncate\<close> refuses negative lengths\<close>
  "sys_sane sys \<longleftrightarrow> (\<forall>n. sys_truncate_ok sys n \<longrightarrow> 0 \<le> n)"

inductive shm_step :: "platform \<Rightarrow> world \<Rightarrow> world \<Rightarrow> bool" for p where
  create: "sys_sane sys \<Longrightarrow> CreateSegment p sys w name sz = (r, w') \<Longrightarrow> shm_step p w w'"
| open_named: "OpenSegment p sys w name = (Some r, w') \<Longrightarrow> shm_step p w w'"
| close: "Segment_Close p sys w s = Some (e, w') \<Longrightarrow> shm_step p w w'"
| destroy: "Segment_Destroy p sys w s = Some (e, w') \<Longrightarrow> shm_step p w w'"
| borrow: "Borrow w s = Some w' \<Longrightarrow> shm_step p w w'"
| in_memory: "NewInMemorySegment w name sz = Some (s, w') \<Longrightarrow> shm_step p w w'"
| register: "shm_step p w (RegisterTestSegment w name s)"
| unregister: "shm_step p w (UnregisterTestSegment w name)"
| store_bytes: "view_bytes w v = Some bs \<Longrightarrow> length bs' = length bs \<Longrightarrow> shm_step p w (view_store w v bs')"

inductive shm_reachable :: "platform \<Rightarrow> world \<Rightarrow> bool" for p where
  start: "shm_reachable p empty_world"
| step: "shm_reachable p w \<Longrightarrow> shm_step p w w' \<Longrightarrow> shm_reachable p w'"

definition ids_ok :: "world \<Rightarrow> bool" where
  "ids_ok w \<longleftrightarrow> (\<forall>i\<ge>next_id w. objects w i = None \<and> views w i = None \<and> segments w i = None)"

definition files_ok :: "world \<Rightarrow> bool" where
  "files_ok w \<longleftrightarrow> (\<forall>path obj. files w path = Some obj \<longrightarrow> objects w obj \<noteq> None)"

definition segment_ok :: "world \<Rightarrow> segment \<Rightarrow> bool" where
  \<comment> \<open>the slice is nil, or shows mapped memory of \<open>Cap\<close> bytes\<close>
  "segment_ok w seg \<longleftrightarrow>
    (case seg_data seg of None \<Rightarrow> True | Some v \<Rightarrow>
      (case views w v of None \<Rightarrow> False | Some obj \<Rightarrow>
        (case objects w obj of None \<Rightarrow> False | Some bs \<Rightarrow> int (length bs) = seg_cap seg)))"

definition owns :: "segment \<Rightarrow> nat \<Rightarrow> bool" where
  "owns seg v \<longleftrightarrow> seg_mapped seg \<and> seg_data seg = Some v"

definition exclusive :: "world \<Rightarrow> bool" where
  \<comment> \<open>nobody else holds the slice of a segment that will unmap it\<close>
  "exclusive w \<longleftrightarrow>
    (\<forall>s seg v s' seg'. segments w s = Some seg \<longrightarrow> owns seg v \<longrightarrow>
      segments w s' = Some seg' \<longrightarrow> seg_data seg' = Some v \<longrightarrow> s = s')"

definition world_inv :: "platform \<Rightarrow> world \<Rightarrow> bool" where
  "world_inv p w \<longleftrightarrow> ids_ok w \<and> files_ok w \<and> exclusive w \<and>
    (\<forall>s seg. segments w s = Some seg \<longrightarrow> segment_ok w seg \<and> (p = Other \<longrightarrow> \<not> seg_mapped seg))"

lemma segment_ok_cong:
  "views w' = views w \<Longrightarrow> objects w' = objects w \<Longrightarrow> segment_ok w' seg = segment_ok w seg"
  by (simp add: segment_ok_def cong: option.case_cong)

lemma segment_ok_same:
  "seg_data g = seg_data seg \<Longrightarrow> seg_cap g = seg_cap seg \<Longrightarrow> segment_ok w g = segment_ok w seg"
  by (simp add: segment_ok_def cong: option.case_cong)

lemma world_inv_segment: "world_inv p w \<Longrightarrow> segments w s = Some seg \<Longrightarrow> segment_ok w seg"
  by (simp add: world_inv_def)

lemma world_inv_data:
  assumes "world_inv p w" "segments w s = Some seg" "seg_data seg = Some v"
  obtains obj bs where "views w v = Some obj" "objects w obj = Some bs" "int (length bs) = seg_cap seg"
proof -
  have "segment_ok w seg" using assms by (auto simp: world_inv_def)
  then show thesis using assms(3) that by (auto simp: segment_ok_def split: option.splits)
qed

lemma world_inv_fresh:
  "world_inv p w \<Longrightarrow> next_id w \<le> i \<Longrightarrow> objects w i = None \<and> views w i = None \<and> segments w i = None"
  by (simp add: world_inv_def ids_ok_def)

lemma world_inv_live:
  assumes "world_inv p w" "segments w s = Some seg"
  shows "s < next_id w" "seg_data seg = Some v \<Longrightarrow> v < next_id w"
proof -
  show "s < next_id w" using assms world_inv_fresh [OF assms(1), of s] by (metis leI option.discI)
  show "v < next_id w" if "seg_data seg = Some v"
    using world_inv_data [OF assms that] world_inv_fresh [OF assms(1), of v] by (metis leI option.discI)
qed

text \<open>The elementary changes that the operations are made of.\<close>

lemma new_object_inv:
  assumes inv: "world_inv p w"
    and f: "\<And>path obj. f path = Some obj \<Longrightarrow> obj = next_id w \<or> files w path = Some obj"
  shows "world_inv p (w\<lparr>files := f, next_id := Suc (next_id w), objects := (objects w)(next_id w \<mapsto> bs)\<rparr>)"
proof -
  have n: "objects w (next_id w) = None" using world_inv_fresh [OF inv, of "next_id w"] by simp
  have "segment_ok w seg \<Longrightarrow>
      segment_ok (w\<lparr>files := f, next_id := Suc (next_id w), objects := (objects w)(next_id w \<mapsto> bs)\<rparr>) seg" for seg
    using n by (auto simp: segment_ok_def split: option.splits)
  moreover have "files_ok (w\<lparr>files := f, next_id := Suc (next_id w), objects := (objects w)(next_id w \<mapsto> bs)\<rparr>)"
    unfolding files_ok_def
  proof (intro allI impI)
    fix path obj
    assume "files (w\<lparr>files := f, next_id := Suc (next_id w), objects := (objects w)(next_id w \<mapsto> bs)\<rparr>) path = Some obj"
    then have "obj = next_id w \<or> files w path = Some obj" using f by simp
    then show "objects (w\<lparr>files := f, next_id := Suc (next_id w), objects := (objects w)(next_id w \<mapsto> bs)\<rparr>) obj \<noteq> None"
      using inv by (auto simp: world_inv_def files_ok_def)
  qed
  ultimately show ?thesis
    using inv by (auto simp: world_inv_def ids_ok_def exclusive_def)
qed

lemma new_segment_inv:
  assumes inv: "world_inv p w" and obj: "objects w obj = Some bs" and cap: "int (length bs) = seg_cap seg"
    and seg: "seg_data seg = Some (next_id w)" and plat: "p = Other \<Longrightarrow> \<not> seg_mapped seg"
  shows "world_inv p (w\<lparr>views := (views w)(next_id w \<mapsto> obj),
    segments := (segments w)(Suc (next_id w) \<mapsto> seg), next_id := Suc (Suc (next_id w))\<rparr>)" (is "world_inv p ?w'")
proof -
  have old: "v < next_id w" if "segments w s = Some g" "seg_data g = Some v" for s g v
    using world_inv_live(2) [OF inv that(1)] that(2) by blast
  have "segment_ok ?w' seg" using obj cap seg by (simp add: segment_ok_def)
  moreover have "segment_ok ?w' g" if "segments w s = Some g" for s g
    using world_inv_segment [OF inv that] old [OF that] by (fastforce simp: segment_ok_def split: option.splits)
  moreover have "exclusive ?w'"
    using inv old seg unfolding world_inv_def exclusive_def owns_def by (auto split: if_splits)
  ultimately show ?thesis using inv plat by (auto simp: world_inv_def ids_ok_def files_ok_def)
qed

lemma change_segment_inv:
  assumes inv: "world_inv p w" and s: "segments w s = Some seg"
    and c: "seg_data seg' = seg_data seg \<or> seg_data seg' = None" "seg_cap seg' = seg_cap seg"
      "seg_mapped seg' \<Longrightarrow> seg_mapped seg"
  shows "world_inv p (w\<lparr>segments := (segments w)(s \<mapsto> seg')\<rparr>)" (is "world_inv p ?w'")
proof -
  have "segment_ok w seg'" using world_inv_segment [OF inv s] c(1) unfolding segment_ok_def c(2) by auto
  moreover have "segment_ok ?w' g = segment_ok w g" for g by (rule segment_ok_cong) simp_all
  moreover have "exclusive ?w'"
    using inv s c unfolding world_inv_def exclusive_def owns_def by (auto split: if_splits) metis+
  ultimately show ?thesis using inv s c world_inv_live(1) [OF inv s]
    by (auto simp: world_inv_def ids_ok_def files_ok_def)
qed

lemma unmap_inv:
  assumes inv: "world_inv p w" and s: "segments w s = Some seg" and own: "owns seg v"
    and c: "seg_data seg' = None" "\<not> seg_mapped seg'"
  shows "world_inv p (w\<lparr>segments := (segments w)(s \<mapsto> seg'), views := (views w)(v := None)\<rparr>)" (is "world_inv p ?w'")
proof -
  have "segment_ok ?w' seg'" using c by (simp add: segment_ok_def)
  moreover have "segment_ok ?w' g" if g: "segments w t = Some g" "t \<noteq> s" for t g
  proof -
    have "seg_data g \<noteq> Some v"
      using inv s own g unfolding world_inv_def exclusive_def by blast
    then show ?thesis using world_inv_segment [OF inv g(1)] by (auto simp: segment_ok_def split: option.splits)
  qed
  moreover have "exclusive ?w'"
    using inv c unfolding world_inv_def exclusive_def owns_def by (auto split: if_splits)
  ultimately show ?thesis using inv s c world_inv_live(1) [OF inv s]
    by (auto simp: world_inv_def ids_ok_def files_ok_def)
qed

lemma files_inv:
  assumes inv: "world_inv p w" and f: "\<And>path obj. f path = Some obj \<Longrightarrow> files w path = Some obj"
  shows "world_inv p (w\<lparr>files := f\<rparr>)"
proof -
  have "segment_ok (w\<lparr>files := f\<rparr>) g = segment_ok w g" for g by (rule segment_ok_cong) simp_all
  moreover have "files_ok (w\<lparr>files := f\<rparr>)" using inv f by (simp add: world_inv_def files_ok_def) blast
  ultimately show ?thesis using inv by (simp add: world_inv_def ids_ok_def exclusive_def)
qed

lemma testSegments_inv: "world_inv p w \<Longrightarrow> world_inv p (w\<lparr>testSegments := t\<rparr>)"
  using segment_ok_cong [of "w\<lparr>testSegments := t\<rparr>" w]
  by (simp add: world_inv_def ids_ok_def files_ok_def exclusive_def)

lemma os_Remove_inv: "world_inv p w \<Longrightarrow> world_inv p (snd (os_Remove sys w path))"
  by (auto simp: os_Remove_def intro!: files_inv split: if_splits)

lemma view_store_inv:
  assumes inv: "world_inv p w" and bs: "view_bytes w v = Some bs" "length bs' = length bs"
  shows "world_inv p (view_store w v bs')"
proof (cases v)
  case None
  then show ?thesis using inv by (simp add: view_store_def)
next
  case (Some i)
  then obtain obj where o: "views w i = Some obj" "objects w obj = Some bs"
    using bs(1) by (auto simp: view_bytes_def split: option.splits)
  let ?w' = "w\<lparr>objects := (objects w)(obj \<mapsto> bs')\<rparr>"
  have "segment_ok ?w' g" if "segment_ok w g" for g
    using that o bs(2) by (auto simp: segment_ok_def split: option.splits)
  moreover have "obj < next_id w" using world_inv_fresh [OF inv, of obj] o(2) by (metis leI option.discI)
  ultimately have "world_inv p ?w'" using inv by (auto simp: world_inv_def ids_ok_def files_ok_def exclusive_def)
  then show ?thesis using o(1) Some by (simp add: view_store_def)
qed

section \<open>The operations keep the invariant\<close>

lemma linux_createSegment_inv:
  assumes inv: "world_inv Linux w" and sane: "sys_sane sys" and r: "linux_createSegment sys w name sz = (r, w')"
  shows "world_inv Linux w'"
proof -
  let ?path = "DevShmPath name" and ?n = "next_id w"
  define w1 where "w1 bs = w\<lparr>files := (files w)(?path \<mapsto> ?n), next_id := Suc ?n, objects := (objects w)(?n \<mapsto> bs)\<rparr>" for bs
  have i1: "world_inv Linux (w1 bs)" for bs
    unfolding w1_def by (rule new_object_inv [OF inv]) (auto split: if_splits)
  show ?thesis
  proof (cases "files w ?path \<noteq> None \<or> \<not> sys_open_ok sys ?path")
    case True
    then show ?thesis using r inv by (auto simp: linux_createSegment_def Let_def split: if_splits)
  next
    case False
    show ?thesis
    proof (cases "sys_truncate_ok sys sz \<and> sys_mmap_ok sys sz")
      case True
      then have sz: "0 \<le> sz" using sane by (simp add: sys_sane_def)
      have "world_inv Linux ((w1 (replicate (nat sz) 0))
          \<lparr>views := (views (w1 (replicate (nat sz) 0)))(next_id (w1 (replicate (nat sz) 0)) \<mapsto> ?n),
           segments := (segments (w1 (replicate (nat sz) 0)))(Suc (next_id (w1 (replicate (nat sz) 0))) \<mapsto>
             \<lparr>seg_name = name, seg_data = Some (next_id (w1 (replicate (nat sz) 0))), seg_cap = sz,
              seg_mapped = True, seg_backedByFile = True\<rparr>),
           next_id := Suc (Suc (next_id (w1 (replicate (nat sz) 0))))\<rparr>)"
        by (rule new_segment_inv [OF i1, where bs = "replicate (nat sz) 0"]) (use sz in \<open>auto simp: w1_def\<close>)
      then show ?thesis using r True False by (auto simp: linux_createSegment_def Let_def w1_def)
    next
      case no: False
      have "w' = snd (os_Remove sys (w1 []) ?path) \<or> w' = snd (os_Remove sys (w1 (replicate (nat sz) 0)) ?path)"
        using r False no by (auto simp: linux_createSegment_def Let_def w1_def split: if_splits)
      then show ?thesis using os_Remove_inv [OF i1] by auto
    qed
  qed
qed

lemma linux_openSegment_inv:
  assumes inv: "world_inv Linux w" and r: "linux_openSegment sys w name = (r, w')"
  shows "world_inv Linux w'"
proof (cases "files w (DevShmPath name)")
  case None
  then show ?thesis using r inv by (simp add: linux_openSegment_def)
next
  case (Some obj)
  obtain bs where bs: "objects w obj = Some bs"
    using inv Some unfolding world_inv_def files_ok_def by blast
  note new = new_segment_inv [OF inv bs, of "\<lparr>seg_name = name, seg_data = Some (next_id w), seg_cap = int (length bs),
      seg_mapped = True, seg_backedByFile = True\<rparr>"]
  show ?thesis using r inv new Some bs
    by (auto simp: linux_openSegment_def Let_def split: if_splits)
qed

lemma linux_close_inv:
  assumes inv: "world_inv p w" and r: "linux_close sys w s = Some (e, w')"
  shows "world_inv p w'"
proof -
  obtain seg where s: "segments w s = Some seg" using r by (auto simp: linux_close_def bind_eq_Some_conv)
  note ch = change_segment_inv [OF inv s]
  show ?thesis
  proof (cases "seg_data seg")
    case None
    then show ?thesis using r s inv by (simp add: linux_close_def)
  next
    case (Some v)
    show ?thesis
    proof (cases "seg_mapped seg \<and> sys_munmap_ok sys")
      case True
      then have "owns seg v" using Some by (simp add: owns_def)
      from unmap_inv [OF inv s this, of "seg\<lparr>seg_mapped := False, seg_data := None\<rparr>"]
      show ?thesis using r s Some True by (auto simp: linux_close_def)
    next
      case False
      then show ?thesis
        using r s Some ch [of "seg\<lparr>seg_mapped := False\<rparr>"] ch [of "seg\<lparr>seg_mapped := False, seg_data := None\<rparr>"]
        by (auto simp: linux_close_def Let_def split: if_splits)
    qed
  qed
qed

lemma other_close_inv:
  assumes inv: "world_inv p w" and r: "other_close w s = Some (e, w')"
  shows "world_inv p w'"
  using r inv change_segment_inv [OF inv, of s _ "_\<lparr>seg_data := None\<rparr>"]
  by (auto simp: other_close_def bind_eq_Some_conv split: if_splits)

lemma other_openSegment_inv:
  assumes inv: "world_inv Other w" and r: "other_openSegment w name = (r, w')"
  shows "world_inv Other w'"
proof -
  have "world_inv Other (w\<lparr>segments := (segments w)(next_id w \<mapsto> seg\<lparr>seg_backedByFile := False\<rparr>),
      next_id := Suc (next_id w)\<rparr>)" (is "world_inv Other ?w'") if s: "segments w s = Some seg" for s seg
  proof -
    have "segment_ok ?w' g = segment_ok w g" for g by (rule segment_ok_cong) simp_all
    moreover have "segment_ok w (seg\<lparr>seg_backedByFile := False\<rparr>)"
      using world_inv_segment [OF inv s] segment_ok_same [of "seg\<lparr>seg_backedByFile := False\<rparr>" seg] by simp
    moreover have no: "\<not> owns g v" if "segments ?w' t = Some g" for t g v
      using that inv s by (auto simp: owns_def world_inv_def split: if_splits)
    moreover have "exclusive ?w'" using no unfolding exclusive_def by blast
    moreover have "ids_ok ?w'" "files_ok ?w'" using inv by (simp_all add: world_inv_def ids_ok_def files_ok_def)
    moreover have "\<not> seg_mapped seg" using inv s by (simp add: world_inv_def)
    ultimately show ?thesis using inv unfolding world_inv_def by simp
  qed
  then show ?thesis using r inv by (auto simp: other_openSegment_def split: option.splits)
qed

lemma in_memory_inv:
  assumes inv: "world_inv p w" and r: "NewInMemorySegment w name sz = Some (s, w')"
  shows "world_inv p w'"
proof -
  define w1 where "w1 = w\<lparr>files := files w, next_id := Suc (next_id w),
    objects := (objects w)(next_id w \<mapsto> replicate (nat sz) 0)\<rparr>"
  have i1: "world_inv p w1" unfolding w1_def by (rule new_object_inv [OF inv]) simp
  have sz: "0 \<le> sz" using r by (auto simp: NewInMemorySegment_def split: if_splits)
  have "world_inv p (w1\<lparr>views := (views w1)(next_id w1 \<mapsto> next_id w),
      segments := (segments w1)(Suc (next_id w1) \<mapsto> \<lparr>seg_name = name, seg_data = Some (next_id w1),
        seg_cap = sz, seg_mapped = False, seg_backedByFile = False\<rparr>), next_id := Suc (Suc (next_id w1))\<rparr>)"
    by (rule new_segment_inv [OF i1, where bs = "replicate (nat sz) 0"]) (use sz in \<open>auto simp: w1_def\<close>)
  then show ?thesis using r sz by (auto simp: NewInMemorySegment_def Let_def w1_def numeral_eq_Suc)
qed

lemma shm_step_inv:
  assumes "shm_step p w w'" "world_inv p w"
  shows "world_inv p w'"
  using assms
proof (cases rule: shm_step.cases)
  case (create sys name sz r)
  then show ?thesis using assms(2) linux_createSegment_inv
    by (cases p) (auto simp: CreateSegment_def other_createSegment_def)
next
  case (open_named sys name r)
  then show ?thesis using assms(2) linux_openSegment_inv other_openSegment_inv
    by (cases p) (auto simp: OpenSegment_def split: prod.splits)
next
  case (close sys s e)
  then show ?thesis using linux_close_inv [OF assms(2), of sys s e w'] other_close_inv [OF assms(2), of s e w']
    by (cases p) (simp_all add: Segment_Close_def)
next
  case (destroy sys s e)
  then show ?thesis
  proof (cases p)
    case Linux
    then have d: "linux_destroy sys w s = Some (e, w')" using destroy by (simp add: Segment_Destroy_def)
    then obtain e1 w1 where c: "linux_close sys w s = Some (e1, w1)"
      by (cases "linux_close sys w s") (auto simp: linux_destroy_def)
    then obtain g where g: "segments w1 s = Some g"
      using d by (cases "segments w1 s") (simp_all add: linux_destroy_def)
    obtain r2 w2 where rm: "os_Remove sys w1 (DevShmPath (seg_name g)) = (r2, w2)" by fastforce
    then have w2: "w2 = snd (os_Remove sys w1 (DevShmPath (seg_name g)))" by simp
    have "w' = w1 \<or> w' = w2"
      using d by (simp add: linux_destroy_def c g rm split: if_splits)
    then show ?thesis using linux_close_inv [OF assms(2) c(1)] os_Remove_inv w2 by metis
  next
    case Other
    then obtain e1 w1 where c: "other_close w s = Some (e1, w1)" "\<exists>n. w' = UnregisterTestSegment w1 n"
      using destroy by (auto simp: Segment_Destroy_def other_destroy_def bind_eq_Some_conv)
    then show ?thesis using other_close_inv [OF assms(2) c(1)] testSegments_inv
      by (auto simp: UnregisterTestSegment_def)
  qed
next
  case (borrow s)
  then obtain seg where s: "segments w s = Some seg"
      "w' = w\<lparr>segments := (segments w)(s \<mapsto> seg\<lparr>seg_backedByFile := False\<rparr>)\<rparr>"
    by (auto simp: Borrow_def bind_eq_Some_conv)
  show ?thesis unfolding s(2) by (rule change_segment_inv [OF assms(2) s(1)]) simp_all
next
  case (in_memory name sz s)
  then show ?thesis using in_memory_inv [OF assms(2)] by blast
next
  case (register name s)
  then show ?thesis using assms(2) testSegments_inv by (auto simp: RegisterTestSegment_def)
next
  case (unregister name)
  then show ?thesis using assms(2) testSegments_inv by (auto simp: UnregisterTestSegment_def)
next
  case (store_bytes v bs bs')
  then show ?thesis using view_store_inv [OF assms(2)] by blast
qed

lemma shm_reachable_inv: "shm_reachable p w \<Longrightarrow> world_inv p w"
proof (induction rule: shm_reachable.induct)
  case start
  show ?case by (simp add: world_inv_def ids_ok_def files_ok_def exclusive_def empty_world_def)
next
  case (step w w')
  then show ?case using shm_step_inv by blast
qed

text \<open>
  C14. No dangling memory: in every state reachable by creating, opening, closing, destroying,
  borrowing, registering and writing segments, in any order and whatever kernel calls fail, the slice
  that \<open>Data\<close> returns is nil or is mapped and has exactly \<open>Cap\<close> bytes; closing
  one handle never unmaps the memory of another.
\<close>

theorem segment_data_never_dangles:
  assumes "shm_reachable p w" "segments w s = Some seg" "seg_data seg = Some v"
  shows "\<exists>bs. view_bytes w (seg_data seg) = Some bs \<and> int (length bs) = seg_cap seg"
proof -
  obtain obj bs where "views w v = Some obj" "objects w obj = Some bs" "int (length bs) = seg_cap seg"
    using world_inv_data [OF shm_reachable_inv [OF assms(1)] assms(2,3)] by blast
  then show ?thesis using assms(3) by (simp add: view_bytes_def)
qed

section \<open>Creation, sharing and destruction on Linux\<close>

definition sys_all :: sys where
  \<comment> \<open>every kernel call succeeds, on the lengths it accepts\<close>
  "sys_all = \<lparr>sys_open_ok = (\<lambda>_. True), sys_truncate_ok = (\<lambda>n. 0 \<le> n), sys_stat_ok = True,
     sys_mmap_ok = (\<lambda>n. 0 < n), sys_munmap_ok = True, sys_remove_ok = (\<lambda>_. True)\<rparr>"

lemma create_success:
  assumes "linux_createSegment sys w name sz = (Inr s, w1)"
  shows "s = Suc (Suc (next_id w))" "files w (DevShmPath name) = None" "sys_truncate_ok sys sz" "sys_mmap_ok sys sz"
    "w1 = w\<lparr>files := (files w)(DevShmPath name \<mapsto> next_id w), next_id := Suc s,
      objects := (objects w)(next_id w \<mapsto> replicate (nat sz) 0),
      views := (views w)(Suc (next_id w) \<mapsto> next_id w),
      segments := (segments w)(s \<mapsto> \<lparr>seg_name = name, seg_data = Some (Suc (next_id w)), seg_cap = sz,
        seg_mapped = True, seg_backedByFile = True\<rparr>)\<rparr>"
  using assms by (auto simp: linux_createSegment_def Let_def split: if_splits)

text \<open>
  A segment is shared by its name: once it is created, a second creation of the name fails, an
  opener gets a handle of the same capacity, and whatever bytes either handle writes the other reads.
\<close>

lemma segment_shared_by_name:
  assumes "linux_createSegment sys w name sz = (Inr s, w1)" "0 \<le> sz"
    and "sys_open_ok sys' (DevShmPath name)" "sys_stat_ok sys'" "sys_mmap_ok sys' sz"
  shows "linux_createSegment sys'' w1 name sz' = (Inl ErrExist, w1) \<and>
    (\<exists>t w2 vs vt. linux_openSegment sys' w1 name = (Inr t, w2) \<and> s \<noteq> t \<and> vs \<noteq> vt \<and>
      Segment_Data w2 s = Some (Some vs) \<and> Segment_Data w2 t = Some (Some vt) \<and> Segment_Cap w2 t = Some sz \<and>
      view_bytes w2 (Some vt) = Some (replicate (nat sz) 0) \<and>
      (\<forall>bs. view_bytes (view_store w2 (Some vt) bs) (Some vs) = Some bs \<and>
            view_bytes (view_store w2 (Some vs) bs) (Some vt) = Some bs))"
proof -
  note c = create_success [OF assms(1)]
  show ?thesis using assms(2-5) unfolding c(5)
    by (simp add: linux_createSegment_def linux_openSegment_def Let_def Segment_Data_def Segment_Cap_def
        view_bytes_def view_store_def c(1))
qed

text \<open>
  A creation that fails leaves nothing behind: the file it made is removed again, and no mapping
  and no handle exist that did not exist before.
\<close>

lemma create_failure_clean:
  assumes "linux_createSegment sys w name sz = (Inl e, w1)" "sys_remove_ok sys (DevShmPath name)"
  shows "files w1 = files w \<and> views w1 = views w \<and> segments w1 = segments w"
  using assms by (auto simp: linux_createSegment_def os_Remove_def Let_def split: if_splits)

lemma os_Remove_ok:
  "sys_remove_ok sys path \<Longrightarrow> os_Remove sys w path =
    (if files w path = None then Some ErrNotExist else None, w\<lparr>files := (files w)(path := None)\<rparr>)"
proof -
  have "w\<lparr>files := (files w)(path := None)\<rparr> = w" if "files w path = None"
    using that by (simp add: fun_upd_idem)
  then show "sys_remove_ok sys path \<Longrightarrow> ?thesis" by (auto simp: os_Remove_def)
qed

text \<open>
  C35. \<open>Destroy\<close> on Linux, of an open handle that owns its mapping, where the kernel grants
  the unmapping and the unlinking: it unmaps the memory, so that a slice still held of it faults, sets
  the handle's data to nil, and unlinks the file exactly when the handle owns it; it is idempotent.
  Every other handle, of the same name or not, keeps its memory and its bytes, also after somebody
  creates the name anew; opening the destroyed name fails.
\<close>

theorem destroy_spares_other_handles:
  assumes reach: "shm_reachable Linux w" and s: "segments w s = Some seg" "seg_data seg = Some v" "seg_mapped seg"
    and sys: "sys_munmap_ok sys" "\<forall>path. sys_remove_ok sys path"
  defines "path \<equiv> DevShmPath (seg_name seg)"
  shows "\<exists>w'. linux_destroy sys w s = Some (None, w') \<and>
    files w' = (if seg_backedByFile seg then (files w)(path := None) else files w) \<and>
    views w' = (views w)(v := None) \<and> view_bytes w' (Some v) = None \<and>
    Segment_Data w' s = Some None \<and> linux_destroy sys w' s = Some (None, w') \<and>
    (seg_backedByFile seg \<longrightarrow> linux_openSegment sys w' (seg_name seg) = (Inl ErrNotExist, w')) \<and>
    (\<forall>t g. t \<noteq> s \<longrightarrow> segments w t = Some g \<longrightarrow> segments w' t = Some g \<and>
      view_bytes w' (seg_data g) = view_bytes w (seg_data g) \<and>
      (\<forall>sys' sz u w''. linux_createSegment sys' w' (seg_name seg) sz = (Inr u, w'') \<longrightarrow>
        view_bytes w'' (seg_data g) = view_bytes w (seg_data g)))"
proof -
  note inv = shm_reachable_inv [OF reach]
  define w1 where "w1 = w\<lparr>segments := (segments w)(s \<mapsto> seg\<lparr>seg_mapped := False, seg_data := None\<rparr>),
    views := (views w)(v := None)\<rparr>"
  define w' where "w' = (if seg_backedByFile seg then w1\<lparr>files := (files w)(path := None)\<rparr> else w1)"
  have close: "linux_close sys w s = Some (None, w1)" using s sys by (simp add: linux_close_def w1_def)
  have destroy: "linux_destroy sys w s = Some (None, w')"
    using sys by (simp add: linux_destroy_def close w1_def w'_def os_Remove_ok path_def errors_Join_def)
  have again: "linux_destroy sys w' s = Some (None, w')"
    using sys by (simp add: linux_destroy_def linux_close_def w1_def w'_def os_Remove_ok path_def errors_Join_def)
  have other: "segments w' t = Some g \<and> view_bytes w' (seg_data g) = view_bytes w (seg_data g) \<and>
      (\<forall>sys' sz u w''. linux_createSegment sys' w' (seg_name seg) sz = (Inr u, w'') \<longrightarrow>
        view_bytes w'' (seg_data g) = view_bytes w (seg_data g))" if t: "t \<noteq> s" "segments w t = Some g" for t g
  proof (cases "seg_data g")
    case None
    then show ?thesis using t by (simp add: w'_def w1_def view_bytes_def)
  next
    case (Some vt)
    have "owns seg v" using s by (simp add: owns_def)
    then have ne: "vt \<noteq> v" using inv s(1) t Some unfolding world_inv_def exclusive_def by blast
    obtain obj bs where o: "views w vt = Some obj" "objects w obj = Some bs"
      using world_inv_data [OF inv t(2) Some] by blast
    have lt: "vt < next_id w" "obj < next_id w"
      using world_inv_live(2) [OF inv t(2) Some] world_inv_fresh [OF inv, of obj] o(2) by (auto intro: leI ccontr)
    have "view_bytes w' (seg_data g) = Some bs" "view_bytes w (seg_data g) = Some bs"
      using o ne Some by (simp_all add: w'_def w1_def view_bytes_def)
    moreover have "view_bytes w'' (seg_data g) = Some bs"
      if "linux_createSegment sys' w' (seg_name seg) sz = (Inr u, w'')" for sys' sz u w''
      using create_success(5) [OF that] o ne Some lt by (simp add: w'_def w1_def view_bytes_def)
    ultimately show ?thesis using t by (simp add: w'_def w1_def)
  qed
  have "linux_openSegment sys w' (seg_name seg) = (Inl ErrNotExist, w')" if "seg_backedByFile seg"
    using that by (simp add: linux_openSegment_def w'_def w1_def path_def)
  then show ?thesis using destroy again other by (auto simp: w'_def w1_def Segment_Data_def view_bytes_def)
qed

section \<open>A concrete segment\<close>

definition demo_world :: world where
  "demo_world = snd (linux_createSegment sys_all empty_world [97] 3)"

definition demo_segment :: segment where
  "demo_segment = \<lparr>seg_name = [97], seg_data = Some 1, seg_cap = 3, seg_mapped = True, seg_backedByFile = True\<rparr>"

lemma demo_create: "linux_createSegment sys_all empty_world [97] 3 = (Inr 2, demo_world)"
  by (simp add: demo_world_def linux_createSegment_def sys_all_def empty_world_def Let_def)

lemma demo_world_facts: "segments demo_world 2 = Some demo_segment" "shm_reachable Linux demo_world"
proof -
  show "segments demo_world 2 = Some demo_segment"
    unfolding create_success(5) [OF demo_create] by (simp add: demo_segment_def empty_world_def)
  have "sys_sane sys_all" by (simp add: sys_sane_def sys_all_def)
  then have "shm_step Linux empty_world demo_world"
    by (rule shm_step.create [where name = "[97]" and sz = 3]) (simp add: CreateSegment_def demo_create)
  with shm_reachable.start show "shm_reachable Linux demo_world" by (rule shm_reachable.step)
qed

theorem segment_data_never_dangles_witness:
  "\<exists>bs. view_bytes demo_world (seg_data demo_segment) = Some bs \<and> int (length bs) = 3"
  using segment_data_never_dangles [OF demo_world_facts(2,1), of 1] by (simp add: demo_segment_def)

theorem destroy_spares_other_handles_witness:
  "\<exists>w'. linux_destroy sys_all demo_world 2 = Some (None, w') \<and>
    linux_openSegment sys_all w' [97] = (Inl ErrNotExist, w')"
  using destroy_spares_other_handles [OF demo_world_facts(2,1), of 1 sys_all]
  by (auto simp: demo_segment_def sys_all_def)

end
