(* ===== verification/Handshake.thy ===== *)
theory Handshake
  imports Reader Server Loader_Segment Shm_Props
begin

text \<open>
  The control plane end to end: what the server writes for a request, and what a reader that dials this
  server makes of it. The peer of the dial is the server itself, run on the bytes the reader sent.
\<close>

section \<open>What the server answers\<close>

definition server_answer :: "bytes \<Rightarrow> server \<Rightarrow> byte \<Rightarrow> response" where
  \<comment> \<open>the answer over a segment with these bytes\<close>
  "server_answer data s op =
    (if op = OpGetInfo \<or> op = OpGetStatus then
       \<lparr>resp_Status = (if sv_state s \<in> {StateLoading, StateUpdating} then RespBusy else RespOK),
        resp_SegmentName = sv_segmentName s, resp_SegmentSize = hdr_Size (header_at data),
        resp_HashOffset = hdr_HashOffset (header_at data), resp_HashCap = hdr_HashCap (header_at data),
        resp_DataOffset = hdr_DataOffset (header_at data), resp_GenCounter = hdr_GenCounter (header_at data),
        resp_State = sv_state s\<rparr>
     else error_response)"

definition serves :: "world \<Rightarrow> server \<Rightarrow> bytes \<Rightarrow> bool" where
  "serves w s data \<longleftrightarrow>
    (\<exists>v. Segment_Data w (sv_seg s) = Some v \<and> view_bytes w v = Some data) \<and> 64 \<le> length data"

lemma handleGetInfo_answer:
  "serves w s data \<Longrightarrow> handleGetInfo w s = Some (server_answer data s OpGetInfo)"
  by (auto simp: serves_def handleGetInfo_def segmentResponse_def server_answer_def statusForState_def
      Server_State_def)

lemma handleConn_answer:
  assumes "serves w s data" "conn_in c = request_bytes req @ rest" "conn_write_ok c"
  shows "handleConn w s c = Some (c\<lparr>conn_in := rest,
    conn_out := conn_out c @ response_bytes (server_answer data s (req_Op req)), conn_closed := True\<rparr>)"
proof -
  define req' where "req' = req\<lparr>req_Key := take 65535 (req_Key req)\<rparr>"
  have dec: "DecodeRequest (conn_in c) = (Inr req', rest)"
    by (simp add: assms(2) DecodeRequest_bytes req'_def)
  have same: "req_Op req' = req_Op req" by (simp add: req'_def)
  have op: "(if req_Op req = OpGetInfo then handleGetInfo w s
      else if req_Op req = OpGetStatus then handleGetStatus w s else Some error_response) =
      Some (server_answer data s (req_Op req))"
    using handleGetInfo_answer [OF assms(1)] by (simp add: handleGetStatus_def server_answer_def)
  show ?thesis
    unfolding handleConn_def dec prod.case sum.case same op using assms(3)
    by (simp add: EncodeResponse_def conn_write_def response_header_eq)
qed

text \<open>
  C32. The server answers every well-formed request with exactly one response of 97 bytes and closes the
  connection: the header's metadata with the loader's state for GET_INFO and GET_STATUS, busy exactly
  while the loader loads or updates, and an error status for every other operation. A broken request
  gets no answer, and the connection is closed as well.
\<close>

theorem handleConn_answers:
  assumes "serves w s data" "conn_write_ok c" "\<not> conn_closed c"
  shows "(conn_in c = request_bytes req @ rest \<longrightarrow>
      (\<exists>c' out. handleConn w s c = Some c' \<and> conn_closed c' \<and> conn_in c' = rest \<and>
        conn_out c' = conn_out c @ out \<and> length out = RespHeaderLen \<and>
        out = response_bytes (server_answer data s (req_Op req)))) \<and>
    (\<forall>e r. DecodeRequest (conn_in c) = (Inl e, r) \<longrightarrow>
      (\<exists>c'. handleConn w s c = Some c' \<and> conn_closed c' \<and> conn_out c' = conn_out c))"
  using handleConn_answer [OF assms(1) _ assms(2), of req rest]
  by (auto simp: handleConn_def intro!: exI)

section \<open>The reader's side\<close>

definition fresh_conn :: "bytes \<Rightarrow> conn" where
  "fresh_conn sent = \<lparr>conn_in = sent, conn_out = [], conn_write_ok = True, conn_closed = False\<rparr>"

definition peer_of :: "world \<Rightarrow> server \<Rightarrow> bytes \<Rightarrow> bytes" where
  \<comment> \<open>what a client reads that sent these bytes to the server\<close>
  "peer_of w s sent = (case handleConn w s (fresh_conn sent) of None \<Rightarrow> [] | Some c \<Rightarrow> conn_out c)"

definition dials :: "net \<Rightarrow> go_string \<Rightarrow> world \<Rightarrow> server \<Rightarrow> bool" where
  "dials net addr w s \<longleftrightarrow> net_dial net addr = Some (peer_of w s) \<and> net_write net = buffer"

lemma connect_server:
  assumes "dials net addr w s" "serves w s data"
  defines "resp \<equiv> (server_answer data s OpGetInfo)\<lparr>resp_SegmentName := decoded_name (sv_segmentName s)\<rparr>"
  shows "EncodeRequest (net_write net) [] \<lparr>req_Op = OpGetInfo, req_Key = []\<rparr> =
      (None, request_bytes \<lparr>req_Op = OpGetInfo, req_Key = []\<rparr>)"
    "DecodeResponse (peer_of w s (request_bytes \<lparr>req_Op = OpGetInfo, req_Key = []\<rparr>)) = (Inr resp, [])"
proof -
  let ?req = "\<lparr>req_Op = OpGetInfo, req_Key = []\<rparr>"
  show "EncodeRequest (net_write net) [] ?req = (None, request_bytes ?req)"
    using assms(1) EncodeRequest_buffer [of "[]" ?req] by (simp add: dials_def)
  have "handleConn w s (fresh_conn (request_bytes ?req)) =
      Some (fresh_conn (request_bytes ?req)\<lparr>conn_in := [],
        conn_out := response_bytes (server_answer data s OpGetInfo), conn_closed := True\<rparr>)"
    using handleConn_answer [OF assms(2), of "fresh_conn (request_bytes ?req)" ?req "[]"]
    by (simp add: fresh_conn_def)
  then have p: "peer_of w s (request_bytes ?req) = response_bytes (server_answer data s OpGetInfo)"
    by (simp add: peer_of_def)
  have "resp_SegmentName (server_answer data s OpGetInfo) = sv_segmentName s" by (simp add: server_answer_def)
  then show "DecodeResponse (peer_of w s (request_bytes ?req)) = (Inr resp, [])"
    using DecodeResponse_bytes [of "server_answer data s OpGetInfo" "[]"] unfolding p resp_def by simp
qed

lemma connect_outcome:
  assumes "dials net addr w s" "serves w s data"
  defines "name \<equiv> decoded_name (sv_segmentName s)"
  shows "connect pkgSeed p sys net w r addr wantName =
    (if sv_state s \<in> {StateLoading, StateUpdating} then Some (Some (ErrLoaderBusy (sv_state s)), r, ConnClosed, w)
     else if wantName \<noteq> [] \<and> name \<noteq> [] \<and> wantName \<noteq> name then
       Some (Some (ErrNameMismatch wantName name), r, ConnClosed, w)
     else let segName = (if name = [] then wantName else name)
          in if segName = [] then Some (Some ErrEmptyName, r, ConnClosed, w)
             else case OpenSegment p sys w segName of
                 (None, w) \<Rightarrow> None
               | (Some (Inl e), w) \<Rightarrow> Some (Some e, r, ConnClosed, w)
               | (Some (Inr seg), w) \<Rightarrow>
                   do { r \<leftarrow> initHashTable pkgSeed w (r\<lparr>r_conn := ConnOpen, r_segment := Some seg\<rparr>);
                        Some (None, r, ConnOpen, w) })"
proof -
  define resp where "resp = (server_answer data s OpGetInfo)\<lparr>resp_SegmentName := decoded_name (sv_segmentName s)\<rparr>"
  note c = connect_server [OF assms(1,2), folded resp_def]
  have dial: "net_dial net addr = Some (peer_of w s)" using assms(1) by (simp add: dials_def)
  have f: "resp_Status resp = (if sv_state s \<in> {StateLoading, StateUpdating} then RespBusy else RespOK)"
      "resp_SegmentName resp = name" "resp_State resp = sv_state s"
    by (simp_all add: resp_def server_answer_def name_def)
  show ?thesis
    unfolding connect_def dial option.case c prod.case sum.case f
    by (cases "sv_state s \<in> {StateLoading, StateUpdating}") simp_all
qed

text \<open>
  C12. The handshake: a reader that dials a server whose segment name is not empty, at most 64 bytes
  long and does not end in NUL is turned away as busy while the loader loads or updates, and refused
  when it asks for another name. Otherwise it opens the segment of this name, and stands exactly where a
  reader stands that opened the name without the server, apart from the connection, which stays open.
\<close>

theorem connect_handshake:
  assumes net: "dials net addr w s" "serves w s data"
    and name: "sv_segmentName s = name" "name \<noteq> []" "length name \<le> 64" "last name \<noteq> 0"
    and addr: "addr \<noteq> []"
  shows "(sv_state s \<in> {StateLoading, StateUpdating} \<longrightarrow>
      connect pkgSeed p sys net w r addr want = Some (Some (ErrLoaderBusy (sv_state s)), r, ConnClosed, w)) \<and>
    (sv_state s \<notin> {StateLoading, StateUpdating} \<longrightarrow> want \<notin> {[], name} \<longrightarrow>
      connect pkgSeed p sys net w r addr want = Some (Some (ErrNameMismatch want name), r, ConnClosed, w)) \<and>
    (sv_state s \<notin> {StateLoading, StateUpdating} \<longrightarrow> want \<in> {[], name} \<longrightarrow>
      NewReader pkgSeed p sys net w want addr =
        map_option (\<lambda>(x, w'). (map_sum id (\<lambda>r. r\<lparr>r_conn := ConnOpen\<rparr>) x, w'))
          (NewReader pkgSeed p sys net w name []))"
proof -
  have dn: "decoded_name (sv_segmentName s) = name" using decoded_name_id [OF name(2-4)] name(1) by simp
  note out = connect_outcome [OF net, of pkgSeed p sys, unfolded dn]
  have init: "initHashTable pkgSeed w' (q\<lparr>r_conn := ConnOpen, r_segment := Some t\<rparr>) =
      map_option (\<lambda>r. r\<lparr>r_conn := ConnOpen\<rparr>) (initHashTable pkgSeed w' (q\<lparr>r_segment := Some t\<rparr>))" for w' q t
    by (simp add: initHashTable_def split: option.split bind_splits)
  have "NewReader pkgSeed p sys net w want addr =
        map_option (\<lambda>(x, w'). (map_sum id (\<lambda>r. r\<lparr>r_conn := ConnOpen\<rparr>) x, w'))
          (NewReader pkgSeed p sys net w name [])"
    if "sv_state s \<notin> {StateLoading, StateUpdating}" "want \<in> {[], name}"
    using that addr name(2) init unfolding NewReader_def out
    by (auto split: option.split sum.split prod.split bind_splits)
  then show ?thesis using out name(2) by auto
qed

text \<open>
  Connections do not leak: whatever the peer answers, when \<open>connect\<close> fails the connection it dialed
  is closed and the reader is unchanged; when it succeeds the connection is kept open until the reader
  is closed, and closing the reader closes it, once.
\<close>

lemma connect_releases_connection:
  assumes "connect pkgSeed p sys net w r addr want = Some (e, r', c, w')"
  shows "(e \<noteq> None \<longrightarrow> c \<noteq> ConnOpen \<and> r' = r) \<and>
    (e = None \<longrightarrow> c = ConnOpen \<and> r_conn r' = ConnOpen \<and> r_closed r' = r_closed r) \<and>
    (\<forall>w1 e1 r1 w2. \<not> r_closed r' \<longrightarrow> Reader_Close p sys w1 r' = Some (e1, r1, w2) \<longrightarrow>
      r_conn r1 \<noteq> ConnOpen \<and> Reader_Close p sys w2 r1 = Some (None, r1, w2))"
proof -
  have "(e \<noteq> None \<longrightarrow> c \<noteq> ConnOpen \<and> r' = r) \<and>
    (e = None \<longrightarrow> c = ConnOpen \<and> r_conn r' = ConnOpen \<and> r_closed r' = r_closed r)"
    using assms unfolding connect_def
    by (auto simp: Let_def initHashTable_def bind_eq_Some_conv
        split: option.splits sum.splits prod.splits if_splits)
  then show ?thesis by (auto simp: Reader_Close_def Let_def bind_eq_Some_conv)
qed

text \<open>
  A server whose segment has no name: \<open>DecodeResponse\<close> does not trim a field of nothing but NULs, so
  the reader never sees an empty name. A reader that asks for a name is refused with a mismatch, one
  that asks for none tries to open a name of 64 NULs; the two branches that handle an empty name, the
  fallback to the wanted name and the error for no name, are never taken.
\<close>

lemma connect_nameless_server:
  assumes "dials net addr w s" "serves w s data" "sv_segmentName s = []"
    and "sv_state s \<notin> {StateLoading, StateUpdating}"
  shows "(want \<noteq> [] \<and> want \<noteq> replicate 64 0 \<longrightarrow> connect pkgSeed p sys net w r addr want =
      Some (Some (ErrNameMismatch want (replicate 64 0)), r, ConnClosed, w)) \<and>
    (\<forall>r' c w'. connect pkgSeed Linux sys net w r addr [] \<noteq> Some (Some ErrEmptyName, r', c, w'))"
proof -
  have dn: "decoded_name (sv_segmentName s) = replicate 64 0" "(replicate 64 0 :: bytes) \<noteq> []"
    unfolding assms(3) decoded_name_def by (simp_all del: replicate.simps)
  note out = connect_outcome [OF assms(1,2), of pkgSeed, unfolded dn(1)]
  have "linux_openSegment sys w n \<noteq> (Inl ErrEmptyName, x)" for n x
    by (simp add: linux_openSegment_def Let_def split: option.split)
  then show ?thesis using dn(2) assms(4) unfolding out
    by (auto simp: OpenSegment_def bind_eq_Some_conv simp del: replicate.simps
        split: option.split sum.split prod.split bind_splits)
qed

section \<open>A concrete server\<close>

definition hs_world :: world where
  "hs_world = snd (linux_createSegment sys_all empty_world [97] 64)"

lemma hs_create: "linux_createSegment sys_all empty_world [97] 64 = (Inr 2, hs_world)"
  by (simp add: hs_world_def linux_createSegment_def sys_all_def empty_world_def Let_def)

definition hs_net :: "server \<Rightarrow> net" where
  "hs_net s = \<lparr>net_dial = (\<lambda>_. Some (peer_of hs_world s)), net_write = buffer\<rparr>"

lemma hs_serves: "sv_seg s = 2 \<Longrightarrow> serves hs_world s (replicate 64 0)"
  using create_live(1) [OF hs_create]
  by (simp add: serves_def live_def view_bytes_def empty_world_def del: replicate.simps)

lemma hs_dials: "dials (hs_net s) addr hs_world s"
  by (simp add: dials_def hs_net_def)

theorem handleConn_answers_witness:
  "\<exists>c' out. handleConn hs_world (new_server [97] 64 [0] 2)
      (fresh_conn (request_bytes \<lparr>req_Op = OpGetStatus, req_Key = []\<rparr> @ [])) = Some c' \<and>
    conn_closed c' \<and> conn_out c' = out \<and> length out = 97"
  using handleConn_answers [OF hs_serves [of "new_server [97] 64 [0] 2"],
      of "fresh_conn (request_bytes \<lparr>req_Op = OpGetStatus, req_Key = []\<rparr> @ [])" "\<lparr>req_Op = OpGetStatus, req_Key = []\<rparr>" "[]"]
  by (auto simp: new_server_def fresh_conn_def)

theorem connect_handshake_witness:
  "connect 77 Linux sys_all (hs_net (SetState (new_server [97] 64 [0] 2) StateLoading)) hs_world nil_reader [0] [] =
    Some (Some (ErrLoaderBusy 1), nil_reader, ConnClosed, hs_world)"
  using connect_handshake [OF hs_dials hs_serves, of "SetState (new_server [97] 64 [0] 2) StateLoading" "[97]" "[0]"
      77 Linux sys_all nil_reader "[]"]
  by (simp add: SetState_def new_server_def)

end
