(* ===== verification/Loader_Props.thy ===== *)
theory Loader_Props
  imports Loader Store
begin

text \<open>
  Correctness of the writer, as a refinement: the abstract store is a map, the number of slots in use
  and the end of the data; \<open>abs_put\<close> says what a put does to it. \<open>Loader_put\<close> simulates \<open>abs_put\<close>,
  \<open>Init\<close> establishes the empty store, and \<open>Load\<close> over any source that delivers a list of entries
  simulates \<open>abs_load\<close> over that list. What loading promises is then proved on the abstract side.
\<close>

section \<open>The abstract store\<close>

record abs_store =
  as_map :: "bytes \<rightharpoonup> bytes"
  as_used :: nat
  as_end :: nat

definition abs_put :: "nat \<Rightarrow> nat \<Rightarrow> bytes \<Rightarrow> bytes \<Rightarrow> abs_store \<Rightarrow> error option \<times> abs_store" where
  \<comment> \<open>the first value put for a key stays; space is taken even by a put that fails\<close>
  "abs_put cap bnd key value S =
    (let e = as_end S + 4 + length key + length value; S' = S\<lparr>as_end := e\<rparr>
     in if bnd < e then (Some ErrDataRegionFull, S')
        else if as_used S = cap then (Some errHashFull, S')
        else (None, S'\<lparr>as_map := [key \<mapsto> value] ++ as_map S, as_used := Suc (as_used S)\<rparr>))"

definition abs_of :: "hash_table \<Rightarrow> loader \<Rightarrow> bytes \<Rightarrow> abs_store" where
  "abs_of ht l data =
    \<lparr>as_map = stored ht data, as_used = used_count ht data, as_end = unat (l_dataEnd l)\<rparr>"

definition loader_inv :: "hash_table \<Rightarrow> loader \<Rightarrow> bytes \<Rightarrow> bool" where
  "loader_inv ht l data \<longleftrightarrow> l_hashTable l = Some ht \<and> store_inv ht (unat (l_dataEnd l)) data"

section \<open>put\<close>

lemma sint_small: "unat (w :: u32) < 2 ^ 31 \<Longrightarrow> sint w = int (unat w)"
proof -
  assume "unat w < 2 ^ 31"
  then have "int (unat w) < 2 ^ 31" by (metis of_nat_less_iff of_nat_numeral of_nat_power)
  then show ?thesis using sint_of_int_small [of "int (unat w)", where 'a = 32] by simp
qed

lemma Loader_put_eq:
  assumes inv: "loader_inv ht l data" and room: "unat (l_dataEnd l) + 4 + length key + length value < 2 ^ 31"
  defines "e \<equiv> unat (l_dataEnd l)" and "l' \<equiv> l\<lparr>l_dataEnd := of_nat (unat (l_dataEnd l) + 4 + length key + length value)\<rparr>"
    and "h \<equiv> HashKeyWithSeed key (stored_seed data)" and "d1 \<equiv> wr (unat (l_dataEnd l)) (chunk key value) data"
  shows "Loader_put pkgSeed l data key value =
    (if length data < e + 4 + length key + length value then Some (Some ErrDataRegionFull, l', data)
     else case free_walk ht d1 h of
         None \<Rightarrow> Some (Some errHashFull, l', d1)
       | Some j \<Rightarrow> Some (None, l', put_memory ht e data key value j))"
proof -
  have ht: "l_hashTable l = Some ht" and st: "store_inv ht e data"
    using inv by (auto simp: loader_inv_def e_def)
  note d = store_invD [OF st]
  define n where "n = 4 + int (length key) + int (length value)"
  have end1: "l_dataEnd l + word_of_int n = of_nat (e + 4 + length key + length value)"
    by (simp add: n_def e_def)
  have off: "l_dataEnd l + word_of_int n - word_of_int n = l_dataEnd l" by simp
  have abs: "sint (l_dataEnd l) = int e" unfolding e_def using room by (intro sint_small) simp
  have l': "l\<lparr>l_dataEnd := l_dataEnd l + word_of_int n\<rparr> = l'"
    unfolding end1 l'_def e_def ..
  show ?thesis
  proof (cases "length data < e + 4 + length key + length value")
    case True
    then have "int e + n > int (length data)" by (simp add: n_def)
    with True show ?thesis
      unfolding Loader_put_def Let_def n_def [symmetric] off abs l' by simp
  next
    case False
    then have le: "\<not> int e + n > int (length data)" "e + length (chunk key value) \<le> length data"
      by (simp_all add: n_def)
    have w: "store_inv ht (e + length (chunk key value)) d1" "header_at d1 = header_at data"
      using store_inv_write [OF st le(2)] by (simp_all add: d1_def e_def)
    have len: "length d1 = length data" "64 \<le> length data"
      using le(2) d(6,8) by (simp_all add: d1_def e_def)
    have hash: "HashKeyWithSeed key (headerHashSeed pkgSeed (header_at d1)) = h"
      by (simp add: w(2) h_def headerHashSeed_stored [OF d(4)])
    have "hdr_DataOffset (header_at data) = word_of_int (int (data_base ht))"
      unfolding dataBase_int [OF d(2), symmetric] d(9) [symmetric] by simp
    then have rel: "word_of_int (int e) - hdr_DataOffset (header_at d1) = of_nat (e - data_base ht)"
      using d(6) by (simp add: w(2) of_nat_diff)
    note wf1 = store_invD(2) [OF w(1)]
    have chunk: "do { data \<leftarrow> put_u32 data (int e) (word_of_int (int (length key)));
              data \<leftarrow> copy_at data (int e + 4) key;
              data \<leftarrow> copy_at data (int e + 4 + int (length key)) value;
              f data } = f d1" for f :: "bytes \<Rightarrow> (error option \<times> loader \<times> bytes) option"
      using write_chunk [OF le(2), of f] by (simp add: d1_def e_def)
    have fits: "\<not> length data < e + 4 + length key + length value" using False .
    have mem: "put_memory ht e data key value j = fill_slot ht d1 j h (of_nat (e - data_base ht))
        (word_of_int (int (length value)))" for j
      by (simp add: put_memory_def d1_def e_def h_def)
    show ?thesis
      unfolding Loader_put_def Let_def n_def [symmetric] off abs l' chunk if_not_P [OF le(1)] if_not_P [OF fits]
      using len by (simp add: hash rel Insert_walk [OF wf1] insert_result_def mem l'_def ht
          del: of_int_of_nat_eq split: option.split)
  qed
qed

lemma put_refines:
  assumes inv: "loader_inv ht l data" and room: "unat (l_dataEnd l) + 4 + length key + length value < 2 ^ 31"
  shows "\<exists>err l' data'. Loader_put pkgSeed l data key value = Some (err, l', data') \<and>
    loader_inv ht l' data' \<and> length data' = length data \<and> header_at data' = header_at data \<and>
    (err, abs_of ht l' data') = abs_put (ncap ht) (length data) key value (abs_of ht l data)"
proof -
  define e where "e = unat (l_dataEnd l)"
  define e' where "e' = e + 4 + length key + length value"
  define l' where "l' = l\<lparr>l_dataEnd := of_nat e'\<rparr>"
  define d1 where "d1 = wr e (chunk key value) data"
  define h where "h = HashKeyWithSeed key (stored_seed data)"
  note put = Loader_put_eq [OF inv room, of pkgSeed, folded e_def e'_def, folded l'_def d1_def h_def]
  have st: "store_inv ht e data" and ht: "l_hashTable l = Some ht"
    using inv by (auto simp: loader_inv_def e_def)
  have small: "e' < 2 ^ 31" using room by (simp add: e'_def e_def)
  then have u: "unat (of_nat e' :: u32) = e'" by (intro unat_of_nat_small) simp
  with small ht have e': "unat (l_dataEnd l') = e'" "l_hashTable l' = Some ht" "e' < 2 ^ 31"
    by (simp_all add: l'_def)
  show ?thesis
  proof (cases "length data < e'")
    case True
    have "store_inv ht e' data" by (rule store_inv_mono [OF st]) (use e' in \<open>simp_all add: e'_def\<close>)
    then show ?thesis using put True e' u ht
      by (simp add: loader_inv_def abs_of_def abs_put_def e_def [symmetric] e'_def [symmetric])
  next
    case False
    then have fits: "e + length (chunk key value) \<le> length data" and ee: "e + length (chunk key value) = e'"
      by (simp_all add: e'_def)
    note w = store_inv_write [OF st fits, unfolded ee, folded d1_def]
    have len: "length d1 = length data" using fits by (simp add: d1_def)
    have used: "used_count ht d1 = used_count ht data" by (rule used_count_cong [OF w(4)])
    show ?thesis
    proof (cases "free_walk ht d1 h")
      case None
      then have "used_count ht data = ncap ht" using store_full [OF w(1), of h] used by simp
      moreover have "stored ht d1 = stored ht data" by (rule ext) (rule w(3))
      ultimately show ?thesis using put False None w(1,5) e' u ht len
        by (simp add: loader_inv_def abs_of_def abs_put_def used e_def [symmetric] e'_def [symmetric])
    next
      case (Some j)
      then have "used_count ht data \<noteq> ncap ht" using store_full [OF w(1), of h] used by auto
      moreover note p = put_memory_store [OF st fits, of j, folded d1_def h_def, unfolded ee, OF Some]
      ultimately show ?thesis using put False Some e' u ht
        by (simp add: loader_inv_def abs_of_def abs_put_def e_def [symmetric] e'_def [symmetric])
    qed
  qed
qed

text \<open>
  C15. \<open>put\<close> refines the abstract put: as long as the data end stays below
  \<open>2^31\<close> it never panics, it returns the error the abstract put returns, keeps the
  invariant of the segment and the header, and what a reader can look up afterwards is the abstract map.
  In particular a key that is already present keeps its value, a full table leaves the content alone,
  and a chunk that does not fit writes nothing but still moves the data end.
\<close>

theorem Loader_put_refines:
  assumes inv: "loader_inv ht l data" and room: "unat (l_dataEnd l) + 4 + length key + length value < 2 ^ 31"
  shows "\<exists>err l' data'. Loader_put pkgSeed l data key value = Some (err, l', data') \<and>
    loader_inv ht l' data' \<and> length data' = length data \<and> header_at data' = header_at data \<and>
    (err, abs_of ht l' data') = abs_put (ncap ht) (length data) key value (abs_of ht l data)"
  by (rule put_refines [OF assms])

section \<open>Init\<close>

lemma slots_for_pow2:
  assumes "n \<le> 2 ^ 26"
  obtains k where "k \<le> 27" "unat (slots_for (int n)) = 2 ^ k" "2 * n \<le> 2 ^ k" "\<forall>j<k. 2 ^ j < 2 * n"
proof -
  define v where "v = (word_of_int (int n) * 2 :: u32)"
  have v: "unat v = 2 * n"
    using assms unat_of_nat_small [of "2 * n", where 'a = 32] by (simp add: v_def mult.commute)
  show thesis
  proof (cases v rule: NextPow2_cases)
    case small
    then have "unat (slots_for (int n)) = 2 ^ 0" unfolding slots_for_def v_def [symmetric] by simp
    with small that [of 0] v show thesis by simp
  next
    case (pow m)
    have "m < 27"
    proof (rule ccontr)
      assume "\<not> m < 27"
      then have "(2::nat) ^ 27 \<le> 2 ^ m" by (intro power_increasing) auto
      with pow(4) v assms show False by simp
    qed
    moreover have "unat (2 ^ Suc m :: u32) = 2 ^ Suc m" using \<open>m < 27\<close> by (subst unat_exp) auto
    moreover have "2 ^ j < 2 * n" if "j < Suc m" for j
      using pow(4) v that by (metis less_Suc_eq_le le_less_trans one_le_numeral power_increasing)
    ultimately show thesis using pow(3,5) v that [of "Suc m"]
      unfolding slots_for_def v_def [symmetric] by (simp del: power_Suc)
  qed
qed

lemma data_offset_for_eq:
  assumes "unat c = 2 ^ k" "k \<le> 27"
  shows "uint (data_offset_for c) = 64 + 24 * 2 ^ k"
proof -
  have "(2::nat) ^ k \<le> 2 ^ 27" using assms(2) by (intro power_increasing) auto
  then have small: "64 + 24 * 2 ^ k < (2::nat) ^ 32" "64 + 24 * 2 ^ k + 8 \<le> (2::nat) ^ 32" by simp_all
  define v where "v = (word_of_int HeaderSize + word_of_int (uint c * SlotSize) :: u32)"
  have "uint c = int (2 ^ k)" using assms(1) by (simp add: uint_nat del: of_nat_unat)
  then have "v = of_nat (64 + 24 * 2 ^ k)" by (simp add: v_def mult.commute)
  moreover have "unat (of_nat (64 + 24 * 2 ^ k) :: u32) = 64 + 24 * 2 ^ k"
    by (rule unat_of_nat_small) (use small(1) in simp)
  ultimately have v: "unat v = 64 + 24 * 2 ^ k" by (simp only:)
  have "unat (Align v (2 ^ 3)) = (unat v + 2 ^ 3 - 1) div 2 ^ 3 * 2 ^ 3"
    using small(2) by (intro unat_Align) (simp_all add: v)
  also have "(71 + 24 * x) div 8 * 8 = 64 + 24 * x" for x :: nat by presburger
  then have "(unat v + 2 ^ 3 - 1) div 2 ^ 3 * 2 ^ 3 = 64 + 24 * 2 ^ k" unfolding v by simp
  finally have "unat (data_offset_for c) = 64 + 24 * 2 ^ k" by (simp add: data_offset_for_def v_def)
  then show ?thesis by (simp add: uint_nat del: of_nat_unat)
qed

definition init_header :: "nat \<Rightarrow> nat \<Rightarrow> u64 \<Rightarrow> header \<Rightarrow> header" where
  \<comment> \<open>the header of a fresh segment of \<open>sz\<close> bytes and \<open>cap\<close> slots\<close>
  "init_header sz cap seed hdr =
    \<lparr>hdr_Magic = Magic, hdr_Version = Version, hdr_Size = of_nat sz, hdr_GenCounter = 0,
     hdr_HashCap = of_nat cap, hdr_HashOffset = 64, hdr_DataOffset = of_nat (64 + 24 * cap),
     hdr_DataEnd = of_nat (64 + 24 * cap), hdr_SegmentID = 0, hdr_Flags = 0,
     hdr_Reserved = wr 0 (le_bytes 8 seed) (hdr_Reserved hdr)\<rparr>"

lemma word_of_unat: "unat (w :: 'a::len word) = n \<Longrightarrow> w = of_nat n"
  by auto

lemma fresh_store:
  assumes "64 + 24 * 2 ^ k \<le> length data" "length data < 2 ^ 31" "seed \<noteq> 0"
  defines "c \<equiv> (2::nat) ^ k"
  defines "ht \<equiv> NewHashTable 64 (int (64 + 24 * c)) (int c)"
  defines "data' \<equiv> wr 64 (replicate (24 * c) 0) (set_header data (init_header (length data) c seed (header_at data)))"
  shows "store_inv ht (64 + 24 * c) data'" "stored ht data' = Map.empty" "used_count ht data' = 0"
    "header_at data' = init_header (length data) c seed (header_at data)" "length data' = length data"
    "ncap ht = c" "data_base ht = 64 + 24 * c" "stored_seed data' = seed" "i < c \<Longrightarrow> Hash (slot_at ht data' i) = 0"
proof -
  let ?hdr = "init_header (length data) c seed (header_at data)"
  have ok: "header_ok ?hdr" using assms(1) by (simp add: header_ok_def init_header_def header_at_def)
  have L: "64 + 24 * c \<le> length data" using assms(1) by (simp add: c_def)
  have sl: "length (set_header data ?hdr) = length data" using ok L by simp
  show len: "length data' = length data" using L by (simp add: data'_def sl)
  show hdr: "header_at data' = ?hdr"
    using ok L by (simp add: data'_def sl header_at_wr)
  show cap: "ncap ht = c" and base: "data_base ht = 64 + 24 * c"
    by (simp_all add: ht_def NewHashTable_def ncap_def data_base_def)
  have "int (64 + 24 * c) \<le> int (length data)" using L by (simp only: of_nat_le_iff)
  then have wf: "ht_wf ht data'" using len by (auto simp: ht_wf_def ht_def NewHashTable_def c_def)
  have slots: "slot_at ht data' i = \<lparr>Hash = 0, Offset = 0, VLen = 0, Status = 0\<rparr>" if "i < c" for i
    unfolding data'_def by (rule fresh_slots [OF that]) (use L sl in \<open>simp_all add: ht_def NewHashTable_def\<close>)
  then show "i < c \<Longrightarrow> Hash (slot_at ht data' i) = 0" by simp
  from slots have unused: "\<not> slot_used ht data' i" if "i < ncap ht" for i
    using that by (simp add: slot_used_def cap)
  have small: "64 + 24 * c < (2::nat) ^ 32" "c < (2::nat) ^ 32" using L assms(2) by simp_all
  have "length (hdr_Reserved (header_at data)) = 16" using L by (simp add: header_at_def)
  then show seed: "stored_seed data' = seed"
    unfolding stored_seed_def hdr by (simp add: init_header_def)
  have u: "uint (of_nat (64 + 24 * c) :: u32) = int (64 + 24 * c)" "uint (of_nat c :: u32) = int c"
    unfolding uint_nat by (subst unat_of_nat_small; use small in simp)+
  have "layout ht data'"
    unfolding layout_def using wf unused assms(2,3) len u
    by (auto simp: table_inv_def probe_inv_def seed hdr init_header_def ht_def NewHashTable_def)
  moreover have "no_tombs ht data'" using slots by (simp add: no_tombs_def cap)
  ultimately show "store_inv ht (64 + 24 * c) data'"
    using slots L assms(2) by (simp add: store_inv_def base cap)
  show "used_count ht data' = 0" using unused by (simp add: used_count_def)
  have "lookup ht data' h key = None" for h key
    using unused by (auto simp: lookup_None first_hit_None [OF wf] slot_hit_def)
  then show "stored ht data' = Map.empty" by (intro ext) (simp add: stored_def)
qed

lemma Loader_Init_run:
  assumes cap: "unat (slots_for n) = 2 ^ k" "k \<le> 27"
    and rng: "randSeed rng = Some (seed, rng')"
  defines "D \<equiv> 64 + 24 * (2::nat) ^ k"
  shows "Loader_Init rng (int (length data)) l data n =
    (if length data \<le> D then Some (Some ErrSegmentTooSmall, l, data, rng)
     else Some (None, l\<lparr>l_hashTable := Some (NewHashTable 64 (int D) (int (2 ^ k))), l_dataEnd := of_nat D\<rparr>,
       wr 64 (replicate (24 * 2 ^ k) 0) (set_header data (init_header (length data) (2 ^ k) seed (header_at data))),
       rng'))"
proof -
  define off where "off = data_offset_for (slots_for n)"
  have off: "uint off = int D" using data_offset_for_eq [OF cap] by (simp add: off_def D_def)
  have capi: "uint (slots_for n) = int (2 ^ k)" using cap(1) by (simp add: uint_nat del: of_nat_unat)
  have words: "slots_for n = of_nat (2 ^ k)" "off = of_nat D"
    using word_of_unat [OF cap(1)] off by (simp, metis nat_int unat_eq_nat_uint word_of_unat)
  show ?thesis
  proof (cases "length data \<le> D")
    case True
    then show ?thesis by (simp add: Loader_Init_def Let_def off_def [symmetric] off)
  next
    case False
    define hdr where "hdr = init_header (length data) (2 ^ k) seed (header_at data)"
    have L: "64 \<le> length data" "64 + 24 * 2 ^ k \<le> length data" using False by (simp_all add: D_def)
    have ok: "header_ok hdr" using L by (simp add: hdr_def header_ok_def init_header_def header_at_def)
    have seed: "setHeaderHashSeed rng ((header_at data)\<lparr>hdr_Magic := Magic, hdr_Version := Version,
        hdr_Size := word_of_int (int (length data)), hdr_GenCounter := 0, hdr_HashCap := slots_for n,
        hdr_HashOffset := word_of_int HeaderSize, hdr_DataOffset := off, hdr_DataEnd := off,
        hdr_SegmentID := 0, hdr_Flags := 0\<rparr>) = Some (seed, hdr, rng')"
      unfolding setHeaderHashSeed_def rng words by (simp add: hdr_def init_header_def D_def)
    have init: "InitHashTable (set_header data hdr) 64 (int (2 ^ k)) =
        Some (wr 64 (replicate (24 * 2 ^ k) 0) (set_header data hdr), int D)"
      using InitHashTable_eq [of 64 "2 ^ k" "set_header data hdr"] L ok
      by (simp add: D_def del: replicate.simps)
    have big: "\<not> int D \<ge> int (length data)" using False by simp
    show ?thesis
      unfolding Loader_Init_def Let_def off_def [symmetric] off if_not_P [OF big] headerOf_Some [OF L(1)] capi
      using seed init False by (simp add: hdr_def [symmetric] words(2) [symmetric])
  qed
qed

lemma Init_establishes:
  assumes n: "n \<le> 2 ^ 26" and len: "length data < 2 ^ 31" and rng: "randSeed rng = Some (seed, rng')"
  defines "cap \<equiv> unat (slots_for (int n))"
  shows "if length data \<le> 64 + 24 * cap
     then Loader_Init rng (int (length data)) l data (int n) = Some (Some ErrSegmentTooSmall, l, data, rng)
     else \<exists>ht l' data'. Loader_Init rng (int (length data)) l data (int n) = Some (None, l', data', rng') \<and>
       loader_inv ht l' data' \<and> ncap ht = cap \<and> seed \<noteq> 0 \<and> length data' = length data \<and>
       header_at data' = init_header (length data) cap seed (header_at data) \<and>
       abs_of ht l' data' = \<lparr>as_map = Map.empty, as_used = 0, as_end = 64 + 24 * cap\<rparr>"
proof -
  obtain k where k: "k \<le> 27" "unat (slots_for (int n)) = 2 ^ k"
    using slots_for_pow2 [OF n] by blast
  have cap: "cap = 2 ^ k" using k by (simp add: cap_def)
  have seed: "seed \<noteq> 0" using randSeed_nonzero [OF rng] by simp
  note run = Loader_Init_run [OF k(2,1) rng, of data l]
  show ?thesis
  proof (cases "length data \<le> 64 + 24 * 2 ^ k")
    case True
    then show ?thesis using run by (auto simp: cap)
  next
    case False
    then have L: "64 + 24 * 2 ^ k \<le> length data" by simp
    have u: "unat (of_nat (64 + 24 * 2 ^ k) :: u32) = 64 + 24 * 2 ^ k"
      using L len by (subst unat_of_nat_small) simp_all
    define ht where "ht = NewHashTable 64 (int (64 + 24 * 2 ^ k)) (int (2 ^ k))"
    define l' where "l' = l\<lparr>l_hashTable := Some ht, l_dataEnd := of_nat (64 + 24 * 2 ^ k)\<rparr>"
    define data' where "data' = wr 64 (replicate (24 * 2 ^ k) 0)
      (set_header data (init_header (length data) (2 ^ k) seed (header_at data)))"
    note f = fresh_store [OF L len seed, folded ht_def, folded data'_def]
    have l': "l_hashTable l' = Some ht" "unat (l_dataEnd l') = 64 + 24 * 2 ^ k"
      using u by (simp_all add: l'_def del: of_nat_add of_nat_mult of_nat_power)
    have "loader_inv ht l' data'" "abs_of ht l' data' = \<lparr>as_map = Map.empty, as_used = 0, as_end = 64 + 24 * 2 ^ k\<rparr>"
      using f(1,2,3) l' by (simp_all add: loader_inv_def abs_of_def)
    moreover have "Loader_Init rng (int (length data)) l data (int n) = Some (None, l', data', rng')"
      using run False by (simp only: if_False ht_def l'_def data'_def)
    ultimately show ?thesis using False f(4,5,6) seed unfolding cap by auto
  qed
qed

text \<open>
  C19. \<open>Init\<close> for up to \<open>2^26\<close> expected entries in a segment below 2 GB, when
  the source of randomness delivers a seed: the capacity is the least power of two that holds twice the
  entries. A segment with no room behind the table is refused and left untouched; otherwise the header
  says exactly what was laid out, a fresh non-zero seed is persisted, and the loader stands over an
  empty store that satisfies the invariant every \<open>put\<close> relies on.
\<close>

theorem Loader_Init_correct:
  assumes n: "n \<le> 2 ^ 26" and len: "length data < 2 ^ 31" and rng: "randSeed rng = Some (seed, rng')"
  defines "cap \<equiv> unat (slots_for (int n))"
  shows "(\<exists>k. cap = 2 ^ k \<and> 2 * n \<le> 2 ^ k \<and> (\<forall>j<k. 2 ^ j < 2 * n)) \<and>
    (if length data \<le> 64 + 24 * cap
     then Loader_Init rng (int (length data)) l data (int n) = Some (Some ErrSegmentTooSmall, l, data, rng)
     else \<exists>ht l' data'. Loader_Init rng (int (length data)) l data (int n) = Some (None, l', data', rng') \<and>
       loader_inv ht l' data' \<and> ncap ht = cap \<and> seed \<noteq> 0 \<and> length data' = length data \<and>
       header_at data' = init_header (length data) cap seed (header_at data) \<and>
       abs_of ht l' data' = \<lparr>as_map = Map.empty, as_used = 0, as_end = 64 + 24 * cap\<rparr>)"
  unfolding cap_def using Init_establishes [OF n len rng] slots_for_pow2 [OF n] by (intro conjI) blast+

section \<open>Load\<close>

fun abs_load ::
  "nat \<Rightarrow> nat \<Rightarrow> (bytes \<times> bytes) list \<Rightarrow> int \<Rightarrow> abs_store \<Rightarrow> load_end \<times> int \<times> abs_store" where
  "abs_load cap bnd [] count S = (Loaded, count, S)"
| "abs_load cap bnd ((key, value) # es) count S =
    (if key = [] \<or> length key > MaxKeyLen then abs_load cap bnd es count S
     else case abs_put cap bnd key value S of
         (None, S') \<Rightarrow> abs_load cap bnd es (count + 1) S'
       | (Some e, S') \<Rightarrow> (if e = errHashFull then Loaded else LoadFailed e, count, S'))"

definition chunks_size :: "(bytes \<times> bytes) list \<Rightarrow> nat" where
  "chunks_size es = (\<Sum>(k, v)\<leftarrow>es. 4 + length k + length v)"

lemma chunks_size_simps [simp]:
  "chunks_size [] = 0" "chunks_size ((k, v) # es) = 4 + length k + length v + chunks_size es"
  by (simp_all add: chunks_size_def)

lemma abs_put_end: "as_end (snd (abs_put cap bnd k v S)) = as_end S + 4 + length k + length v"
  by (simp add: abs_put_def Let_def)

lemma bump_generation_store:
  assumes "loader_inv ht l data"
  shows "\<exists>data'. bump_generation data = Some data' \<and> loader_inv ht l data' \<and> abs_of ht l data' = abs_of ht l data \<and>
    length data' = length data \<and>
    header_at data' = (header_at data)\<lparr>hdr_GenCounter := hdr_GenCounter (header_at data) + 1\<rparr>"
proof -
  have inv: "store_inv ht (unat (l_dataEnd l)) data" using assms by (simp add: loader_inv_def)
  have L: "64 \<le> length data" using store_invD(2,8) [OF inv] data_base_le [of ht data] by linarith
  let ?h = "(header_at data)\<lparr>hdr_GenCounter := hdr_GenCounter (header_at data) + 1\<rparr>"
  have "header_ok ?h" using L by (simp add: header_ok_def header_at_def)
  note b = store_inv_set_header [OF inv this, simplified]
  have "stored ht (set_header data ?h) = stored ht data" by (rule ext) (rule b(2))
  then show ?thesis using assms L b(1,3,4,5) by (simp add: bump_generation_def loader_inv_def abs_of_def)
qed

definition after_load :: "load_end \<Rightarrow> header \<Rightarrow> header" where
  "after_load fin hdr = (if fin = Loaded then hdr\<lparr>hdr_GenCounter := hdr_GenCounter hdr + 1\<rparr> else hdr)"

context data_source
begin

lemma Load_loop_delivers:
  assumes "delivers s es" "loader_inv ht l data" "unat (l_dataEnd l) + chunks_size es < 2 ^ 31" "length es < fuel"
  shows "\<exists>fin c l' data' s'. Load_loop fuel pkgSeed nxt l data s count = Some (fin, c, l', data', s') \<and>
    loader_inv ht l' data' \<and> length data' = length data \<and> header_at data' = header_at data \<and>
    (fin, c, abs_of ht l' data') = abs_load (ncap ht) (length data) es count (abs_of ht l data)"
  using assms
proof (induction es arbitrary: s l data count fuel)
  case Nil
  then obtain s' where "nxt s = Some (Inl ErrEOF, s')" using deliver_end by blast
  with Nil show ?case by (cases fuel) auto
next
  case (Cons kv es)
  obtain k v where kv: "kv = (k, v)" by (cases kv)
  obtain f where f: "fuel = Suc f" "length es < f" using Cons.prems(4) by (cases fuel) auto
  obtain s1 where s1: "nxt s = Some (Inr kv, s1)" "delivers s1 es" using Cons.prems(1) deliver_next by blast
  show ?case
  proof (cases "k = [] \<or> length k > MaxKeyLen")
    case True
    have "unat (l_dataEnd l) + chunks_size es < 2 ^ 31" using Cons.prems(3) by (simp add: kv)
    from Cons.IH [OF s1(2) Cons.prems(2) this f(2), of count] show ?thesis
      using True s1(1) by (auto simp: kv f(1))
  next
    case False
    have room: "unat (l_dataEnd l) + 4 + length k + length v < 2 ^ 31" using Cons.prems(3) by (simp add: kv)
    obtain err l1 d1 where p: "Loader_put pkgSeed l data k v = Some (err, l1, d1)" "loader_inv ht l1 d1"
        "length d1 = length data" "header_at d1 = header_at data"
        "abs_put (ncap ht) (length data) k v (abs_of ht l data) = (err, abs_of ht l1 d1)"
      using put_refines [OF Cons.prems(2) room, of pkgSeed] by auto
    have "as_end (abs_of ht l1 d1) = as_end (abs_of ht l data) + 4 + length k + length v"
      using abs_put_end [of "ncap ht" "length data" k v "abs_of ht l data"] p(5) by simp
    then have room1: "unat (l_dataEnd l1) + chunks_size es < 2 ^ 31"
      using Cons.prems(3) by (simp add: abs_of_def kv)
    show ?thesis
    proof (cases err)
      case None
      with Cons.IH [OF s1(2) p(2) room1 f(2), of "count + 1"] show ?thesis
        using False s1(1) p by (auto simp: kv f(1))
    next
      case (Some e)
      then show ?thesis using False s1(1) p by (auto simp: kv f(1))
    qed
  qed
qed

lemma Load_ready:
  assumes ready: "if l_hashTable l = None then Loader_Init rng segSize l data n = Some (None, l1, d1, rng')
      else (l1, d1) = (l, data)"
    and opened: "ds_Open ds s = (Inr n, s1)" "ds_Next ds = nxt" "delivers s1 es" "length es < fuel"
    and inv: "loader_inv ht l1 d1" and room: "unat (l_dataEnd l1) + chunks_size es < 2 ^ 31"
  shows "\<exists>r. Loader_Load fuel pkgSeed rng segSize ds l data s = Some r \<and>
    loader_inv ht (lo_loader r) (lo_data r) \<and> length (lo_data r) = length d1 \<and>
    header_at (lo_data r) = after_load (lo_end r) (header_at d1) \<and>
    (lo_end r, lo_count r, abs_of ht (lo_loader r) (lo_data r)) =
      abs_load (ncap ht) (length d1) es 0 (abs_of ht l1 d1)"
proof -
  obtain fin c l2 d2 s2 where run: "Load_loop fuel pkgSeed nxt l1 d1 s1 0 = Some (fin, c, l2, d2, s2)"
      "loader_inv ht l2 d2" "length d2 = length d1" "header_at d2 = header_at d1"
      "(fin, c, abs_of ht l2 d2) = abs_load (ncap ht) (length d1) es 0 (abs_of ht l1 d1)"
    using Load_loop_delivers [OF opened(3) inv room opened(4), of pkgSeed 0] by blast
  obtain rng1 where init: "(if l_hashTable l = None then Loader_Init rng segSize l data n
      else Some (None, l, data, rng)) = Some (None, l1, d1, rng1)"
    using ready by (cases "l_hashTable l = None") auto
  obtain d3 where d3: "(if fin = Loaded then bump_generation d2 else Some d2) = Some d3" "loader_inv ht l2 d3"
      "abs_of ht l2 d3 = abs_of ht l2 d2" "length d3 = length d2" "header_at d3 = after_load fin (header_at d2)"
    using bump_generation_store [OF run(2)] run(2) by (cases "fin = Loaded") (auto simp: after_load_def)
  have "Loader_Load fuel pkgSeed rng segSize ds l data s =
      Some \<lparr>lo_end = fin, lo_count = c, lo_loader = l2, lo_data = d3, lo_source = snd (ds_Close ds s2)\<rparr>"
    unfolding Loader_Load_def opened(1,2) prod.case sum.case init by (simp add: run(1) d3(1))
  then show ?thesis using d3 run by simp
qed

text \<open>The first \<open>Load\<close> of a loader: it lays the segment out for the estimate and then fills it.\<close>

lemma Load_fresh:
  assumes "l_hashTable l = None" "ds_Open ds s = (Inr (int n), s1)" "ds_Next ds = nxt" "delivers s1 es"
    and "length es < fuel" "n \<le> 2 ^ 26" "length data < 2 ^ 31" "randSeed rng = Some (seed, rng')"
  defines "cap \<equiv> unat (slots_for (int n))"
  assumes "64 + 24 * cap < length data" "64 + 24 * cap + chunks_size es < 2 ^ 31"
  shows "\<exists>r ht. Loader_Load fuel pkgSeed rng (int (length data)) ds l data s = Some r \<and>
    loader_inv ht (lo_loader r) (lo_data r) \<and> ncap ht = cap \<and> length (lo_data r) = length data \<and>
    header_at (lo_data r) = after_load (lo_end r) (init_header (length data) cap seed (header_at data)) \<and>
    (lo_end r, lo_count r, abs_of ht (lo_loader r) (lo_data r)) =
      abs_load cap (length data) es 0 \<lparr>as_map = Map.empty, as_used = 0, as_end = 64 + 24 * cap\<rparr>"
proof -
  obtain ht l1 d1 where i: "Loader_Init rng (int (length data)) l data (int n) = Some (None, l1, d1, rng')"
      "loader_inv ht l1 d1" "ncap ht = cap" "length d1 = length data"
      "header_at d1 = init_header (length data) cap seed (header_at data)"
      "abs_of ht l1 d1 = \<lparr>as_map = Map.empty, as_used = 0, as_end = 64 + 24 * cap\<rparr>"
    using Init_establishes [OF assms(6-8), of l, folded cap_def] assms(10) by auto
  have "unat (l_dataEnd l1) + chunks_size es < 2 ^ 31" using i(6) assms(11) by (simp add: abs_of_def)
  moreover have "if l_hashTable l = None
      then Loader_Init rng (int (length data)) l data (int n) = Some (None, l1, d1, rng')
      else (l1, d1) = (l, data)" using i(1) assms(1) by simp
  ultimately obtain r where "Loader_Load fuel pkgSeed rng (int (length data)) ds l data s = Some r"
      "loader_inv ht (lo_loader r) (lo_data r)" "length (lo_data r) = length d1"
      "header_at (lo_data r) = after_load (lo_end r) (header_at d1)"
      "(lo_end r, lo_count r, abs_of ht (lo_loader r) (lo_data r)) =
        abs_load (ncap ht) (length d1) es 0 (abs_of ht l1 d1)"
    using Load_ready [OF _ assms(2-5) i(2)] by blast
  then show ?thesis using i(3-6) by auto
qed

end

text \<open>
  C5. \<open>Load\<close> into a segment below 2 GB that \<open>Init\<close> has laid out, for every
  source that delivers a list of entries whose chunks, put behind what is there, end below
  \<open>2^31\<close>: with a bound on the calls of \<open>Next\<close> that exceeds the length of the
  list it never runs out of it and never panics; it returns the outcome and the count of the abstract
  load, leaves exactly the abstract content readable, and moves the generation counter only when the
  load ended without an error.
\<close>

theorem Load_refines:
  assumes src: "data_source (ds_Next ds) pending delivers"
    and opened: "ds_Open ds s = (Inr n, s1)" "delivers s1 es" "length es < fuel"
    and inv: "loader_inv ht l data" and room: "unat (l_dataEnd l) + chunks_size es < 2 ^ 31"
  shows "\<exists>r. Loader_Load fuel pkgSeed rng segSize ds l data s = Some r \<and>
    loader_inv ht (lo_loader r) (lo_data r) \<and> length (lo_data r) = length data \<and>
    header_at (lo_data r) = after_load (lo_end r) (header_at data) \<and>
    (lo_end r, lo_count r, abs_of ht (lo_loader r) (lo_data r)) =
      abs_load (ncap ht) (length data) es 0 (abs_of ht l data)"
proof -
  have "if l_hashTable l = None then Loader_Init rng segSize l data n = Some (None, l, data, rng)
      else (l, data) = (l, data)"
    using inv by (simp add: loader_inv_def)
  then show ?thesis by (rule data_source.Load_ready [OF src _ opened(1) refl opened(2,3) inv room])
qed

section \<open>What the abstract load does\<close>

definition valid_entry :: "bytes \<times> bytes \<Rightarrow> bool" where
  "valid_entry kv \<longleftrightarrow> fst kv \<noteq> [] \<and> length (fst kv) \<le> MaxKeyLen"

lemma map_add_singleton: "map_of es ++ ([k \<mapsto> v] ++ m) = map_of ((k, v) # es) ++ m"
  by (auto simp: map_add_def split: option.splits)

lemma abs_load_fits:
  assumes "as_end S + chunks_size (filter valid_entry es) \<le> bnd"
    and "as_used S + length (filter valid_entry es) \<le> cap"
  shows "abs_load cap bnd es count S = (Loaded, count + int (length (filter valid_entry es)),
    \<lparr>as_map = map_of (filter valid_entry es) ++ as_map S, as_used = as_used S + length (filter valid_entry es),
     as_end = as_end S + chunks_size (filter valid_entry es)\<rparr>)"
  using assms
proof (induction es arbitrary: count S)
  case Nil
  then show ?case by simp
next
  case (Cons kv es)
  obtain k v where kv: "kv = (k, v)" by (cases kv)
  show ?case
  proof (cases "valid_entry kv")
    case False
    then show ?thesis using Cons by (auto simp: kv valid_entry_def)
  next
    case True
    let ?S = "\<lparr>as_map = [k \<mapsto> v] ++ as_map S, as_used = Suc (as_used S), as_end = as_end S + 4 + length k + length v\<rparr>"
    have "abs_put cap bnd k v S = (None, ?S)"
      using Cons.prems True by (simp add: abs_put_def kv Let_def)
    moreover have "abs_load cap bnd es (count + 1) ?S = (Loaded, count + 1 + int (length (filter valid_entry es)),
      \<lparr>as_map = map_of (filter valid_entry es) ++ as_map ?S, as_used = as_used ?S + length (filter valid_entry es),
       as_end = as_end ?S + chunks_size (filter valid_entry es)\<rparr>)"
      by (rule Cons.IH) (use Cons.prems True in \<open>simp_all add: kv\<close>)
    moreover have "k \<noteq> []" "\<not> length k > MaxKeyLen" using True by (simp_all add: kv valid_entry_def)
    ultimately show ?thesis using True
      by (simp add: kv map_add_singleton [symmetric] add.assoc del: map_of.simps)
  qed
qed

section \<open>A concrete loader\<close>

text \<open>A fresh segment of 200 bytes with two slots; the data region starts at byte 112.\<close>

definition demo_config :: loader_config where
  "demo_config = \<lparr>SegmentName = [100], SegmentSize = 200, LoadFactor = Finite (1 / 2)\<rparr>"

definition seg_ht :: hash_table where
  "seg_ht = NewHashTable 64 (int (64 + 24 * 2 ^ 1)) (int (2 ^ 1))"

definition demo_seg_data :: bytes where
  "demo_seg_data = wr 64 (replicate (24 * 2 ^ 1) 0)
     (set_header (replicate 200 0) (init_header (length (replicate 200 0 :: bytes)) (2 ^ 1) 1 (header_at (replicate 200 0))))"

definition seg_loader :: loader where
  "seg_loader = \<lparr>l_segment = 0, l_hashTable = Some seg_ht, l_config = demo_config, l_dataEnd = 112\<rparr>"

lemma seg_facts: "loader_inv seg_ht seg_loader demo_seg_data" "length demo_seg_data = 200" "ncap seg_ht = 2"
    "abs_of seg_ht seg_loader demo_seg_data = \<lparr>as_map = Map.empty, as_used = 0, as_end = 112\<rparr>"
proof -
  have L: "64 + 24 * 2 ^ 1 \<le> length (replicate 200 0 :: bytes)" "length (replicate 200 0 :: bytes) < 2 ^ 31"
      "(1 :: u64) \<noteq> 0" by simp_all
  note f = fresh_store [OF L, folded seg_ht_def demo_seg_data_def]
  have e: "l_hashTable seg_loader = Some seg_ht" "unat (l_dataEnd seg_loader) = 64 + 24 * 2 ^ 1"
    by (simp_all add: seg_loader_def)
  show "loader_inv seg_ht seg_loader demo_seg_data" unfolding loader_inv_def e using f(1) by simp
  show "length demo_seg_data = 200" "ncap seg_ht = 2" using f(5,6) by simp_all
  show "abs_of seg_ht seg_loader demo_seg_data = \<lparr>as_map = Map.empty, as_used = 0, as_end = 112\<rparr>"
    unfolding abs_of_def e using f(2,3) by simp
qed

theorem Loader_put_refines_witness:
  "\<exists>l' data'. Loader_put 77 seg_loader demo_seg_data [9] [5] = Some (None, l', data') \<and>
    stored seg_ht data' = [[9] \<mapsto> [5]]"
proof -
  have room: "unat (l_dataEnd seg_loader) + 4 + length [9 :: byte] + length [5 :: byte] < 2 ^ 31"
    by (simp add: seg_loader_def)
  from Loader_put_refines [OF seg_facts(1) room, of 77] show ?thesis
    unfolding seg_facts by (auto simp: abs_put_def abs_of_def)
qed

theorem Loader_Init_correct_witness:
  "\<exists>ht l' data'. Loader_Init (sconst (Some [1, 0, 0, 0, 0, 0, 0, 0])) 200 seg_loader (replicate 200 0) 1 =
      Some (None, l', data', sconst (Some [1, 0, 0, 0, 0, 0, 0, 0])) \<and>
    loader_inv ht l' data' \<and> ncap ht = 2 \<and> stored ht data' = Map.empty"
proof -
  have cap: "unat (slots_for (int 1)) = 2" by (simp add: slots_for_def NextPow2_def)
  from Loader_Init_correct [of 1 "replicate 200 0" "sconst (Some [1, 0, 0, 0, 0, 0, 0, 0])" 1
      "sconst (Some [1, 0, 0, 0, 0, 0, 0, 0])" seg_loader]
  show ?thesis unfolding cap by (auto simp: abs_of_def)
qed

theorem Load_refines_witness:
  "\<exists>r. Loader_Load 5 77 (sconst None) 200 map_data_source seg_loader demo_seg_data
      (NewMapDataSource [([9], [5]), ([], [6]), ([8], [7])]) = Some r \<and>
    lo_end r = Loaded \<and> lo_count r = 2 \<and> stored seg_ht (lo_data r) = [[8] \<mapsto> [7], [9] \<mapsto> [5]]"
proof -
  let ?es = "[([9], [5]), ([], [6]), ([8], [7])] :: (bytes \<times> bytes) list"
  have src: "data_source (ds_Next map_data_source) map_pending map_delivers"
    unfolding map_data_source_def source.simps by (rule map_src.data_source_axioms)
  have "map_delivers (NewMapDataSource ?es) ?es" by (rule map_delivers_New) simp
  moreover have "ds_Open map_data_source (NewMapDataSource ?es) = (Inr 3, NewMapDataSource ?es)"
    by (simp add: map_data_source_def Map_Open_def NewMapDataSource_def)
  moreover have "unat (l_dataEnd seg_loader) + chunks_size ?es < 2 ^ 31" by (simp add: seg_loader_def)
  moreover have "abs_load 2 200 ?es 0 \<lparr>as_map = Map.empty, as_used = 0, as_end = 112\<rparr> =
      (Loaded, 2, \<lparr>as_map = [[8] \<mapsto> [7], [9] \<mapsto> [5]], as_used = 2, as_end = 124\<rparr>)"
    by (simp add: abs_put_def Let_def map_add_def fun_eq_iff)
  ultimately obtain r where "Loader_Load 5 77 (sconst None) 200 map_data_source seg_loader demo_seg_data
        (NewMapDataSource ?es) = Some r"
      "(lo_end r, lo_count r, abs_of seg_ht (lo_loader r) (lo_data r)) =
        (Loaded, 2, \<lparr>as_map = [[8] \<mapsto> [7], [9] \<mapsto> [5]], as_used = 2, as_end = 124\<rparr>)"
    using Load_refines [OF src _ _ _ seg_facts(1), of "NewMapDataSource ?es" 3 "NewMapDataSource ?es" ?es 5
        77 "sconst None" 200] unfolding seg_facts by auto
  then show ?thesis by (auto simp: abs_of_def)
qed

end
