(* ===== verification/Loader_Limits.thy ===== *)
theory Loader_Limits
  imports Loader_Props
begin

text \<open>
  Where the writer's arithmetic and its bookkeeping end: the data end is a signed 32-bit number that
  only grows, also by puts that fail, and the size of the table is fixed by the estimate the source
  gives when it is opened.
\<close>

section \<open>The data end\<close>

lemma Loader_put_past_end:
  assumes "sint (l_dataEnd l) + 4 + int (length key) + int (length value) > int (length data)"
  shows "Loader_put pkgSeed l data key value =
    Some (Some ErrDataRegionFull,
      l\<lparr>l_dataEnd := l_dataEnd l + word_of_int (4 + int (length key) + int (length value))\<rparr>, data)"
  using assms by (simp add: Loader_put_def Let_def algebra_simps)

lemma Loader_put_negative:
  assumes "sint (l_dataEnd l) < 0"
    and "sint (l_dataEnd l) + 4 + int (length key) + int (length value) \<le> int (length data)"
  shows "Loader_put pkgSeed l data key value = None"
  using assms by (simp add: Loader_put_def Let_def put_u32_def put_slice_def algebra_simps)

lemma sint_big: "2 ^ 31 \<le> unat (w :: u32) \<Longrightarrow> sint w = int (unat w) - 2 ^ 32"
proof -
  assume a: "2 ^ 31 \<le> unat w"
  have "uint w < 2 ^ 32" using uint_lt2p [of w] by simp
  moreover have "2 ^ 31 \<le> uint w" using a by (metis of_nat_le_iff of_nat_numeral of_nat_power uint_nat)
  moreover have "uint w div 2 ^ 31 = 1"
    by (rule int_div_pos_eq [of _ _ _ "uint w - 2 ^ 31"]) (use calculation in auto)
  ultimately have "signed_take_bit 31 (uint w) = uint w - 2 ^ 32"
    by (simp add: signed_take_bit_eq_take_bit_minus take_bit_int_eq_self bit_iff_odd)
  then show ?thesis by (simp add: sint_uint)
qed

definition chunk_len :: "bytes \<Rightarrow> bytes \<Rightarrow> nat" where
  "chunk_len key value = 4 + length key + length value"

text \<open>
  C29. The data region full, in a segment of up to 2 GB: the put that does not fit reports it and
  writes nothing, but the data end stays advanced by the chunk. While it is below \<open>2^31\<close> every later
  put fails as well, even one whose chunk would fit into what is left. From \<open>2^31\<close> on, which a default
  segment of exactly \<open>2^31\<close> bytes always reaches here, the offset has wrapped to a negative number
  and the next put panics instead of returning an error.
\<close>

theorem put_after_region_full:
  assumes e: "unat (l_dataEnd l) < 2 ^ 31" and n: "chunk_len key value \<le> 2 ^ 31"
    and full: "length data < unat (l_dataEnd l) + chunk_len key value"
  shows "\<exists>l'. Loader_put pkgSeed l data key value = Some (Some ErrDataRegionFull, l', data) \<and>
    (\<forall>key2 value2. chunk_len key2 value2 \<le> length data \<longrightarrow>
      (if unat (l_dataEnd l) + chunk_len key value < 2 ^ 31
       then \<exists>l''. Loader_put pkgSeed l' data key2 value2 = Some (Some ErrDataRegionFull, l'', data)
       else Loader_put pkgSeed l' data key2 value2 = None))"
proof -
  define E where "E = unat (l_dataEnd l) + chunk_len key value"
  define l' where "l' = l\<lparr>l_dataEnd := l_dataEnd l + word_of_int (4 + int (length key) + int (length value))\<rparr>"
  have "l_dataEnd l' = of_nat E" by (simp add: l'_def E_def chunk_len_def)
  moreover have "E < 2 ^ 32" using e n by (simp add: E_def)
  ultimately have u: "unat (l_dataEnd l') = E" by (simp add: unat_of_nat_small)
  have past: "int (length data) < int E" using full unfolding E_def by (simp only: of_nat_less_iff)
  have "sint (l_dataEnd l) + 4 + int (length key) + int (length value) > int (length data)"
    using sint_small [OF e] past by (simp add: E_def chunk_len_def)
  then have first: "Loader_put pkgSeed l data key value = Some (Some ErrDataRegionFull, l', data)"
    unfolding l'_def by (rule Loader_put_past_end)
  have "\<exists>l''. Loader_put pkgSeed l' data k2 v2 = Some (Some ErrDataRegionFull, l'', data)" if "E < 2 ^ 31" for k2 v2
  proof -
    have "sint (l_dataEnd l') = int E" using sint_small [of "l_dataEnd l'"] u that by simp
    then have "sint (l_dataEnd l') + 4 + int (length k2) + int (length v2) > int (length data)"
      using past by simp
    then show ?thesis by (blast intro: Loader_put_past_end)
  qed
  moreover have "Loader_put pkgSeed l' data k2 v2 = None"
    if "\<not> E < 2 ^ 31" "chunk_len k2 v2 \<le> length data" for k2 v2
  proof (rule Loader_put_negative)
    have s: "sint (l_dataEnd l') = int E - 2 ^ 32" using sint_big [of "l_dataEnd l'"] u that(1) by simp
    have "int E < 2 ^ 32" using \<open>E < 2 ^ 32\<close> by (metis of_nat_less_iff of_nat_numeral of_nat_power)
    with s show "sint (l_dataEnd l') < 0" by simp
    have "int (chunk_len k2 v2) \<le> int (length data)" using that(2) by simp
    with s \<open>int E < 2 ^ 32\<close>
    show "sint (l_dataEnd l') + 4 + int (length k2) + int (length v2) \<le> int (length data)"
      by (simp add: chunk_len_def)
  qed
  ultimately show ?thesis unfolding E_def [symmetric] using first by (intro exI conjI allI impI) auto
qed

theorem put_after_region_full_witness:
  "\<exists>l'. Loader_put 77 (seg_loader\<lparr>l_dataEnd := 0x7FFFFFF0\<rparr>) (replicate (2 ^ 31) 0) [9] (replicate 100 5) =
      Some (Some ErrDataRegionFull, l', replicate (2 ^ 31) 0) \<and>
    Loader_put 77 l' (replicate (2 ^ 31) 0) [9] [5] = None"
  using put_after_region_full [of "seg_loader\<lparr>l_dataEnd := 0x7FFFFFF0\<rparr>" "[9]" "replicate 100 5"
      "replicate (2 ^ 31) 0" 77]
  by (auto simp: chunk_len_def simp del: replicate.simps)

section \<open>The estimate\<close>

lemma abs_load_full:
  assumes "valid_entry (k, v)" "as_used S = cap" "as_end S + 4 + length k + length v \<le> bnd"
  shows "abs_load cap bnd ((k, v) # es) count S = (Loaded, count, S\<lparr>as_end := as_end S + 4 + length k + length v\<rparr>)"
  using assms by (auto simp: valid_entry_def abs_put_def Let_def)

text \<open>
  \<open>LineDataSource.Open\<close> estimates no entries, so a first \<open>Load\<close> from a text file lays out a table of one
  slot: the second entry finds the table full, and \<open>Load\<close> reports success with a count of one.
\<close>

lemma line_source_loads_one:
  assumes "l_hashTable l = None" "randSeed rng = Some (seed, rng')"
    and content: "fs_file fs path = Some (concat (map line_bytes (kv1 # kv2 # es)))"
    and ok: "\<forall>kv\<in>set (kv1 # kv2 # es). line_entry_ok kv \<and> valid_entry kv"
    and size: "88 + chunks_size (kv1 # kv2 # es) \<le> length data" "length data < 2 ^ 31"
    and fuel: "length es + 2 < fuel"
  shows "\<exists>r ht. Loader_Load fuel pkgSeed rng (int (length data)) (line_data_source fs) l data
        (NewLineDataSource path) = Some r \<and>
    lo_end r = Loaded \<and> lo_count r = 1 \<and> ncap ht = 1 \<and> stored ht (lo_data r) = [fst kv1 \<mapsto> snd kv1] \<and>
    loader_inv ht (lo_loader r) (lo_data r) \<and> length (lo_data r) = length data \<and>
    hdr_GenCounter (header_at (lo_data r)) = 1"
proof -
  obtain k1 v1 k2 v2 where kv: "kv1 = (k1, v1)" "kv2 = (k2, v2)" by (cases kv1; cases kv2)
  let ?es = "kv1 # kv2 # es"
  obtain ds where ds: "Line_Open fs (NewLineDataSource path) = (Inr (int 0), ds)"
      "line_sc ds = Some \<lparr>sc_rest = concat (map line_bytes ?es), sc_err = False\<rparr>"
    using content by (auto simp: Line_Open_def NewLineDataSource_def)
  then have del: "line_delivers ds ?es" using ok by (simp add: line_delivers_def)
  have cap: "unat (slots_for (int 0)) = 1" by (simp add: slots_for_def NextPow2_def)
  have src: "ds_Open (line_data_source fs) (NewLineDataSource path) = (Inr (int 0), ds)"
      "ds_Next (line_data_source fs) = Line_Next"
    using ds(1) by (simp_all add: line_data_source_def)
  have len: "length ?es < fuel" "(0 :: nat) \<le> 2 ^ 26" using fuel by simp_all
  have room: "64 + 24 * unat (slots_for (int 0)) < length data"
      "64 + 24 * unat (slots_for (int 0)) + chunks_size ?es < 2 ^ 31"
    unfolding cap using size by (simp_all add: kv)
  obtain r ht where r: "Loader_Load fuel pkgSeed rng (int (length data)) (line_data_source fs) l data
        (NewLineDataSource path) = Some r" "ncap ht = 1" "loader_inv ht (lo_loader r) (lo_data r)"
      "length (lo_data r) = length data"
      "header_at (lo_data r) = after_load (lo_end r) (init_header (length data) 1 seed (header_at data))"
      "(lo_end r, lo_count r, abs_of ht (lo_loader r) (lo_data r)) =
        abs_load 1 (length data) ?es 0 \<lparr>as_map = Map.empty, as_used = 0, as_end = 88\<rparr>"
    using line_src.Load_fresh [OF assms(1) src del len size(2) assms(2) room, of pkgSeed] unfolding cap by auto
  have k1: "k1 \<noteq> []" "\<not> length k1 > MaxKeyLen" and v2: "valid_entry (k2, v2)"
    using ok by (simp_all add: valid_entry_def kv)
  let ?S = "\<lparr>as_map = [k1 \<mapsto> v1], as_used = 1, as_end = 88 + 4 + length k1 + length v1\<rparr>"
  have "abs_put 1 (length data) k1 v1 \<lparr>as_map = Map.empty, as_used = 0, as_end = 88\<rparr> = (None, ?S)"
    using size(1) by (simp add: abs_put_def Let_def kv)
  moreover have "abs_load 1 (length data) (kv2 # es) 1 ?S =
      (Loaded, 1, ?S\<lparr>as_end := as_end ?S + 4 + length k2 + length v2\<rparr>)"
    unfolding kv(2) by (rule abs_load_full [OF v2]) (use size(1) in \<open>simp_all add: kv\<close>)
  ultimately have "abs_load 1 (length data) ?es 0 \<lparr>as_map = Map.empty, as_used = 0, as_end = 88\<rparr> =
      (Loaded, 1, ?S\<lparr>as_end := as_end ?S + 4 + length k2 + length v2\<rparr>)"
    using k1 unfolding kv(1) abs_load.simps(2) by simp
  then show ?thesis using r by (auto simp: abs_of_def kv after_load_def init_header_def)
qed

definition tsv_fs :: file_system where
  \<comment> \<open>every path holds the two lines \<open>a TAB b\<close> and \<open>c TAB d\<close>\<close>
  "tsv_fs = \<lparr>fs_file = (\<lambda>_. Some [97, 9, 98, 10, 99, 9, 100, 10]), fs_stat_ok = (\<lambda>_. True)\<rparr>"

end
