(* ===== verification/System.thy ===== *)
theory System
  imports Handshake Loader_Limits
begin

text \<open>
  The components put together: a loader that creates a segment and loads a source into it, and a reader
  that opens the segment by its name in another process. The lemmas connect the loader's invariant with
  the table that a reader rebuilds from the header.
\<close>

section \<open>The reader's table is the loader's table\<close>

lemma layout_table:
  assumes "layout ht data"
  shows "NewHashTable (uint (hdr_HashOffset (header_at data))) (uint (hdr_DataOffset (header_at data)))
    (uint (hdr_HashCap (header_at data))) = ht"
proof -
  have "ht_mask ht = capacity ht - 1" using assms by (auto simp: layout_def table_inv_def ht_wf_def)
  then show ?thesis using assms by (cases ht) (simp add: layout_def NewHashTable_def)
qed

lemma reader_over_store:
  assumes inv: "store_inv ht e data" and live: "live w s v obj data" and r: "r_segment r = Some s"
  shows "\<exists>r'. initHashTable pkgSeed w r = Some r' \<and> r_segment r' = Some s \<and> r_conn r' = r_conn r \<and>
    reader_usable (w, r') \<and> reader_content (w, r') = stored ht data \<and>
    Reader_GenCounter w r' = Some (hdr_GenCounter (header_at data))"
proof -
  note d = store_invD [OF inv]
  have L: "64 \<le> length data" using d(8) data_base_le [OF d(2)] by linarith
  have lay: "layout ht data" using inv by (simp add: store_inv_def)
  define r' where "r' = r\<lparr>r_hashTable := Some ht, r_data := Some v, r_seed := stored_seed data\<rparr>"
  have bytes: "view_bytes w (Some v) = Some data" "Segment_Data w s = Some (Some v)"
    using live by (simp_all add: live_def view_bytes_def)
  have "initHashTable pkgSeed w r = Some r'"
    using r L bytes by (simp add: initHashTable_def layout_table [OF lay] headerHashSeed_stored [OF d(4)] r'_def)
  moreover have "reader_usable (w, r')" "reader_content (w, r') = stored ht data"
    using bytes inv by (auto simp: reader_usable_def reader_content_def reader_table_def reader_bytes_def r'_def)
  moreover have "Reader_GenCounter w r' = Some (hdr_GenCounter (header_at data))"
    using r bytes L by (simp add: Reader_GenCounter_def r'_def)
  ultimately show ?thesis using r by (simp add: r'_def)
qed

lemma reader_from_segment:
  assumes "store_inv ht e data" "live w s v obj data"
  shows "\<exists>r. NewReaderFromSegment pkgSeed w s = Some r \<and> r_segment r = Some s \<and> r_conn r = NoConn \<and>
    r_closed r = False \<and> reader_usable (w, r) \<and> reader_content (w, r) = stored ht data"
proof -
  obtain r where r: "initHashTable pkgSeed w (nil_reader\<lparr>r_segment := Some s\<rparr>) = Some r" "r_segment r = Some s"
      "r_conn r = NoConn" "reader_usable (w, r)" "reader_content (w, r) = stored ht data"
    using reader_over_store [OF assms, of "nil_reader\<lparr>r_segment := Some s\<rparr>" pkgSeed] by (auto simp: nil_reader_def)
  have "r_closed r = False"
    using r(1) by (auto simp: initHashTable_def nil_reader_def bind_eq_Some_conv)
  then show ?thesis using r by (simp add: NewReaderFromSegment_def)
qed

lemma Reader_Get_content:
  "reader_usable (w, r) \<Longrightarrow> Reader_Get w r key = Some (reader_content (w, r) key, reader_content (w, r) key \<noteq> None)"
  using rd.get_content [of "(w, r)" key] by (simp add: reader_get_def)

lemma Reader_GetBatch_content:
  "reader_usable (w, r) \<Longrightarrow> Reader_GetBatch w r keys =
    Some (map (reader_content (w, r)) keys, map (\<lambda>k. reader_content (w, r) k \<noteq> None) keys)"
  using rd.batch_content [of "(w, r)" keys] by (simp add: reader_get_def Reader_GetBatch_def)

section \<open>Loading a map into a new segment\<close>

definition fits :: "nat \<Rightarrow> (bytes \<times> bytes) list \<Rightarrow> bool" where
  \<comment> \<open>a segment of this size holds a table for the entries, and their chunks\<close>
  "fits sz es \<longleftrightarrow>
    64 + 24 * unat (slots_for (int (length es))) + chunks_size es \<le> sz \<and>
    sz < 2 ^ 31 \<and> length es \<le> 2 ^ 26 \<and> es \<noteq> []"

lemma valid_filter: "\<forall>kv\<in>set es. valid_entry kv \<Longrightarrow> filter valid_entry es = es"
  by (simp add: filter_id_conv)

definition loaded_header :: "nat \<Rightarrow> (bytes \<times> bytes) list \<Rightarrow> u64 \<Rightarrow> header \<Rightarrow> header" where
  \<comment> \<open>the header after the first \<open>Load\<close> of a map, with this seed\<close>
  "loaded_header sz es seed hdr =
    (init_header sz (unat (slots_for (int (length es)))) seed hdr)\<lparr>hdr_GenCounter := 1\<rparr>"

lemma loaded_header_seed:
  assumes "header_at data' = loaded_header sz es seed (header_at data)" "64 \<le> length data"
  shows "stored_seed data' = seed"
proof -
  have "length (hdr_Reserved (header_at data)) = 16" using assms(2) by (simp add: header_at_def)
  then show ?thesis unfolding stored_seed_def assms(1) by (simp add: loaded_header_def init_header_def)
qed

lemma map_load_fresh:
  assumes l: "l_hashTable l = None" and es: "\<forall>kv\<in>set es. valid_entry kv" "distinct (map fst es)"
    and size: "fits (length data) es" and rng: "randSeed rng = Some (seed, rng')" and fuel: "length es < fuel"
  shows "\<exists>r ht. Loader_Load fuel pkgSeed rng (int (length data)) map_data_source l data (NewMapDataSource es) = Some r \<and>
    lo_end r = Loaded \<and> lo_count r = int (length es) \<and>
    store_inv ht (unat (l_dataEnd (lo_loader r))) (lo_data r) \<and> length (lo_data r) = length data \<and>
    stored ht (lo_data r) = map_of es \<and> hdr_GenCounter (header_at (lo_data r)) = 1 \<and>
    header_at (lo_data r) = loaded_header (length data) es seed (header_at data)"
proof -
  define n where "n = length es"
  define cap where "cap = unat (slots_for (int n))"
  obtain kv es' where ne: "es = kv # es'" using size by (cases es) (auto simp: fits_def)
  have "1 \<le> chunks_size es" unfolding ne by (cases kv) simp
  moreover have "64 + 24 * cap + chunks_size es \<le> length data" "n \<le> 2 ^ 26" and len: "length data < 2 ^ 31"
    using size by (simp_all add: fits_def n_def cap_def)
  ultimately have room: "64 + 24 * cap < length data" "64 + 24 * cap + chunks_size es < 2 ^ 31"
      "64 + 24 * cap + chunks_size es \<le> length data" "n \<le> 2 ^ 26" by linarith+
  have "n \<le> cap"
    using slots_for_pow2 [OF room(4)] unfolding cap_def by (metis mult_2 add_leE)
  then have load: "abs_load cap (length data) es 0 \<lparr>as_map = Map.empty, as_used = 0, as_end = 64 + 24 * cap\<rparr> =
      (Loaded, int n, \<lparr>as_map = map_of es, as_used = n, as_end = 64 + 24 * cap + chunks_size es\<rparr>)"
    using abs_load_fits [of "\<lparr>as_map = Map.empty, as_used = 0, as_end = 64 + 24 * cap\<rparr>" es "length data" cap 0]
      room(3) by (simp add: valid_filter [OF es(1)] n_def)
  have src: "ds_Open map_data_source (NewMapDataSource es) = (Inr (int n), NewMapDataSource es)"
      "ds_Next map_data_source = Map_Next"
    by (simp_all add: map_data_source_def Map_Open_def NewMapDataSource_def n_def)
  obtain r ht where r: "Loader_Load fuel pkgSeed rng (int (length data)) map_data_source l data (NewMapDataSource es) = Some r"
      "loader_inv ht (lo_loader r) (lo_data r)" "length (lo_data r) = length data"
      "header_at (lo_data r) = after_load (lo_end r) (init_header (length data) cap seed (header_at data))"
      "(lo_end r, lo_count r, abs_of ht (lo_loader r) (lo_data r)) =
        abs_load cap (length data) es 0 \<lparr>as_map = Map.empty, as_used = 0, as_end = 64 + 24 * cap\<rparr>"
    using map_src.Load_fresh [OF l src map_delivers_New [OF es(2)] fuel room(4) len rng
        room(1,2) [unfolded cap_def]] unfolding cap_def by blast
  have "lo_end r = Loaded" "lo_count r = int n" "stored ht (lo_data r) = map_of es"
    using r(5) load by (auto simp: abs_of_def)
  then show ?thesis using r
    by (auto simp: loader_inv_def after_load_def init_header_def loaded_header_def n_def cap_def)
qed

section \<open>From the segment to the reader\<close>

definition can_open :: "sys \<Rightarrow> go_string \<Rightarrow> nat \<Rightarrow> bool" where
  "can_open sys name sz \<longleftrightarrow>
    sys_open_ok sys (DevShmPath name) \<and> sys_stat_ok sys \<and> sys_mmap_ok sys (int sz)"

definition can_create :: "sys \<Rightarrow> go_string \<Rightarrow> nat \<Rightarrow> bool" where
  "can_create sys name sz \<longleftrightarrow>
    sys_open_ok sys (DevShmPath name) \<and> sys_truncate_ok sys (int sz) \<and> sys_mmap_ok sys (int sz)"

definition reads :: "world \<times> reader \<Rightarrow> (bytes \<rightharpoonup> bytes) \<Rightarrow> u64 \<Rightarrow> bool" where
  \<comment> \<open>every lookup of this reader answers from \<open>m\<close>, batches included, and it reports this generation\<close>
  "reads x m gen \<longleftrightarrow>
    (\<forall>k. Reader_Get (fst x) (snd x) k = Some (m k, m k \<noteq> None)) \<and>
    (\<forall>ks. Reader_GetBatch (fst x) (snd x) ks = Some (map m ks, map (\<lambda>k. m k \<noteq> None) ks)) \<and>
    Reader_GenCounter (fst x) (snd x) = Some gen"

lemma usable_reads:
  "reader_usable (w, r) \<Longrightarrow> Reader_GenCounter w r = Some gen \<Longrightarrow> reads (w, r) (reader_content (w, r)) gen"
  by (simp add: reads_def Reader_Get_content Reader_GetBatch_content)

lemma reads_conn [simp]: "reads (w, r\<lparr>r_conn := c\<rparr>) m gen = reads (w, r) m gen"
proof -
  have "Reader_Get w (r\<lparr>r_conn := c\<rparr>) = Reader_Get w r" by (rule ext) (simp add: Reader_Get_def cong: option.case_cong)
  then show ?thesis by (simp add: reads_def Reader_GetBatch_def Reader_GenCounter_def)
qed

lemma open_reader:
  assumes files: "files w (DevShmPath name) = Some obj" "objects w obj = Some data"
    and inv: "store_inv ht e data" and sys: "can_open sys name (length data)"
  shows "\<exists>r w'. NewReader pkgSeed Linux sys net w name [] = Some (Inr r, w') \<and>
    reads (w', r) (stored ht data) (hdr_GenCounter (header_at data))"
proof -
  obtain t w' where o: "linux_openSegment sys w name = (Inr t, w')"
    using files sys by (simp add: linux_openSegment_def can_open_def Let_def)
  from open_live(1) [OF o files] have live: "live w' t (next_id w) obj data" .
  obtain r where r: "initHashTable pkgSeed w' (nil_reader\<lparr>r_segment := Some t\<rparr>) = Some r"
      "reader_usable (w', r)" "reader_content (w', r) = stored ht data"
      "Reader_GenCounter w' r = Some (hdr_GenCounter (header_at data))"
    using reader_over_store [OF inv live, of "nil_reader\<lparr>r_segment := Some t\<rparr>" pkgSeed] by auto
  then show ?thesis using usable_reads [OF r(2,4)] by (simp add: NewReader_def OpenSegment_def o)
qed

lemma create_loader:
  assumes "files w (DevShmPath name) = None" "can_create sys name sz" "0 < sz"
  shows "\<exists>l w1 v obj. NewLoader Linux sys w \<lparr>SegmentName = name, SegmentSize = int sz, LoadFactor = lf\<rparr> = Some (Inr l, w1) \<and>
    l_hashTable l = None \<and> live w1 (l_segment l) v obj (replicate sz 0) \<and>
    files w1 (DevShmPath name) = Some obj \<and>
    segments w1 (l_segment l) = Some \<lparr>seg_name = name, seg_data = Some v, seg_cap = int sz,
      seg_mapped = True, seg_backedByFile = True\<rparr>"
proof -
  obtain s w1 where c: "linux_createSegment sys w name (int sz) = (Inr s, w1)"
    using assms by (simp add: linux_createSegment_def can_create_def Let_def)
  have "NewLoader Linux sys w \<lparr>SegmentName = name, SegmentSize = int sz, LoadFactor = lf\<rparr> =
      Some (Inr (newLoaderWithSegment (config_defaults \<lparr>SegmentName = name, SegmentSize = int sz, LoadFactor = lf\<rparr>) s), w1)"
    using assms(3) c by (simp add: NewLoader_def CreateSegment_def config_defaults_def Let_def)
  then show ?thesis using create_live [OF c] create_segment [OF c]
    by (auto simp: newLoaderWithSegment_def)
qed

lemma reopen_loader:
  assumes files: "files w (DevShmPath name) = Some obj" "objects w obj = Some data" and sys: "can_open sys name (length data)"
  shows "\<exists>l w1. NewLoader Linux sys w \<lparr>SegmentName = name, SegmentSize = sz, LoadFactor = lf\<rparr> = Some (Inr l, w1) \<and>
    l_hashTable l = None \<and> live w1 (l_segment l) (next_id w) obj data \<and> files w1 = files w \<and> objects w1 = objects w \<and>
    (\<forall>s v obj' data'. live w s v obj' data' \<longrightarrow> s < next_id w \<longrightarrow> v < next_id w \<longrightarrow> live w1 s v obj' data')"
proof -
  let ?c = "\<lparr>SegmentName = name, SegmentSize = sz, LoadFactor = lf\<rparr>"
  have name: "SegmentName (config_defaults ?c) = name" by (simp add: config_defaults_def Let_def)
  have create: "linux_createSegment sys w name n = (Inl ErrExist, w)" for n
    using files(1) by (simp add: linux_createSegment_def Let_def)
  obtain t w1 where o: "linux_openSegment sys w name = (Inr t, w1)" "files w1 = files w" "objects w1 = objects w"
    using files sys by (simp add: linux_openSegment_def can_open_def Let_def)
  have "NewLoader Linux sys w ?c = Some (Inr (newLoaderWithSegment (config_defaults ?c) t), w1)"
    unfolding NewLoader_def Let_def name by (simp add: CreateSegment_def OpenSegment_def create o(1))
  then show ?thesis using open_live [OF o(1) files] o(2,3) by (auto simp: newLoaderWithSegment_def)
qed

definition demo_rng :: rng where
  "demo_rng = sconst (Some [1, 0, 0, 0, 0, 0, 0, 0])"

lemma demo_rng_seed: "randSeed demo_rng = Some (1, demo_rng)"
  by (simp add: demo_rng_def)

lemma load_map_segment:
  assumes live: "live w s v obj data" and l: "l_segment l = s" "l_hashTable l = None"
    and es: "\<forall>kv\<in>set es. valid_entry kv" "distinct (map fst es)" "fits (length data) es"
    and rng: "randSeed rng = Some (seed, rng')" and fuel: "length es < fuel"
  shows "\<exists>l' src w' ht e data'. Segment_Load fuel pkgSeed rng map_data_source w l (NewMapDataSource es) =
      Some ((Loaded, int (length es), l', src), w') \<and>
    w' = w\<lparr>objects := (objects w)(obj \<mapsto> data')\<rparr> \<and> store_inv ht e data' \<and> length data' = length data \<and>
    stored ht data' = map_of es \<and> hdr_GenCounter (header_at data') = 1 \<and>
    header_at data' = loaded_header (length data) es seed (header_at data)"
proof -
  obtain r ht where r: "Loader_Load fuel pkgSeed rng (int (length data)) map_data_source l data (NewMapDataSource es) = Some r"
      "lo_end r = Loaded" "lo_count r = int (length es)" "store_inv ht (unat (l_dataEnd (lo_loader r))) (lo_data r)"
      "length (lo_data r) = length data" "stored ht (lo_data r) = map_of es" "hdr_GenCounter (header_at (lo_data r)) = 1"
      "header_at (lo_data r) = loaded_header (length data) es seed (header_at data)"
    using map_load_fresh [OF l(2) es rng fuel, of pkgSeed] by blast
  have "Segment_Load fuel pkgSeed rng map_data_source w l (NewMapDataSource es) =
      Some ((lo_end r, lo_count r, lo_loader r, lo_source r), w\<lparr>objects := (objects w)(obj \<mapsto> lo_data r)\<rparr>)"
    unfolding Segment_Load_def l(1) by (rule on_segment_live [OF live]) (simp add: r(1))
  then show ?thesis using r
    by (intro exI [of _ "lo_loader r"] exI [of _ "lo_source r"] exI [of _ "w\<lparr>objects := (objects w)(obj \<mapsto> lo_data r)\<rparr>"]
        exI [of _ ht] exI [of _ "unat (l_dataEnd (lo_loader r))"] exI [of _ "lo_data r"]) simp
qed

section \<open>The segment of a loader never changes\<close>

lemma put_segment: "Loader_put pkgSeed l data key value = Some (e, l', data') \<Longrightarrow> l_segment l' = l_segment l"
  by (auto simp: Loader_put_def Let_def bind_eq_Some_conv split: if_splits)

lemma Load_loop_segment:
  "Load_loop fuel pkgSeed nxt l data s count = Some (fin, c, l', data', s') \<Longrightarrow> l_segment l' = l_segment l"
proof (induction fuel arbitrary: l data s count)
  case (Suc fuel)
  obtain r s1 where n: "nxt s = Some (r, s1)" using Suc.prems by (cases "nxt s") auto
  show ?case
  proof (cases r)
    case (Inl e)
    then show ?thesis using Suc.prems n by auto
  next
    case (Inr kv)
    obtain k v where kv: "kv = (k, v)" by (cases kv)
    show ?thesis
    proof (cases "length k = 0 \<or> length k > MaxKeyLen")
      case True
      then show ?thesis using Suc n Inr kv by auto
    next
      case False
      obtain e l1 d1 where p: "Loader_put pkgSeed l data k v = Some (e, l1, d1)"
        using Suc.prems n Inr kv False by (cases "Loader_put pkgSeed l data k v") auto
      then show ?thesis using Suc.prems Suc.IH [of l1] n Inr kv False put_segment [OF p]
        by (cases e) auto
    qed
  qed
qed auto

lemma Init_segment: "Loader_Init rng c l data n = Some (e, l', data', rng') \<Longrightarrow> l_segment l' = l_segment l"
  by (auto simp: Loader_Init_def Let_def bind_eq_Some_conv split: if_splits)

lemma Load_segment:
  assumes "Loader_Load fuel pkgSeed rng c ds l data s = Some r"
  shows "l_segment (lo_loader r) = l_segment l"
  using assms Load_loop_segment Init_segment
  by (fastforce simp: Loader_Load_def bind_eq_Some_conv split: sum.splits prod.splits option.splits if_splits)

section \<open>Borrowing keeps the memory\<close>

lemma NewServer_live:
  "live w s v obj data \<Longrightarrow> \<exists>sv w1. NewServer w s addr = Some (sv, w1) \<and> sv_state sv = StateIdle"
  by (auto simp: NewServer_def Borrow_def Segment_Name_def Segment_Cap_def Segment_Data_def live_def new_server_def)

lemma borrow_live:
  assumes "NewServer w s addr = Some (sv, w1)"
  shows "live w s v obj data \<Longrightarrow> live w1 s v obj data" "files w1 = files w" "objects w1 = objects w"
    "sv_seg sv = s" "Segment_Name w s = Some (sv_segmentName sv)" "sv_state sv = StateIdle"
    "\<exists>seg. segments w1 s = Some seg \<and> \<not> seg_backedByFile seg"
  using assms
  by (auto simp: NewServer_def Borrow_def Segment_Name_def Segment_Cap_def Segment_Data_def live_def new_server_def
      bind_eq_Some_conv)

end
