(* ===== verification/Reload.thy ===== *)
theory Reload
  imports System
begin

text \<open>
  Loading more than once. The same loader may load again into its table; a new loader process that finds
  the segment already there opens it and, on its first \<open>Load\<close>, lays it out afresh under the readers that
  map it. The theorems say what readers find after either.
\<close>

section \<open>A second load by the same loader\<close>

text \<open>
  C18. A second load adds, it does not update: when a loader whose table is laid out loads a map of valid
  entries that fits, it reports all of them loaded and counts a generation, but every key that was
  stored keeps its old value; only the new keys get theirs. The entries take slots all the same.
\<close>

theorem reload_keeps_old_values:
  assumes inv: "loader_inv ht l data" and es: "\<forall>kv\<in>set es. valid_entry kv" "distinct (map fst es)"
    and room: "unat (l_dataEnd l) + chunks_size es \<le> length data" "used_count ht data + length es \<le> ncap ht"
    and fuel: "length es < fuel"
  shows "\<exists>r. Loader_Load fuel pkgSeed rng segSize map_data_source l data (NewMapDataSource es) = Some r \<and>
    lo_end r = Loaded \<and> lo_count r = int (length es) \<and>
    stored ht (lo_data r) = (\<lambda>k. if stored ht data k \<noteq> None then stored ht data k else map_of es k) \<and>
    used_count ht (lo_data r) = used_count ht data + length es \<and>
    hdr_GenCounter (header_at (lo_data r)) = hdr_GenCounter (header_at data) + 1"
proof -
  have src: "data_source (ds_Next map_data_source) map_pending map_delivers"
    unfolding map_data_source_def source.simps by (rule map_src.data_source_axioms)
  have opened: "ds_Open map_data_source (NewMapDataSource es) = (Inr (int (length es)), NewMapDataSource es)"
    by (simp add: map_data_source_def Map_Open_def NewMapDataSource_def)
  have "length data < 2 ^ 31" using inv store_invD(5) by (auto simp: loader_inv_def)
  then have "unat (l_dataEnd l) + chunks_size es < 2 ^ 31" using room(1) by linarith
  moreover have "if l_hashTable l = None then Loader_Init rng segSize l data (int (length es)) = Some (None, l, data, rng)
      else (l, data) = (l, data)" using inv by (simp add: loader_inv_def)
  ultimately obtain r where r: "Loader_Load fuel pkgSeed rng segSize map_data_source l data (NewMapDataSource es) = Some r"
      "header_at (lo_data r) = after_load (lo_end r) (header_at data)"
      "(lo_end r, lo_count r, abs_of ht (lo_loader r) (lo_data r)) =
        abs_load (ncap ht) (length data) es 0 (abs_of ht l data)"
    using data_source.Load_ready [OF src _ opened refl map_delivers_New [OF es(2)] fuel inv] by blast
  have "abs_load (ncap ht) (length data) es 0 (abs_of ht l data) = (Loaded, int (length es),
      \<lparr>as_map = map_of es ++ stored ht data, as_used = used_count ht data + length es,
       as_end = unat (l_dataEnd l) + chunks_size es\<rparr>)"
    using abs_load_fits [of "abs_of ht l data" es "length data" "ncap ht" 0] room
    by (simp add: valid_filter [OF es(1)] abs_of_def)
  then show ?thesis using r by (auto simp: abs_of_def after_load_def map_add_def split: option.split)
qed

theorem reload_keeps_old_values_witness:
  "\<exists>l data r. stored seg_ht data = [[9] \<mapsto> [5]] \<and>
    Loader_Load 9 77 demo_rng 200 map_data_source l data (NewMapDataSource [([9], [6])]) = Some r \<and>
    lo_end r = Loaded \<and> stored seg_ht (lo_data r) [9] = Some [5]"
proof -
  have room: "unat (l_dataEnd seg_loader) + 4 + length [9 :: byte] + length [5 :: byte] < 2 ^ 31"
    by (simp add: seg_loader_def)
  obtain l data where p: "loader_inv seg_ht l data" "length data = 200"
      "abs_of seg_ht l data = \<lparr>as_map = [[9] \<mapsto> [5]], as_used = 1, as_end = 118\<rparr>"
    using put_refines [OF seg_facts(1) room, of 77] unfolding seg_facts by (auto simp: abs_put_def Let_def)
  have "unat (l_dataEnd l) + chunks_size [([9], [6])] \<le> length data" "used_count seg_ht data + length [([9 :: byte], [6 :: byte])] \<le> ncap seg_ht"
    using p(2,3) seg_facts(3) by (simp_all add: abs_of_def)
  from reload_keeps_old_values [OF p(1) _ _ this, of 9 77 demo_rng 200] p(3) show ?thesis
    by (force simp: abs_of_def valid_entry_def)
qed

section \<open>A restarted loader\<close>

text \<open>With any seed but the persisted one a lookup finds nothing.\<close>

lemma stale_seed_misses:
  assumes inv: "store_inv ht e data" and seed: "seed \<noteq> stored_seed data"
  shows "HashTable_Get ht data (HashKeyWithSeed key seed) key = Some (None, False)"
proof -
  note d = store_invD [OF inv]
  have "\<not> slot_hit ht data (HashKeyWithSeed key seed) key i" if i: "i < ncap ht" for i
  proof
    assume hit: "slot_hit ht data (HashKeyWithSeed key seed) key i"
    have "HashKeyWithSeed key seed = HashKeyWithSeed key (stored_seed data)"
      using store_inv_entry [OF inv i slot_hit_used [OF hit]] hit by (auto simp: entry_ok_def slot_hit_def)
    then show False using seed by (simp add: hash_seed_inj)
  qed
  then have "lookup ht data (HashKeyWithSeed key seed) key = None" by (simp add: lookup_None first_hit_None [OF d(2)])
  then show ?thesis by (simp add: Get_lookup [OF d(1)] lookup_result_def)
qed

lemma same_geometry:
  fixes h :: header and seed :: u64
  assumes "fits sz es" "store_inv ht e data"
  defines "hdr \<equiv> loaded_header sz es seed h"
  shows "hdr_HashOffset hdr = hdr_HashOffset (header_at data)" "hdr_HashCap hdr = slots_for (int (length es))"
    "hdr_DataOffset hdr = data_offset_for (slots_for (int (length es)))"
proof -
  obtain k where k: "k \<le> 27" "unat (slots_for (int (length es))) = 2 ^ k"
    using slots_for_pow2 [of "length es"] assms(1) by (auto simp: fits_def)
  have "unat (data_offset_for (slots_for (int (length es)))) = 64 + 24 * 2 ^ k"
    using data_offset_for_eq [OF k(2,1)] by (simp add: unat_eq_nat_uint nat_add_distrib nat_mult_distrib nat_power_eq)
  then have offset: "data_offset_for (slots_for (int (length es))) = of_nat (64 + 24 * 2 ^ k)"
    by (rule word_of_unat)
  have "uint (hdr_HashOffset (header_at data)) = 64" using assms(2) by (simp add: store_inv_def layout_def)
  then have "hdr_HashOffset (header_at data) = 64" by (simp add: word_uint_eq_iff)
  then show "hdr_HashOffset hdr = hdr_HashOffset (header_at data)"
    by (simp add: hdr_def loaded_header_def init_header_def)
  show "hdr_HashCap hdr = slots_for (int (length es))"
    by (simp add: hdr_def loaded_header_def init_header_def)
  show "hdr_DataOffset hdr = data_offset_for (slots_for (int (length es)))"
    by (simp add: hdr_def loaded_header_def init_header_def k(2) offset)
qed

lemma initHashTable_live:
  assumes init: "initHashTable pkgSeed w r0 = Some r" and s: "r_segment r0 = Some s" and live: "live w s v obj data"
  shows "r_segment r = Some s" "r_data r = Some v" "r_seed r = headerHashSeed pkgSeed (header_at data)"
    "r_hashTable r = Some (NewHashTable (uint (hdr_HashOffset (header_at data)))
      (uint (hdr_DataOffset (header_at data))) (uint (hdr_HashCap (header_at data))))"
proof -
  have "view_bytes w (Some v) = Some data" "Segment_Data w s = Some (Some v)"
    using live by (simp_all add: live_def view_bytes_def)
  then show "r_segment r = Some s" "r_data r = Some v" "r_seed r = headerHashSeed pkgSeed (header_at data)"
    "r_hashTable r = Some (NewHashTable (uint (hdr_HashOffset (header_at data)))
      (uint (hdr_DataOffset (header_at data))) (uint (hdr_HashCap (header_at data))))"
    using init s by (auto simp: initHashTable_def headerOf_def bind_eq_Some_conv split: if_splits)
qed

text \<open>
  C11. A restart blinds the readers: a reader maps a segment that a loader has laid out and loaded. A
  new loader process finds the segment, opens it, and loads a map of valid entries that fits and for
  which it makes as many slots; it draws another seed. It reports success, and readers that open the
  segment now read the new map; but the old reader, which keeps the seed it read at the start, misses
  every key from now on. The generation counter does not tell: it is one, as after the first load.
\<close>

theorem restart_blinds_readers:
  assumes reach: "shm_reachable Linux w"
    and found: "files w (DevShmPath name) = Some obj" "can_open sys name (length data)" "can_open sys' name (length data)"
    and old: "store_inv ht e data" "hdr_GenCounter (header_at data) = 1"
    and reader: "live w s v obj data" "r_segment r0 = Some s" "initHashTable pkg w r0 = Some r"
    and es: "\<forall>kv\<in>set es. valid_entry kv" "distinct (map fst es)" "fits (length data) es"
    and geometry: "hdr_HashCap (header_at data) = slots_for (int (length es))"
      "hdr_DataOffset (header_at data) = data_offset_for (slots_for (int (length es)))"
    and rng: "randSeed rng = Some (seed, rng')" "seed \<noteq> stored_seed data" and fuel: "length es < fuel"
  shows "\<exists>l w1 l' src w2 q w3.
    NewLoader Linux sys w \<lparr>SegmentName = name, SegmentSize = sz, LoadFactor = lf\<rparr> = Some (Inr l, w1) \<and>
    Segment_Load fuel pkg1 rng map_data_source w1 l (NewMapDataSource es) =
      Some ((Loaded, int (length es), l', src), w2) \<and>
    NewReader pkg2 Linux sys' net w2 name [] = Some (Inr q, w3) \<and>
    (\<forall>k. Reader_Get w3 q k = Some (map_of es k, map_of es k \<noteq> None)) \<and>
    (\<forall>k. Reader_Get w2 r k = Some (None, False)) \<and>
    Reader_GenCounter w r = Some 1 \<and> Reader_GenCounter w2 r = Some 1"
proof -
  note d = store_invD [OF old(1)]
  have L: "64 \<le> length data" using d(2,8) data_base_le [OF d(2)] by linarith
  have obj: "objects w obj = Some data" using reader(1) by (simp add: live_def)
  have ids: "s < next_id w" "v < next_id w"
    using reader(1) world_inv_live [OF shm_reachable_inv [OF reach]] by (auto simp: live_def Segment_Data_def)
  obtain l w1 where l: "NewLoader Linux sys w \<lparr>SegmentName = name, SegmentSize = sz, LoadFactor = lf\<rparr> = Some (Inr l, w1)"
      "l_hashTable l = None" "live w1 (l_segment l) (next_id w) obj data" "files w1 = files w" "live w1 s v obj data"
    using reopen_loader [OF found(1) obj found(2), of sz lf] reader(1) ids by blast
  obtain l' src w2 ht' e' data' where ld:
      "Segment_Load fuel pkg1 rng map_data_source w1 l (NewMapDataSource es) = Some ((Loaded, int (length es), l', src), w2)"
      "w2 = w1\<lparr>objects := (objects w1)(obj \<mapsto> data')\<rparr>" "store_inv ht' e' data'" "length data' = length data"
      "stored ht' data' = map_of es" "hdr_GenCounter (header_at data') = 1"
      "header_at data' = loaded_header (length data) es seed (header_at data)"
    using load_map_segment [OF l(3) refl l(2) es rng(1) fuel, of pkg1] by blast
  have live2: "live w2 s v obj data'" unfolding ld(2) by (rule live_update [OF l(5) ld(4)])
  have w2: "files w2 (DevShmPath name) = Some obj" "objects w2 obj = Some data'" "can_open sys' name (length data')"
    using found l(4) ld(2,4) by simp_all
  from open_reader [OF w2(1,2) ld(3) w2(3), of pkg2 net] ld(5) obtain q w3 where
      q: "NewReader pkg2 Linux sys' net w2 name [] = Some (Inr q, w3)"
      "\<forall>k. Reader_Get w3 q k = Some (map_of es k, map_of es k \<noteq> None)"
    by (auto simp: reads_def)
  note r = initHashTable_live [OF reader(3,2,1)]
  have "layout ht' data'" using ld(3) by (simp add: store_inv_def)
  moreover have "hdr_HashOffset (header_at data') = hdr_HashOffset (header_at data)"
      "hdr_DataOffset (header_at data') = hdr_DataOffset (header_at data)"
      "hdr_HashCap (header_at data') = hdr_HashCap (header_at data)"
    using geometry same_geometry [OF es(3) old(1)] ld(7) by simp_all
  ultimately have "r_hashTable r = Some ht'" using layout_table [of ht' data'] r(4) by simp
  moreover have "r_seed r \<noteq> stored_seed data'"
    using r(3) headerHashSeed_stored [OF d(4)] rng(2) loaded_header_seed [OF ld(7) L] by simp
  moreover have "view_bytes w2 (r_data r) = Some data'" using live2 r(2) by (simp add: live_def view_bytes_def)
  ultimately have "\<forall>k. Reader_Get w2 r k = Some (None, False)"
    using stale_seed_misses [OF ld(3)] by (simp add: Reader_Get_def)
  moreover have "Reader_GenCounter w r = Some 1" "Reader_GenCounter w2 r = Some 1"
    using r(1) reader(1) live2 old(2) ld(4,6) L by (simp_all add: Reader_GenCounter_def live_def view_bytes_def)
  ultimately show ?thesis using l(1) ld(1) q by blast
qed

text \<open>The same map loaded twice, by two processes that draw the seeds 1 and 2.\<close>

lemma demo_loaded:
  "\<exists>w s v obj ht e data. shm_reachable Linux w \<and> live w s v obj data \<and> files w (DevShmPath [97]) = Some obj \<and>
    store_inv ht e data \<and> length data = 300 \<and> stored ht data = [[1] \<mapsto> [2, 3]] \<and>
    hdr_GenCounter (header_at data) = 1 \<and> stored_seed data = 1 \<and>
    header_at data = loaded_header 300 [([1], [2, 3])] 1 (header_at (replicate 300 0))"
proof -
  let ?es = "[([1], [2, 3])] :: (bytes \<times> bytes) list"
  have sane: "sys_sane sys_all" by (simp add: sys_sane_def sys_all_def)
  obtain s w where c: "linux_createSegment sys_all empty_world [97] (int 300) = (Inr s, w)"
    by (simp add: linux_createSegment_def sys_all_def empty_world_def Let_def)
  have "shm_step Linux empty_world w"
    by (rule shm_step.create [OF sane, where name = "[97]" and sz = "int 300" and r = "Inr s"]) (use c in \<open>simp add: CreateSegment_def\<close>)
  then have reach: "shm_reachable Linux w" by (rule shm_reachable.step [OF shm_reachable.start])
  obtain v obj where live: "live w s v obj (replicate 300 0)" "files w (DevShmPath [97]) = Some obj"
    using create_live(1,2) [OF c] by auto
  define l where "l = newLoaderWithSegment demo_config s"
  have l: "l_segment l = s" "l_hashTable l = None" by (simp_all add: l_def newLoaderWithSegment_def)
  have "slots_for 1 = 2" by (simp add: slots_for_def NextPow2_def)
  then have f: "fits (length (replicate 300 (0 :: byte))) ?es" by (simp add: fits_def)
  have e: "\<forall>kv\<in>set ?es. valid_entry kv" "distinct (map fst ?es)" by (simp_all add: valid_entry_def)
  obtain ht x data where d: "store_inv ht x data" "length data = length (replicate 300 (0 :: byte))"
      "stored ht data = map_of ?es" "hdr_GenCounter (header_at data) = 1"
      "header_at data = loaded_header (length (replicate 300 (0 :: byte))) ?es 1 (header_at (replicate 300 0))"
    using load_map_segment [OF live(1) l e f demo_rng_seed, of 9 5] by force
  have "view_store w (Some v) data = w\<lparr>objects := (objects w)(obj \<mapsto> data)\<rparr>"
      "view_bytes w (Some v) = Some (replicate 300 0)"
    using live(1) by (simp_all add: view_store_def view_bytes_def live_def)
  then have "shm_step Linux w (w\<lparr>objects := (objects w)(obj \<mapsto> data)\<rparr>)"
    using shm_step.store_bytes [of w "Some v" "replicate 300 0" data Linux] d(2) by simp
  then have "shm_reachable Linux (w\<lparr>objects := (objects w)(obj \<mapsto> data)\<rparr>)" by (rule shm_reachable.step [OF reach])
  moreover have "live (w\<lparr>objects := (objects w)(obj \<mapsto> data)\<rparr>) s v obj data" by (rule live_update [OF live(1) d(2)])
  moreover have "stored_seed data = 1" by (rule loaded_header_seed [OF d(5)]) simp
  ultimately show ?thesis using live(2) d
    by (intro exI [of _ "w\<lparr>objects := (objects w)(obj \<mapsto> data)\<rparr>"] exI [of _ s] exI [of _ v] exI [of _ obj]
        exI [of _ ht] exI [of _ x] exI [of _ data]) simp
qed

definition demo_rng2 :: rng where
  "demo_rng2 = sconst (Some [2, 0, 0, 0, 0, 0, 0, 0])"

theorem restart_blinds_readers_witness:
  "\<exists>w r l w1 l' src w2. Reader_Get w r [1] = Some (Some [2, 3], True) \<and>
    NewLoader Linux sys_all w \<lparr>SegmentName = [97], SegmentSize = 0, LoadFactor = NaN\<rparr> = Some (Inr l, w1) \<and>
    Segment_Load 9 5 demo_rng2 map_data_source w1 l (NewMapDataSource [([1], [2, 3])]) =
      Some ((Loaded, 1, l', src), w2) \<and>
    Reader_Get w2 r [1] = Some (None, False)"
proof -
  let ?es = "[([1], [2, 3])] :: (bytes \<times> bytes) list"
  obtain w s v obj ht e data where d: "shm_reachable Linux w" "live w s v obj data"
      "files w (DevShmPath [97]) = Some obj" "store_inv ht e data" "length data = 300"
      "stored ht data = [[1] \<mapsto> [2, 3]]" "hdr_GenCounter (header_at data) = 1" "stored_seed data = 1"
      "header_at data = loaded_header 300 ?es 1 (header_at (replicate 300 0))"
    using demo_loaded by blast
  have sys: "can_open sys_all [97] (length data)" by (simp add: can_open_def sys_all_def d(5))
  have "slots_for 1 = 2" by (simp add: slots_for_def NextPow2_def)
  then have f: "fits (length data) ?es" by (simp add: fits_def d(5))
  have es: "\<forall>kv\<in>set ?es. valid_entry kv" "distinct (map fst ?es)" by (simp_all add: valid_entry_def)
  have geo: "hdr_HashCap (header_at data) = slots_for (int (length ?es))"
      "hdr_DataOffset (header_at data) = data_offset_for (slots_for (int (length ?es)))"
    using same_geometry(2,3) [OF f d(4), of 1 "header_at (replicate 300 0)"] unfolding d(9) d(5) by simp_all
  have rng: "randSeed demo_rng2 = Some (2, demo_rng2)" "2 \<noteq> stored_seed data"
    by (subst randSeed.simps) (simp_all add: demo_rng2_def d(8))
  obtain r where r: "initHashTable 7 w (nil_reader\<lparr>r_segment := Some s\<rparr>) = Some r" "reader_usable (w, r)"
      "reader_content (w, r) = stored ht data"
    using reader_over_store [OF d(4,2), of "nil_reader\<lparr>r_segment := Some s\<rparr>" 7] by auto
  have "Reader_Get w r [1] = Some (Some [2, 3], True)" using Reader_Get_content [OF r(2)] r(3) d(6) by simp
  with restart_blinds_readers [OF d(1,3) sys sys d(4,7,2) _ r(1) es f geo rng, of 9 0 NaN 5 7
      "\<lparr>net_dial = (\<lambda>_. None), net_write = buffer\<rparr>"]
  show ?thesis by simp blast
qed

end
