(* ===== verification/Featload.thy ===== *)
theory Featload
  imports System "HOL-Library.Multiset"
begin

text \<open>
  The programs: the daemon \<open>cmd/featload\<close>, whose \<open>main\<close> builds the segment and then serves it, and
  \<open>examples/featload-demo\<close>, which loads four entries and reads them back in one process. A program is the
  sequence of its calls into the library; what it logs and prints is left out, the values it prints are
  its result. The command line is a record, \<open>flag.Parse\<close> is not modelled.
\<close>

section \<open>cmd/featload\<close>

record flags =
  fl_name :: go_string
  fl_size :: int
  fl_uds :: go_string
  fl_source :: go_string
  fl_version :: bool

definition default_flags :: flags where
  \<comment> \<open>\<open>"featcache"\<close>, \<open>2<<30\<close> and \<open>"\x00featcache"\<close>\<close>
  "default_flags = \<lparr>fl_name = [102, 101, 97, 116, 99, 97, 99, 104, 101], fl_size = 2 * 2 ^ 30,
     fl_uds = 0 # [102, 101, 97, 116, 99, 97, 99, 104, 101], fl_source = [], fl_version = False\<rparr>"

definition uds_address :: "go_string \<Rightarrow> go_string" where
  \<comment> \<open>the four characters \<open>\x00\<close> in front of an address stand for a NUL\<close>
  "uds_address s = (if take 4 s = [92, 120, 48, 48] then 0 # drop 4 s else s)"

datatype main_end = PrintedVersion | Fatal error | Serving server loader | OutOfFuel

definition serve_segment :: "world \<Rightarrow> loader \<Rightarrow> go_string \<Rightarrow> (main_end \<times> world) option" where
  "serve_segment w l addr =
    do { (sv, w) \<leftarrow> NewServer w (Loader_Segment l) addr;
         Some (Serving (SetState sv StateReady) l, w) }"

definition featload_main ::
  "nat \<Rightarrow> u64 \<Rightarrow> rng \<Rightarrow> sys \<Rightarrow> file_system \<Rightarrow> world \<Rightarrow> flags \<Rightarrow> (main_end \<times> world) option" where
  \<comment> \<open>up to the call of \<open>server.Listen\<close>\<close>
  "featload_main fuel pkgSeed rng sys fs w fl =
    (if fl_version fl then Some (PrintedVersion, w)
     else do {
       (res, w) \<leftarrow> NewLoader Linux sys w
         \<lparr>SegmentName = fl_name fl, SegmentSize = fl_size fl, LoadFactor = Finite 0\<rparr>;
       case res of
         Inl e \<Rightarrow> Some (Fatal e, w)
       | Inr l \<Rightarrow>
           if fl_source fl \<noteq> [] then do {
             ((fin, count, l, src), w) \<leftarrow>
               Segment_Load fuel pkgSeed rng (line_data_source fs) w l (NewLineDataSource (fl_source fl));
             case fin of
               LoadFailed e \<Rightarrow> Some (Fatal e, w)
             | LoadOutOfFuel \<Rightarrow> Some (OutOfFuel, w)
             | Loaded \<Rightarrow> serve_segment w l (uds_address (fl_uds fl)) }
           else do {
             ((err, l, rng), w) \<leftarrow> Segment_Init rng w l 0;
             case err of
               Some e \<Rightarrow> Some (Fatal e, w)
             | None \<Rightarrow> serve_segment w l (uds_address (fl_uds fl)) } })"

definition featload_signal :: "sys \<Rightarrow> world \<Rightarrow> loader \<Rightarrow> (error option \<times> world) option" where
  \<comment> \<open>the goroutine that handles SIGINT and SIGTERM, before \<open>os.Exit\<close>\<close>
  "featload_signal sys w l = Loader_Close Linux sys w l"

definition featload_main_other :: "flags \<Rightarrow> main_end" where
  \<comment> \<open>\<open>main_other.go\<close>: every other platform\<close>
  "featload_main_other fl = (if fl_version fl then PrintedVersion else Fatal ErrNotSupported)"

section \<open>examples/featload-demo\<close>

text \<open>
  The four entries of the demo, under short names for their strings. \<open>range\<close> over the map visits them in
  an order of the runtime's choice: the argument \<open>es\<close> lists them in this order.
\<close>

definition demo_key :: "nat \<Rightarrow> bytes" where
  \<comment> \<open>\<open>"user:123:emb"\<close>, \<open>"tokenizer:vocab"\<close>, \<open>"item:456:emb"\<close>, \<open>"feature:dict"\<close> and \<open>"missing:key"\<close>\<close>
  "demo_key i =
    [[117, 115, 101, 114, 58, 49, 50, 51, 58, 101, 109, 98],
     [116, 111, 107, 101, 110, 105, 122, 101, 114, 58, 118, 111, 99, 97, 98],
     [105, 116, 101, 109, 58, 52, 53, 54, 58, 101, 109, 98],
     [102, 101, 97, 116, 117, 114, 101, 58, 100, 105, 99, 116],
     [109, 105, 115, 115, 105, 110, 103, 58, 107, 101, 121]] ! i"

definition demo_value :: "nat \<Rightarrow> bytes" where
  \<comment> \<open>\<open>"embedding_data_123"\<close>, \<open>"vocab_data"\<close>, \<open>"embedding_data_456"\<close>, \<open>"sparse_feature_dictionary"\<close>\<close>
  "demo_value i =
    [[101, 109, 98, 101, 100, 100, 105, 110, 103, 95, 100, 97, 116, 97, 95, 49, 50, 51],
     [118, 111, 99, 97, 98, 95, 100, 97, 116, 97],
     [101, 109, 98, 101, 100, 100, 105, 110, 103, 95, 100, 97, 116, 97, 95, 52, 53, 54],
     [115, 112, 97, 114, 115, 101, 95, 102, 101, 97, 116, 117, 114, 101, 95, 100, 105, 99, 116, 105, 111, 110, 97, 114, 121]] ! i"

definition demo_entries :: "(bytes \<times> bytes) list" where
  "demo_entries = map (\<lambda>i. (demo_key i, demo_value i)) [0, 1, 2, 3]"

definition demo_name :: go_string where
  \<comment> \<open>\<open>"featcache-demo"\<close>\<close>
  "demo_name = [102, 101, 97, 116, 99, 97, 99, 104, 101, 45, 100, 101, 109, 111]"

record demo_output =
  do_count :: int
  do_get :: "bytes option \<times> bool"
  do_batch :: "bytes option list \<times> bool list"
  do_close :: "error option"
  do_destroy :: "error option"

definition demo_main ::
  "nat \<Rightarrow> u64 \<Rightarrow> rng \<Rightarrow> sys \<Rightarrow> world \<Rightarrow> (bytes \<times> bytes) list \<Rightarrow> ((error + demo_output) \<times> world) option" where
  \<comment> \<open>\<open>Inl\<close> is a \<open>log.Fatalf\<close>; a key that is not found is fatal as well\<close>
  "demo_main fuel pkgSeed rng sys w es =
    do { (res, w) \<leftarrow> NewLoader Linux sys w
           \<lparr>SegmentName = demo_name, SegmentSize = 64 * 1024 * 1024, LoadFactor = Finite 0\<rparr>;
         case res of
           Inl e \<Rightarrow> Some (Inl e, w)
         | Inr l \<Rightarrow> do {
             ((err, l, rng), w) \<leftarrow> Segment_Init rng w l 2;
             case err of
               Some e \<Rightarrow> Some (Inl e, w)
             | None \<Rightarrow> do {
                 ((fin, count, l, src), w) \<leftarrow> Segment_Load fuel pkgSeed rng map_data_source w l (NewMapDataSource es);
                 case fin of
                   LoadFailed e \<Rightarrow> Some (Inl e, w)
                 | LoadOutOfFuel \<Rightarrow> None
                 | Loaded \<Rightarrow> do {
                     r \<leftarrow> NewReaderFromSegment pkgSeed w (Loader_Segment l);
                     (v, ok) \<leftarrow> Reader_Get w r (demo_key 0);
                     if \<not> ok then Some (Inl ErrNotExist, w)
                     else do {
                       batch \<leftarrow> Reader_GetBatch w r [demo_key 1, demo_key 4];
                       (e1, r, w) \<leftarrow> Reader_Close Linux sys w r;
                       (e2, w) \<leftarrow> Loader_Destroy Linux sys w l;
                       Some (Inr \<lparr>do_count = count, do_get = (v, ok), do_batch = batch, do_close = e1, do_destroy = e2\<rparr>, w) } } } } }"

section \<open>The demo's entries\<close>

lemma demo_entries_ok: "\<forall>kv\<in>set demo_entries. valid_entry kv" "distinct (map fst demo_entries)"
    "length demo_entries = 4" "chunks_size demo_entries = 138"
  by (simp_all add: demo_entries_def demo_key_def demo_value_def valid_entry_def)

lemma chunks_size_mset: "mset es = mset es' \<Longrightarrow> chunks_size es = chunks_size es'"
proof -
  have "chunks_size xs = (\<Sum>(k, v)\<in>#mset xs. 4 + length k + length v)" for xs
    by (induction xs) auto
  then show "mset es = mset es' \<Longrightarrow> chunks_size es = chunks_size es'" by simp
qed

lemma demo_order:
  assumes "mset es = mset demo_entries"
  shows "\<forall>kv\<in>set es. valid_entry kv" "distinct (map fst es)" "length es = 4" "chunks_size es = 138"
    "map_of es = map_of demo_entries"
proof -
  have s: "set es = set demo_entries" using assms by (rule mset_eq_setD)
  then show "\<forall>kv\<in>set es. valid_entry kv" using demo_entries_ok(1) by simp
  have "mset (map fst es) = mset (map fst demo_entries)" using assms by simp
  then show d: "distinct (map fst es)" using demo_entries_ok(2) by (metis mset_eq_imp_distinct_iff)
  show "length es = 4" using assms demo_entries_ok(3) by (metis mset_eq_length)
  show "chunks_size es = 138" using chunks_size_mset [OF assms] demo_entries_ok(4) by simp
  show "map_of es = map_of demo_entries"
    using d demo_entries_ok(2) s by (simp add: map_of_inject_set)
qed

lemma demo_content:
  "map_of demo_entries (demo_key 0) = Some (demo_value 0)" "map_of demo_entries (demo_key 1) = Some (demo_value 1)"
  "map_of demo_entries (demo_key 4) = None" "map_of demo_entries (demo_key (Suc 0)) = Some (demo_value (Suc 0))"
  by (simp_all add: demo_entries_def demo_key_def demo_value_def)

text \<open>\<open>Init(2)\<close> makes four slots, which is exactly enough.\<close>

lemma demo_load:
  assumes live: "live w s v obj (replicate sz 0)" and l: "l_segment l = s" "l_hashTable l = None"
    and sz: "298 \<le> sz" "sz < 2 ^ 31" and rng: "randSeed rng = Some (seed, rng')"
    and es: "mset es = mset demo_entries" and fuel: "4 < fuel"
  shows "\<exists>l1 w1 l2 src data ht e. Segment_Init rng w l 2 = Some ((None, l1, rng'), w1) \<and>
    Segment_Load fuel pkgSeed rng' map_data_source w1 l1 (NewMapDataSource es) = Some ((Loaded, 4, l2, src),
      w\<lparr>objects := (objects w)(obj \<mapsto> data)\<rparr>) \<and>
    l_segment l2 = s \<and> store_inv ht e data \<and> length data = sz \<and> stored ht data = map_of demo_entries"
proof -
  note o = demo_order [OF es]
  have len: "length (replicate sz 0 :: bytes) = sz" by simp
  have cap: "unat (slots_for (int 2)) = 4" by (simp add: slots_for_def NextPow2_def)
  obtain ht l1 d1 where i: "Loader_Init rng (int sz) l (replicate sz 0) 2 = Some (None, l1, d1, rng')"
      "loader_inv ht l1 d1" "ncap ht = 4" "length d1 = sz"
      "abs_of ht l1 d1 = \<lparr>as_map = Map.empty, as_used = 0, as_end = 160\<rparr>"
    using Init_establishes [of 2 "replicate sz 0" rng seed rng' l] sz rng unfolding cap by auto
  define w1 where "w1 = w\<lparr>objects := (objects w)(obj \<mapsto> d1)\<rparr>"
  have init: "Segment_Init rng w l 2 = Some ((None, l1, rng'), w1)"
    unfolding Segment_Init_def l(1) w1_def by (rule on_segment_live [OF live]) (simp add: i(1))
  have live1: "live w1 s v obj d1" unfolding w1_def by (rule live_update [OF live]) (simp add: i(4))
  have s1: "l_segment l1 = s" using Init_segment [OF i(1)] l(1) by simp
  have "unat (l_dataEnd l1) = 160" using i(5) by (simp add: abs_of_def)
  then have room: "unat (l_dataEnd l1) + chunks_size es < 2 ^ 31" using o(4) by simp
  have src: "ds_Open map_data_source (NewMapDataSource es) = (Inr 4, NewMapDataSource es)"
      "ds_Next map_data_source = Map_Next"
    using o(3) by (simp_all add: map_data_source_def Map_Open_def NewMapDataSource_def)
  have "if l_hashTable l1 = None then Loader_Init rng' (int sz) l1 d1 4 = Some (None, l1, d1, rng')
      else (l1, d1) = (l1, d1)" using i(2) by (simp add: loader_inv_def)
  then obtain r where r: "Loader_Load fuel pkgSeed rng' (int sz) map_data_source l1 d1 (NewMapDataSource es) = Some r"
      "loader_inv ht (lo_loader r) (lo_data r)" "length (lo_data r) = sz"
      "(lo_end r, lo_count r, abs_of ht (lo_loader r) (lo_data r)) =
        abs_load 4 sz es 0 \<lparr>as_map = Map.empty, as_used = 0, as_end = 160\<rparr>"
    using map_src.Load_ready [OF _ src map_delivers_New [OF o(2)] _ i(2) room, of l1 rng' "int sz" d1 rng' fuel pkgSeed]
      fuel o(3) i(3-5) by auto
  have "filter valid_entry es = es" by (rule valid_filter [OF o(1)])
  then have "abs_load 4 sz es 0 \<lparr>as_map = Map.empty, as_used = 0, as_end = 160\<rparr> =
      (Loaded, 4, \<lparr>as_map = map_of es, as_used = 4, as_end = 298\<rparr>)"
    using abs_load_fits [of "\<lparr>as_map = Map.empty, as_used = 0, as_end = 160\<rparr>" es sz 4 0] o(3,4) sz by simp
  then have e: "lo_end r = Loaded" "lo_count r = 4" "stored ht (lo_data r) = map_of demo_entries"
    using r(4) o(5) by (auto simp: abs_of_def)
  have "Segment_Load fuel pkgSeed rng' map_data_source w1 l1 (NewMapDataSource es) =
      Some ((lo_end r, lo_count r, lo_loader r, lo_source r), w1\<lparr>objects := (objects w1)(obj \<mapsto> lo_data r)\<rparr>)"
    unfolding Segment_Load_def s1 by (rule on_segment_live [OF live1]) (simp add: i(4) r(1))
  moreover have "l_segment (lo_loader r) = s" using Load_segment [OF r(1)] s1 by simp
  ultimately show ?thesis using init e r(2,3) by (auto simp: w1_def loader_inv_def)
qed

end
