(* ===== verification/Shutdown.thy ===== *)
theory Shutdown
  imports Featload
begin

text \<open>
  The end of things: closing a reader, closing the segment under a server, and the accept loop. What a
  handle shows after its memory is unmapped is not an error value in Go but a fault; in the model it is
  \<open>None\<close>.
\<close>

section \<open>Closing a segment\<close>

definition mapped_at :: "world \<Rightarrow> nat \<Rightarrow> nat \<Rightarrow> bool" where
  \<comment> \<open>segment \<open>s\<close> holds slice \<open>v\<close>, obtained from \<open>Mmap\<close>\<close>
  "mapped_at w s v \<longleftrightarrow> (\<exists>seg. segments w s = Some seg \<and> seg_data seg = Some v \<and> seg_mapped seg)"

definition unmapped :: "world \<Rightarrow> nat \<Rightarrow> nat \<Rightarrow> world" where
  "unmapped w s v =
    w\<lparr>segments := (segments w)(s := map_option (\<lambda>seg. seg\<lparr>seg_mapped := False, seg_data := None\<rparr>) (segments w s)),
      views := (views w)(v := None)\<rparr>"

lemma close_mapped:
  "mapped_at w s v \<Longrightarrow> sys_munmap_ok sys \<Longrightarrow> linux_close sys w s = Some (None, unmapped w s v)"
  by (auto simp: mapped_at_def linux_close_def unmapped_def Let_def)

lemma unmapped_simps:
  "mapped_at w s v \<Longrightarrow> Segment_Data (unmapped w s v) s = Some None"
  "view_bytes (unmapped w s v) (Some v) = None"
  "u \<noteq> Some v \<Longrightarrow> view_bytes (unmapped w s v) u = view_bytes w u"
  "t \<noteq> s \<Longrightarrow> segments (unmapped w s v) t = segments w t"
  by (auto simp: mapped_at_def unmapped_def Segment_Data_def view_bytes_def split: option.splits)

section \<open>A closed reader\<close>

text \<open>
  Using a reader after \<open>Close\<close>: closing an open reader unmaps its segment, and closing it again does
  nothing; but \<open>Get\<close> does not look at the closed flag. On a table with slots it reads the memory that
  is gone, whatever the key, and faults, as \<open>GenCounter\<close> does on the nil slice. A reader with another
  mapping of the same memory is not affected.
\<close>

lemma closed_reader_faults:
  assumes seg: "mapped_at w s v" "sys_munmap_ok sys"
    and r: "r_segment r = Some s" "r_data r = Some v" "r_hashTable r = Some ht" "0 < capacity ht" "\<not> r_closed r"
  shows "\<exists>r' w'. Reader_Close Linux sys w r = Some (None, r', w') \<and> Reader_Close Linux sys w' r' = Some (None, r', w') \<and>
    Reader_Get w' r' key = None \<and> Reader_GenCounter w' r' = None \<and>
    (r_data q \<noteq> Some v \<longrightarrow> Reader_Get w' q key = Reader_Get w q key)"
proof -
  define r' where "r' = r\<lparr>r_closed := True, r_conn := (if r_conn r = NoConn then NoConn else ConnClosed)\<rparr>"
  have "Reader_Close Linux sys w r = Some (None, r', unmapped w s v)"
    using r close_mapped [OF seg] by (simp add: Reader_Close_def Segment_Close_def r'_def Let_def)
  moreover have "Reader_Close Linux sys (unmapped w s v) r' = Some (None, r', unmapped w s v)"
    by (simp add: Reader_Close_def r'_def)
  moreover have "Reader_Get (unmapped w s v) r' key = None" "Reader_GenCounter (unmapped w s v) r' = None"
    using r unmapped_simps(1) [OF seg(1)] unmapped_simps(2) [of w s v]
    by (simp_all add: Reader_Get_def Reader_GenCounter_def r'_def view_bytes_def headerOf_def)
  moreover have "r_data q \<noteq> Some v \<longrightarrow> Reader_Get (unmapped w s v) q key = Reader_Get w q key"
    by (simp add: Reader_Get_def unmapped_simps(3) cong: option.case_cong)
  ultimately show ?thesis by blast
qed

section \<open>A server over a closed segment\<close>

text \<open>
  C34. The signal handler pulls the segment from under the server: \<open>featload\<close> closes the
  loader, and with it the \<open>Segment\<close> that the server shares, while the server still accepts.
  From then on a client that asks for the layout or the status takes the daemon down with a panic in its
  handler; only the other requests are still answered, with an error status.
\<close>

theorem request_after_signal_panics:
  assumes seg: "mapped_at w (Loader_Segment l) v" "sys_munmap_ok sys" and sv: "sv_seg s = Loader_Segment l"
    and c: "conn_in c = request_bytes req @ rest" "conn_write_ok c"
  shows "\<exists>w'. featload_signal sys w l = Some (None, w') \<and>
    (if req_Op req = OpGetInfo \<or> req_Op req = OpGetStatus then handleConn w' s c = None
     else \<exists>c'. handleConn w' s c = Some c' \<and> conn_closed c' \<and> conn_out c' = conn_out c @ response_bytes error_response)"
proof -
  let ?w = "unmapped w (l_segment l) v"
  have m: "mapped_at w (l_segment l) v" "sv_seg s = l_segment l" using seg(1) sv by (simp_all add: Loader_Segment_def)
  have "featload_signal sys w l = Some (None, ?w)"
    using close_mapped [OF m(1) seg(2)] by (simp add: featload_signal_def Loader_Close_def Segment_Close_def)
  moreover have "segmentResponse ?w s = None"
    using unmapped_simps(1) [OF m(1)] by (simp add: segmentResponse_def m(2) view_bytes_def headerOf_def)
  moreover obtain req' where "DecodeRequest (conn_in c) = (Inr req', rest)" "req_Op req' = req_Op req"
    using DecodeRequest_bytes [of req rest] c(1) by auto
  ultimately show ?thesis
    by (auto simp: handleConn_def handleGetInfo_def handleGetStatus_def EncodeResponse_def conn_write_def
        response_header_eq c(2))
qed

section \<open>The accept loop\<close>

definition rounds_ok :: "bool \<Rightarrow> (bool \<times> accept \<times> bool) list \<Rightarrow> bool" where
  \<comment> \<open>the closed flag, as the loop reads it, starts at this value and never goes back to false\<close>
  "rounds_ok shut rounds \<longleftrightarrow> sorted (shut # concat (map (\<lambda>(c, _, c'). [c, c']) rounds))"

lemma rounds_ok_Cons: "rounds_ok shut ((c, a, c') # rounds) \<longleftrightarrow> shut \<le> c \<and> c \<le> c' \<and> rounds_ok c' rounds"
  unfolding rounds_ok_def by (simp add: sorted2 del: sorted_simps(2)) (auto simp: sorted_simps(2))

lemma rounds_ok_closed: "rounds_ok True rounds \<Longrightarrow> \<forall>(c, a, c')\<in>set rounds. c"
  by (induction rounds) (fastforce simp: rounds_ok_Cons)+

lemma accept_loop_eq:
  "rounds_ok shut rounds \<Longrightarrow> accept_loop rounds =
    ([x. (False, Accepted x, c') \<leftarrow> rounds], \<exists>(c, a, c')\<in>set rounds. c \<or> a = AcceptError \<and> c')"
proof (induction rounds arbitrary: shut rule: accept_loop.induct)
  case (2 c a c' rounds)
  have rest: "rounds_ok c' rounds" using 2 by (simp add: rounds_ok_Cons)
  have none: "[x. (False, Accepted x, c') \<leftarrow> rounds] = []" if "c \<or> c'"
    using rounds_ok_closed [of rounds] rest that 2(3) by (fastforce simp: rounds_ok_Cons)
  show ?case
    using 2 rest none by (auto split: accept.split prod.split)
qed simp

text \<open>
  C33. \<open>Listen\<close>, once the socket is bound: the connections it hands to its handlers are, in
  order, exactly those accepted in rounds that began while the server was open; failing accepts do not
  end it; it returns exactly when it sees the closed flag. A server that was closed before it listens
  accepts nothing, and leaves the listener it has just opened open.
\<close>

theorem Listen_serves_until_closed:
  assumes ok: "listen_ok (sv_udsAddr s)" and flags: "rounds_ok (sv_closed s) rounds"
    and run: "Listen listen_ok sys w s rounds = (e, s', w', conns, ended)"
  shows "e = None \<and> conns = [x. (False, Accepted x, c') \<leftarrow> rounds] \<and>
    (ended \<longleftrightarrow> (\<exists>(c, a, c')\<in>set rounds. c \<or> a = AcceptError \<and> c')) \<and>
    s' = s\<lparr>sv_ln := Some True\<rparr> \<and> (sv_closed s \<longrightarrow> conns = [])"
proof -
  have "sv_closed s \<Longrightarrow> [x. (False, Accepted x, c') \<leftarrow> rounds] = []"
    using rounds_ok_closed [of rounds] flags by fastforce
  then show ?thesis using run ok by (auto simp: Listen_def accept_loop_eq [OF flags] Let_def)
qed

section \<open>Witnesses\<close>

lemma demo_mapped: "mapped_at demo_world 2 1" "mapped_at hs_world 2 1"
  using demo_world_facts create_segment [OF hs_create]
  by (simp_all add: mapped_at_def demo_segment_def empty_world_def)

lemma demo_munmap: "sys_munmap_ok sys_all"
  by (simp add: sys_all_def)

theorem request_after_signal_panics_witness:
  "\<exists>w'. featload_signal sys_all hs_world (newLoaderWithSegment demo_config 2) = Some (None, w') \<and>
    handleConn w' (new_server [97] 64 [0] 2) (fresh_conn (request_bytes \<lparr>req_Op = OpGetInfo, req_Key = []\<rparr> @ [])) = None"
  using request_after_signal_panics [of hs_world "newLoaderWithSegment demo_config 2" 1 sys_all "new_server [97] 64 [0] 2"
      "fresh_conn (request_bytes \<lparr>req_Op = OpGetInfo, req_Key = []\<rparr> @ [])" "\<lparr>req_Op = OpGetInfo, req_Key = []\<rparr>" "[]"]
    demo_mapped(2) demo_munmap
  by (auto simp: newLoaderWithSegment_def new_server_def fresh_conn_def Loader_Segment_def)

theorem Listen_serves_until_closed_witness:
  "\<exists>s' w'. Listen (\<lambda>_. True) sys_all hs_world (new_server [97] 64 [0] 2)
      [(False, Accepted (fresh_conn [7]), False), (False, AcceptError, False), (False, AcceptError, True)] =
    (None, s', w', [fresh_conn [7]], True)"
proof -
  let ?rounds = "[(False, Accepted (fresh_conn [7]), False), (False, AcceptError, False), (False, AcceptError, True)]"
  obtain e s' w' conns ended where run: "Listen (\<lambda>_. True) sys_all hs_world (new_server [97] 64 [0] 2) ?rounds =
      (e, s', w', conns, ended)"
    by (cases "Listen (\<lambda>_. True) sys_all hs_world (new_server [97] 64 [0] 2) ?rounds")
  have "rounds_ok (sv_closed (new_server [97] 64 [0] 2)) ?rounds" by (simp add: rounds_ok_def new_server_def)
  from Listen_serves_until_closed [OF _ this run] run show ?thesis by simp
qed

end
