(* ===== verification/Estimate.thy ===== *)
theory Estimate
  imports Loader_Limits
begin

text \<open>
  \<open>Init\<close> for estimates beyond \<open>2^26\<close>, where the size of the table passes 32 bits, and what that makes of
  a large input file: \<open>FileDataSource.Open\<close> estimates one entry for every eight bytes of the file.
\<close>

section \<open>Sizing beyond 32 bits\<close>

lemma unat_double: "n < 2 ^ 31 \<Longrightarrow> unat (word_of_int (int n) * 2 :: u32) = 2 * n"
  using unat_of_nat_small [of "2 * n", where 'a = 32] by (simp add: mult.commute)

lemma slots_for_bits:
  assumes "2 ^ 26 < n" "n < 2 ^ 31"
  obtains m where "slots_for (int n) = 2 ^ Suc m" "m \<in> {27, 28, 29, 30, 31}" "2 ^ m < 2 * n" "2 * n \<le> 2 ^ Suc m"
proof (cases "word_of_int (int n) * 2 :: u32" rule: NextPow2_cases)
  case small
  then show thesis using unat_double [OF assms(2)] assms(1) by simp
next
  case (pow m)
  note b = pow(4,5) [unfolded unat_double [OF assms(2)]]
  have "(2::nat) ^ 27 < 2 ^ Suc m" using b(2) assms(1) by simp
  then have "27 < Suc m" by (rule power_less_imp_less_exp [rotated]) simp
  with pow(6) have "m \<in> {27, 28, 29, 30, 31}" by auto
  then show thesis using pow(3) b unfolding slots_for_def [symmetric] by (intro that) auto
qed

lemma slots_for_small_segment:
  assumes "2 ^ 26 < n" "n \<le> 2 ^ 27"
  shows "slots_for (int n) = 2 ^ 28"
proof -
  have "n < 2 ^ 31" using assms(2) by simp
  then obtain m where "slots_for (int n) = 2 ^ Suc m" "m \<in> {27, 28, 29, 30, 31}" "2 ^ m < 2 * n"
    using slots_for_bits [OF assms(1)] by metis
  then show ?thesis using assms(2) by auto
qed

lemma slots_for_wrapped_bytes:
  assumes "2 ^ 27 < n" "n \<le> 2 ^ 30"
  shows "slots_for (int n) \<in> {2 ^ 29, 2 ^ 30, 2 ^ 31}"
proof -
  have "2 ^ 26 < n" "n < 2 ^ 31" using assms by simp_all
  then obtain m where "slots_for (int n) = 2 ^ Suc m" "m \<in> {27, 28, 29, 30, 31}" "2 ^ m < 2 * n" "2 * n \<le> 2 ^ Suc m"
    using slots_for_bits by metis
  then show ?thesis using assms by auto
qed

lemma slots_for_none:
  assumes "2 ^ 30 < n" "n < 2 ^ 31"
  shows "slots_for (int n) = 0"
proof -
  have "2 ^ 26 < n" using assms by simp
  then obtain m where "slots_for (int n) = 2 ^ Suc m" "m \<in> {27, 28, 29, 30, 31}" "2 * n \<le> 2 ^ Suc m"
    using slots_for_bits assms(2) by metis
  then show ?thesis using assms(1) by (auto simp: word_eq_iff_unsigned)
qed

text \<open>The slots' bytes, reduced to 32 bits: half the range, then nothing at all.\<close>

lemma data_offset_for_2_28: "uint (data_offset_for (2 ^ 28)) = 2 ^ 31 + 64"
  by (simp add: data_offset_for_def Align_def)

lemma data_offset_for_wrapped:
  "c \<in> {0, 2 ^ 29, 2 ^ 30, 2 ^ 31} \<Longrightarrow> data_offset_for c = 64"
  by (auto simp: data_offset_for_def Align_def)

section \<open>Init beyond 32 bits\<close>

lemma zero_loop_past:
  "length data < sb + i + n \<Longrightarrow> 0 < n \<Longrightarrow> zero_loop n data (int sb) (int i) = None"
proof (induction n arbitrary: i data)
  case (Suc n)
  show ?case
  proof (cases "put_index data (int sb + int i) 0")
    case (Some d)
    then have d: "length d = length data" "sb + i < length data" by (auto simp: put_index_def split: if_splits)
    then have "zero_loop n d (int sb) (int (Suc i)) = None" using Suc.prems(1) by (intro Suc.IH) auto
    then show ?thesis using Some by (simp add: add.commute)
  qed simp
qed simp

lemma InitHashTable_past:
  assumes "length data < 64 + 24 * n" "0 < n"
  shows "InitHashTable data 64 (int n) = None"
  using zero_loop_past [of data 64 0 "24 * n"] assms by (simp add: InitHashTable_def nat_mult_distrib mult.commute)

lemma Init_refused:
  assumes "2 ^ 26 < n" "n \<le> 2 ^ 27" "segSize \<le> 2 ^ 31 + 64"
  shows "Loader_Init rng segSize l data (int n) = Some (Some ErrSegmentTooSmall, l, data, rng)"
  using assms(3) unfolding Loader_Init_def slots_for_small_segment [OF assms(1,2)] Let_def data_offset_for_2_28 by simp

lemma Init_runs_past_segment:
  assumes n: "2 ^ 27 < n" "n \<le> 2 ^ 30" and len: "64 < length data" "length data < 64 + 24 * 2 ^ 29"
    and rng: "randSeed rng = Some (seed, rng')"
  shows "Loader_Init rng (int (length data)) l data (int n) = None"
proof -
  have cap: "slots_for (int n) \<in> {2 ^ 29, 2 ^ 30, 2 ^ 31}" by (rule slots_for_wrapped_bytes [OF n])
  then have off: "data_offset_for (slots_for (int n)) = 64" by (intro data_offset_for_wrapped) auto
  have ge: "2 ^ 29 \<le> unat (slots_for (int n))" using cap by (auto simp: unat_exp)
  then have "0 < unat (slots_for (int n))" by (rule less_le_trans [rotated]) simp
  then have "InitHashTable d 64 (uint (slots_for (int n))) = None" if "length d = length data" for d
    unfolding uint_nat using that ge len(2) by (intro InitHashTable_past) auto
  moreover have "header_ok h \<Longrightarrow> length (set_header data h) = length data" for h
    using len(1) by simp
  ultimately show ?thesis using len rng
    by (auto simp: Loader_Init_def Let_def off setHeaderHashSeed_def header_ok_def header_at_def)
qed

lemma Init_empty_table:
  assumes n: "2 ^ 30 < n" "n < 2 ^ 31" and len: "64 < length data" and rng: "randSeed rng = Some (seed, rng')"
  shows "Loader_Init rng (int (length data)) l data (int n) =
    Some (None, l\<lparr>l_hashTable := Some (NewHashTable 64 64 0), l_dataEnd := 64\<rparr>,
      set_header data (init_header (length data) 0 seed (header_at data)), rng')"
proof -
  have off: "data_offset_for 0 = 64" by (rule data_offset_for_wrapped) simp
  show ?thesis
    unfolding Loader_Init_def slots_for_none [OF n] Let_def off using len rng
    by (simp add: setHeaderHashSeed_def init_header_def InitHashTable_def header_at_def)
qed

lemma put_empty_table:
  assumes l: "l_hashTable l = Some ht" "capacity ht = 0" "l_dataEnd l = 64"
    and fits: "64 + length (chunk key value) \<le> length data" "length data \<le> 2 ^ 31"
  shows "\<exists>l'. Loader_put pkgSeed l data key value = Some (Some errHashFull, l', wr 64 (chunk key value) data)"
proof -
  have ok: "\<not> 64 + (4 + int (length key) + int (length value)) > int (length data)" using fits(1) by simp
  have len: "64 \<le> length (wr 64 (chunk key value) data)" using fits(1) by simp
  note w = write_chunk [OF fits(1), simplified]
  show ?thesis
    unfolding Loader_put_def Let_def l(3) add_diff_cancel_right' using ok len
    by (simp add: w l HashTable_Insert_def)
qed

section \<open>Loading a large file\<close>

text \<open>
  C27. The size of the input file, and nothing else in the first two cases, decides what the first
  \<open>Load\<close> does with a segment of at most the default 2 GB. Above half a gigabyte of input
  the segment is found too small and left alone. Above one gigabyte the bytes of the table wrap to
  \<open>0\<close> in 32 bits, so the check of the size passes and \<open>InitHashTable\<close> runs
  past the end of the mapping, a panic instead of the error. Above eight gigabytes, up to sixteen, the
  number of slots itself wraps: the table has none, and on a file that begins with a valid entry that
  fits the segment \<open>Load\<close> stops there and reports success with a count of \<open>0\<close>.
\<close>

theorem Load_large_file:
  fixes fuel :: nat and pkgSeed :: u64
  assumes l: "l_hashTable l = None" and rng: "randSeed rng = Some (seed, rng')"
    and input: "fs_file fs path = Some content" "fs_stat_ok fs path"
    and len: "64 < length data" "length data \<le> 2 ^ 31"
  defines "n \<equiv> length content div 8"
  defines "load \<equiv> Loader_Load (Suc fuel) pkgSeed rng (int (length data)) (file_data_source fs) l data
    (NewFileDataSource path)"
  shows "(2 ^ 26 < n \<and> n \<le> 2 ^ 27 \<longrightarrow>
      (\<exists>r. load = Some r \<and> lo_end r = LoadFailed ErrSegmentTooSmall \<and> lo_data r = data)) \<and>
    (2 ^ 27 < n \<and> n \<le> 2 ^ 30 \<longrightarrow> load = None) \<and>
    (2 ^ 30 < n \<and> n < 2 ^ 31 \<longrightarrow>
      (\<forall>key value es. content = concat (map entry_bytes ((key, value) # es)) \<longrightarrow>
        (\<forall>kv\<in>set ((key, value) # es). file_entry_ok kv) \<longrightarrow> valid_entry (key, value) \<longrightarrow>
        64 + length (chunk key value) \<le> length data \<longrightarrow>
        (\<exists>r. load = Some r \<and> lo_end r = Loaded \<and> lo_count r = 0 \<and>
          hdr_HashCap (header_at (lo_data r)) = 0 \<and> hdr_GenCounter (header_at (lo_data r)) = 1)))"
proof (intro conjI allI impI)
  define ds where "ds = NewFileDataSource path\<lparr>file_f := Some True, file_br := Some content\<rparr>"
  have opened: "ds_Open (file_data_source fs) (NewFileDataSource path) = (Inr (int n), ds)"
    using input by (simp add: file_data_source_def File_Open_def NewFileDataSource_def ds_def n_def zdiv_int)
  note load = load_def [unfolded Loader_Load_def opened prod.case sum.case if_P [OF l]]
  show "\<exists>r. load = Some r \<and> lo_end r = LoadFailed ErrSegmentTooSmall \<and> lo_data r = data"
    if "2 ^ 26 < n \<and> n \<le> 2 ^ 27"
  proof -
    have "Loader_Init rng (int (length data)) l data (int n) = Some (Some ErrSegmentTooSmall, l, data, rng)"
      using that len(2) by (intro Init_refused) auto
    then show ?thesis unfolding load by simp
  qed
  show "load = None" if "2 ^ 27 < n \<and> n \<le> 2 ^ 30"
  proof -
    have "length data < 64 + 24 * 2 ^ 29" using len(2) by simp
    then have "Loader_Init rng (int (length data)) l data (int n) = None"
      using that len(1) rng by (intro Init_runs_past_segment) auto
    then show ?thesis unfolding load by simp
  qed
  fix key "value" es
  assume n: "2 ^ 30 < n \<and> n < 2 ^ 31" and content: "content = concat (map entry_bytes ((key, value) # es))"
    and ok: "\<forall>kv\<in>set ((key, value) # es). file_entry_ok kv" and valid: "valid_entry (key, value)"
    and fits: "64 + length (chunk key value) \<le> length data"
  let ?l = "l\<lparr>l_hashTable := Some (NewHashTable 64 64 0), l_dataEnd := 64\<rparr>"
  let ?h = "init_header (length data) 0 seed (header_at data)"
  define d1 where "d1 = set_header data ?h"
  have hok: "header_ok ?h" using len(1) by (simp add: header_ok_def init_header_def header_at_def)
  have d1: "length d1 = length data" "header_at d1 = ?h" using hok len(1) by (simp_all add: d1_def)
  have init: "Loader_Init rng (int (length data)) l data (int n) = Some (None, ?l, d1, rng')"
    unfolding d1_def using n len(1) rng by (intro Init_empty_table) auto
  have "file_delivers ds ((key, value) # es)"
    using content ok by (simp add: file_delivers_def ds_def)
  then obtain ds' where nxt: "File_Next ds = Some (Inr (key, value), ds')"
    using file_src.deliver_next by blast
  obtain l' where "Loader_put pkgSeed ?l d1 key value = Some (Some errHashFull, l', wr 64 (chunk key value) d1)"
    using put_empty_table [of "?l" "NewHashTable 64 64 0" key "value" d1 pkgSeed] fits len(2) d1(1)
    by (auto simp: NewHashTable_def)
  then have loop: "Load_loop (Suc fuel) pkgSeed File_Next ?l d1 ds 0 =
      Some (Loaded, 0, l', wr 64 (chunk key value) d1, ds')"
    using nxt valid by (simp add: valid_entry_def)
  define d2 where "d2 = wr 64 (chunk key value) d1"
  have d2: "64 \<le> length d2" "header_at d2 = ?h" using d1 fits by (simp_all add: d2_def header_at_wr)
  have hok2: "header_ok (?h\<lparr>hdr_GenCounter := 1\<rparr>)" using hok by (simp add: header_ok_def)
  have bump: "bump_generation d2 = Some (set_header d2 (?h\<lparr>hdr_GenCounter := 1\<rparr>))"
    using d2 by (simp add: bump_generation_def init_header_def)
  have src: "ds_Next (file_data_source fs) = File_Next" by (simp add: file_data_source_def)
  show "\<exists>r. load = Some r \<and> lo_end r = Loaded \<and> lo_count r = 0 \<and>
      hdr_HashCap (header_at (lo_data r)) = 0 \<and> hdr_GenCounter (header_at (lo_data r)) = 1"
    unfolding load init src using loop bump d2 hok2
    by (simp add: d2_def [symmetric] init_header_def del: Load_loop.simps)
qed

definition large_fs :: "bytes \<Rightarrow> file_system" where
  "large_fs content = \<lparr>fs_file = (\<lambda>_. Some content), fs_stat_ok = (\<lambda>_. True)\<rparr>"

lemma length_entry_bytes: "length (entry_bytes kv) = 8 + length (fst kv) + length (snd kv)"
  by (simp add: entry_bytes_def)

lemma length_repeated: "length (concat (map entry_bytes (e # replicate k x))) = length (entry_bytes e) + k * length (entry_bytes x)"
  by (induction k) auto

definition huge_entry :: "bytes \<times> bytes" where
  "huge_entry = ([2], replicate (2 ^ 32 - 1) 0)"

lemma length_huge_entry: "length (entry_bytes huge_entry) = 2 ^ 32 + 8"
  by (simp add: length_entry_bytes huge_entry_def del: replicate.simps)

theorem Load_large_file_witness:
  "Loader_Load 1 5 (sconst (Some [1, 0, 0, 0, 0, 0, 0, 0])) (2 ^ 31) (file_data_source (large_fs (replicate (2 ^ 30 + 8) 0))) (newLoaderWithSegment demo_config 2)
      (replicate (2 ^ 31) 0) (NewFileDataSource [102]) = None \<and>
    (\<exists>r. Loader_Load 1 5 (sconst (Some [1, 0, 0, 0, 0, 0, 0, 0])) 100
        (file_data_source (large_fs (concat (map entry_bytes (([1], [7]) # replicate 3 huge_entry))))) (newLoaderWithSegment demo_config 2)
        (replicate 100 0) (NewFileDataSource [102]) = Some r \<and>
      lo_end r = Loaded \<and> lo_count r = 0)"
proof
  have l: "l_hashTable (newLoaderWithSegment demo_config 2) = None" by (simp add: newLoaderWithSegment_def)
  show "Loader_Load 1 5 (sconst (Some [1, 0, 0, 0, 0, 0, 0, 0])) (2 ^ 31) (file_data_source (large_fs (replicate (2 ^ 30 + 8) 0))) (newLoaderWithSegment demo_config 2)
      (replicate (2 ^ 31) 0) (NewFileDataSource [102]) = None"
    using Load_large_file [OF l randSeed_const, of "large_fs (replicate (2 ^ 30 + 8) 0)" "[102]"
        "replicate (2 ^ 30 + 8) 0" "replicate (2 ^ 31) 0" 0 5]
    by (simp add: large_fs_def del: replicate.simps)
  define es where "es = replicate 3 huge_entry"
  define content where "content = concat (map entry_bytes (([1], [7]) # es))"
  have "length content = 3 * 2 ^ 32 + 34"
    unfolding content_def es_def length_repeated length_huge_entry unfolding length_entry_bytes by simp
  then have n: "2 ^ 30 < length content div 8 \<and> length content div 8 < 2 ^ 31" by (simp only:) simp
  have ok: "\<forall>kv\<in>set (([1], [7]) # es). file_entry_ok kv" "valid_entry ([1], [7])"
    by (auto simp: es_def file_entry_ok_def huge_entry_def valid_entry_def)
  have fs: "fs_file (large_fs content) [102] = Some content" "fs_stat_ok (large_fs content) [102]"
    by (simp_all add: large_fs_def)
  let ?data = "replicate 100 0 :: bytes"
  have len: "64 < length ?data" "length ?data \<le> 2 ^ 31" "64 + length (chunk [1] [7]) \<le> length ?data" by simp_all
  note t = Load_large_file [OF l randSeed_const fs len(1,2), of 0 5, THEN conjunct2, THEN conjunct2, THEN mp, OF n]
  obtain r where r: "Loader_Load (Suc 0) 5 (sconst (Some [1, 0, 0, 0, 0, 0, 0, 0])) (int (length ?data))
        (file_data_source (large_fs content)) (newLoaderWithSegment demo_config 2) ?data (NewFileDataSource [102]) = Some r"
      "lo_end r = Loaded" "lo_count r = 0"
    using t content_def ok len(3) by blast
  have "int (length ?data) = 100" by simp
  then show "\<exists>r. Loader_Load 1 5 (sconst (Some [1, 0, 0, 0, 0, 0, 0, 0])) 100
        (file_data_source (large_fs (concat (map entry_bytes (([1], [7]) # replicate 3 huge_entry)))))
        (newLoaderWithSegment demo_config 2) ?data (NewFileDataSource [102]) = Some r \<and> lo_end r = Loaded \<and> lo_count r = 0"
    using r unfolding content_def es_def by (simp only: One_nat_def) blast
qed

end
