(* ===== verification/Concurrent_Init.thy ===== *)
theory Concurrent_Init
  imports Estimate
begin

text \<open>
  \<open>Init\<close> store by store, and readers that open the segment on the way. \<open>Init\<close> writes the fields of the
  header in the order of the struct, then the hash seed, then zeroes the slots. \<open>NewReader\<close> checks none of
  it, so it opens a segment in any of these states, and keeps the layout and the seed that it found.
\<close>

section \<open>The stores of Init\<close>

definition header_stores :: "int \<Rightarrow> u32 \<Rightarrow> u64 \<Rightarrow> (nat \<times> bytes) list" where
  \<comment> \<open>address and bytes of each store, in program order\<close>
  "header_stores segSize hashCap seed =
    [(0, le_bytes 4 Magic), (4, le_bytes 4 Version), (8, le_bytes 8 (word_of_int segSize :: u64)),
     (16, le_bytes 8 (0 :: u64)), (24, le_bytes 4 hashCap), (28, le_bytes 4 (word_of_int HeaderSize :: u32)),
     (32, le_bytes 4 (data_offset_for hashCap)), (36, le_bytes 4 (data_offset_for hashCap)),
     (40, le_bytes 4 (0 :: u32)), (44, le_bytes 4 (0 :: u32)), (48, le_bytes 8 seed)]"

definition zero_stores :: "nat \<Rightarrow> (nat \<times> bytes) list" where
  "zero_stores m = map (\<lambda>i. (64 + i, [0])) [0..<m]"

definition init_stores :: "int \<Rightarrow> int \<Rightarrow> u64 \<Rightarrow> (nat \<times> bytes) list" where
  "init_stores segSize expectedEntries seed =
    (let hashCap = slots_for expectedEntries
     in header_stores segSize hashCap seed @ zero_stores (unat hashCap * 24))"

text \<open>A store outside the memory is the panic: the machine is stuck in front of it.\<close>

inductive init_step :: "(nat \<times> bytes) list \<times> bytes \<Rightarrow> (nat \<times> bytes) list \<times> bytes \<Rightarrow> bool" where
  store: "a + length bs \<le> length d \<Longrightarrow> init_step ((a, bs) # ps, d) (ps, wr a bs d)"

inductive_cases init_stepE: "init_step c c'"

inductive_simps init_step_simps: "init_step ([], d) c" "init_step ((a, bs) # ps, d) c"

abbreviation init_run :: "(nat \<times> bytes) list \<times> bytes \<Rightarrow> (nat \<times> bytes) list \<times> bytes \<Rightarrow> bool" where
  "init_run \<equiv> init_step\<^sup>*\<^sup>*"

section \<open>Sequences of stores\<close>

fun do_stores :: "(nat \<times> bytes) list \<Rightarrow> bytes \<Rightarrow> bytes" where
  "do_stores [] d = d"
| "do_stores ((a, bs) # ps) d = do_stores ps (wr a bs d)"

definition stores_in :: "nat \<Rightarrow> (nat \<times> bytes) list \<Rightarrow> bool" where
  "stores_in n ps \<longleftrightarrow> (\<forall>x\<in>set ps. fst x + length (snd x) \<le> n)"

definition ascending :: "(nat \<times> bytes) list \<Rightarrow> bool" where
  "ascending ps \<longleftrightarrow> sorted_wrt (\<lambda>x y. fst x + length (snd x) \<le> fst y) ps"

lemma stores_in_simps [simp]:
  "stores_in n []" "stores_in n ((a, bs) # ps) \<longleftrightarrow> a + length bs \<le> n \<and> stores_in n ps"
  "stores_in n (ps @ qs) \<longleftrightarrow> stores_in n ps \<and> stores_in n qs"
  by (auto simp: stores_in_def)

lemma do_stores_append [simp]: "do_stores (ps @ qs) d = do_stores qs (do_stores ps d)"
  by (induction ps d rule: do_stores.induct) auto

lemma length_do_stores [simp]: "stores_in (length d) ps \<Longrightarrow> length (do_stores ps d) = length d"
  by (induction ps d rule: do_stores.induct) (auto simp: stores_in_def)

lemma init_run_stores: "stores_in (length d) qs \<Longrightarrow> init_run (qs @ ps, d) (ps, do_stores qs d)"
proof (induction qs d rule: do_stores.induct)
  case (2 a bs qs d)
  then have "init_step (((a, bs) # qs) @ ps, d) (qs @ ps, wr a bs d)" by (auto intro: init_step.store)
  then show ?case using 2 by (auto intro: converse_rtranclp_into_rtranclp)
qed simp

lemma init_run_prefix:
  "init_run c0 c \<Longrightarrow> \<exists>qs. fst c0 = qs @ fst c \<and> snd c = do_stores qs (snd c0) \<and> stores_in (length (snd c0)) qs"
proof (induction rule: rtranclp_induct)
  case base
  then show ?case by (intro exI [of _ "[]"]) simp
next
  case (step c c')
  then obtain qs where qs: "fst c0 = qs @ fst c" "snd c = do_stores qs (snd c0)" "stores_in (length (snd c0)) qs" by blast
  from step.hyps(2) obtain a bs where "fst c = (a, bs) # fst c'" "snd c' = wr a bs (snd c)" "a + length bs \<le> length (snd c)"
    by (elim init_stepE) auto
  then show ?case using qs by (intro exI [of _ "qs @ [(a, bs)]"]) simp
qed

text \<open>The machine has no choice: every run is on the way to the state where it stops.\<close>

lemma init_run_ends:
  assumes "init_run c0 c" "init_run c0 e" "\<And>c'. \<not> init_step e c'"
  shows "init_run c e"
  using assms(1)
proof (induction rule: rtranclp_induct)
  case (step c c')
  from step.IH show ?case
  proof (cases rule: converse_rtranclpE)
    case base
    then show ?thesis using step.hyps(2) assms(3) by blast
  next
    case (step c2)
    then have "c2 = c'" using \<open>init_step c c'\<close> by (auto elim!: init_stepE)
    then show ?thesis using step(2) by simp
  qed
qed (rule assms(2))

text \<open>Reads of a range that the stores have written, or have not written yet.\<close>

lemma rd_do_stores_above: "(\<forall>x\<in>set qs. a + n \<le> fst x) \<Longrightarrow> stores_in (length d) qs \<Longrightarrow> rd a n (do_stores qs d) = rd a n d"
  by (induction qs d rule: do_stores.induct) (auto simp: rd_wr_disjoint)

lemma rd_do_stores_below:
  "(\<forall>x\<in>set qs. fst x + length (snd x) \<le> a) \<Longrightarrow> stores_in (length d) qs \<Longrightarrow> rd a n (do_stores qs d) = rd a n d"
  by (induction qs d rule: do_stores.induct) (auto simp: rd_wr_disjoint)

lemma rd_pending:
  assumes "ascending (qs @ ps)" "(a, bs) \<in> set ps" "stores_in (length d) qs"
  shows "rd a n (do_stores qs d) = rd a n d"
proof (rule rd_do_stores_below [OF _ assms(3)])
  show "\<forall>x\<in>set qs. fst x + length (snd x) \<le> a"
    using assms(1,2) by (fastforce simp: ascending_def sorted_wrt_append)
qed

lemma rd_done:
  "ascending qs \<Longrightarrow> (a, bs) \<in> set qs \<Longrightarrow> stores_in (length d) qs \<Longrightarrow> rd a (length bs) (do_stores qs d) = bs"
proof (induction qs d rule: do_stores.induct)
  case (2 a' bs' qs d)
  show ?case
  proof (cases "(a, bs) \<in> set qs")
    case False
    then have e: "a' = a" "bs' = bs" using "2.prems"(2) by auto
    have "\<forall>x\<in>set qs. a + length bs \<le> fst x" using "2.prems"(1) by (auto simp: ascending_def e)
    then show ?thesis using "2.prems"(3) by (simp add: e rd_do_stores_above)
  qed (use 2 in \<open>auto simp: ascending_def\<close>)
qed simp

section \<open>The machine is Init\<close>

fun contiguous :: "nat \<Rightarrow> (nat \<times> bytes) list \<Rightarrow> bool" where
  "contiguous a [] \<longleftrightarrow> True"
| "contiguous a ((b, bs) # ps) \<longleftrightarrow> b = a \<and> contiguous (a + length bs) ps"

lemma do_stores_contiguous:
  "contiguous a ps \<Longrightarrow> a + length (concat (map snd ps)) \<le> length d \<Longrightarrow> do_stores ps d = wr a (concat (map snd ps)) d"
proof (induction a ps arbitrary: d rule: contiguous.induct)
  case (2 a b bs ps)
  have "do_stores ps (wr a bs d) = wr (a + length bs) (concat (map snd ps)) (wr a bs d)"
    using "2.prems" by (intro "2.IH") auto
  then show ?case using "2.prems" wr_wr_adjacent [of a bs "concat (map snd ps)" d] by (simp add: add.assoc)
qed simp

lemma wr_pad: "wr 0 (xs @ rd (length xs) n d) d = wr 0 xs d" if "length xs + n \<le> length d"
proof -
  have "rd (length xs) n d @ drop (length xs + n) d = drop (length xs) d"
    unfolding rd_def by (metis add.commute append_take_drop_id drop_drop)
  moreover have "length (rd (length xs) n d) = n" using that by simp
  ultimately show ?thesis by (simp add: wr_def)
qed

lemma header_stores_ascending: "ascending (header_stores segSize hashCap seed)"
  by (simp add: ascending_def header_stores_def)

lemma header_stores_in: "64 \<le> n \<Longrightarrow> stores_in n (header_stores segSize hashCap seed)"
  by (simp add: header_stores_def)

lemma zero_stores_in: "64 + m \<le> n \<Longrightarrow> stores_in n (zero_stores m)"
  by (auto simp: stores_in_def zero_stores_def)

lemma init_stores_ascending: "ascending (init_stores segSize n seed)"
proof -
  let ?H = "header_stores segSize (slots_for n) seed" and ?Z = "zero_stores (unat (slots_for n) * 24)"
  have "ascending ?Z"
    unfolding ascending_def zero_stores_def sorted_wrt_map by (rule sorted_wrt_mono_rel [OF _ sorted_wrt_upt]) simp
  moreover have "\<forall>x\<in>set ?H. \<forall>y\<in>set ?Z. fst x + length (snd x) \<le> fst y"
    by (auto simp: header_stores_def zero_stores_def)
  ultimately show ?thesis using header_stores_ascending [of segSize "slots_for n" seed]
    by (simp add: init_stores_def Let_def ascending_def sorted_wrt_append)
qed

lemma do_zero_stores: "64 + m \<le> length d \<Longrightarrow> do_stores (zero_stores m) d = wr 64 (replicate m 0) d"
proof (induction m)
  case (Suc m)
  have "do_stores (zero_stores (Suc m)) d = wr (64 + m) [0] (wr 64 (replicate m 0) d)"
    using Suc by (simp add: zero_stores_def)
  then show ?case using wr_wr_adjacent [of 64 "replicate m 0" "[0]" d] Suc.prems
    by (simp add: replicate_append_same)
qed (simp add: zero_stores_def)

lemma do_header_stores:
  assumes "64 \<le> length d"
  shows "do_stores (header_stores segSize hashCap seed) d =
    set_header d ((header_at d)\<lparr>hdr_Magic := Magic, hdr_Version := Version, hdr_Size := word_of_int segSize,
      hdr_GenCounter := 0, hdr_HashCap := hashCap, hdr_HashOffset := word_of_int HeaderSize,
      hdr_DataOffset := data_offset_for hashCap, hdr_DataEnd := data_offset_for hashCap, hdr_SegmentID := 0,
      hdr_Flags := 0, hdr_Reserved := wr seedSlot (le_bytes 8 seed) (hdr_Reserved (header_at d))\<rparr>)"
    (is "?l = set_header d ?h")
proof -
  let ?ps = "header_stores segSize hashCap seed" and ?rest = "rd 56 8 d"
  have "wr seedSlot (le_bytes 8 seed) (hdr_Reserved (header_at d)) = le_bytes 8 seed @ ?rest"
    using assms by (simp add: header_at_def wr_def rd_def drop_take)
  then have h: "header_bytes ?h = concat (map snd ?ps) @ ?rest"
    by (simp add: header_bytes_def header_stores_def)
  have len: "length (concat (map snd ?ps)) = 56" by (simp add: header_stores_def)
  have "contiguous 0 ?ps" by (simp add: header_stores_def)
  then have "do_stores ?ps d = wr 0 (concat (map snd ?ps)) d"
    by (rule do_stores_contiguous) (use assms len in simp)
  then show ?thesis using wr_pad [of "concat (map snd ?ps)" 8 d] assms unfolding set_header_def h len by simp
qed

lemma Init_stores:
  fixes n :: int
  assumes rng: "randSeed rng = Some (seed, rng')" and L: "64 \<le> length data"
    and fits: "\<not> int (length data) \<le> uint (data_offset_for (slots_for n))"
  shows "Loader_Init rng (int (length data)) l data n =
    (if 64 + unat (slots_for n) * 24 \<le> length data
     then Some (None, l\<lparr>l_hashTable := Some (NewHashTable 64 (uint (data_offset_for (slots_for n))) (uint (slots_for n))),
         l_dataEnd := data_offset_for (slots_for n)\<rparr>,
       do_stores (init_stores (int (length data)) n seed) data, rng')
     else None)"
proof -
  define c where "c = slots_for n"
  define d where "d = do_stores (header_stores (int (length data)) c seed) data"
  have len: "length d = length data" using header_stores_in [OF L] by (simp add: d_def)
  have init: "InitHashTable d 64 (uint c) =
      (if 64 + unat c * 24 \<le> length data then Some (do_stores (zero_stores (unat c * 24)) d, 64 + uint c * 24) else None)"
  proof (cases "64 + unat c * 24 \<le> length data")
    case True
    then have "InitHashTable d (int 64) (int (unat c)) = Some (wr 64 (replicate (24 * unat c) 0) d, int (64 + 24 * unat c))"
      by (intro InitHashTable_eq) (simp add: len)
    then show ?thesis using True by (simp add: do_zero_stores len mult.commute)
  next
    case False
    then have "InitHashTable d 64 (int (unat c)) = None"
      by (intro InitHashTable_past) (use len L in auto)
    then show ?thesis using False by simp
  qed
  define H where "H = (header_at data)\<lparr>hdr_Magic := Magic, hdr_Version := Version, hdr_Size := word_of_int (int (length data)),
    hdr_GenCounter := 0, hdr_HashCap := c, hdr_HashOffset := word_of_int HeaderSize, hdr_DataOffset := data_offset_for c,
    hdr_DataEnd := data_offset_for c, hdr_SegmentID := 0, hdr_Flags := 0\<rparr>"
  define H' where "H' = H\<lparr>hdr_Reserved := wr seedSlot (le_bytes 8 seed) (hdr_Reserved H)\<rparr>"
  have H': "setHeaderHashSeed rng H = Some (seed, H', rng')" by (simp add: setHeaderHashSeed_def rng H'_def)
  have "set_header data H' = d" by (simp add: d_def H'_def H_def do_header_stores [OF L])
  moreover have "do_stores (init_stores (int (length data)) n seed) data = do_stores (zero_stores (unat c * 24)) d"
    by (simp add: init_stores_def c_def [symmetric] Let_def d_def)
  ultimately show ?thesis
    unfolding Loader_Init_def c_def [symmetric] Let_def if_not_P [OF fits [folded c_def]] headerOf_Some [OF L]
      bind.bind_lunit H_def [symmetric] H' prod.case
    unfolding HeaderSize_def
    by (simp add: init)
qed

text \<open>Where the machine stops: after the last store, or in front of the first one outside the memory.\<close>

lemma init_run_finishes:
  assumes "stores_in (length d) ps" "init_run (ps, d) c"
  shows "init_run c ([], do_stores ps d)"
  using init_run_stores [OF assms(1), of "[]"] by (intro init_run_ends [OF assms(2)]) (auto simp: init_step_simps)

lemma zero_stores_split: "k < m \<Longrightarrow> \<exists>ps. zero_stores m = zero_stores k @ (64 + k, [0]) # ps"
proof -
  assume "k < m"
  then have "[0..<m] = [0..<k] @ k # [Suc k..<m]"
    using upt_add_eq_append [of 0 k "m - k"] by (simp add: upt_conv_Cons)
  then show ?thesis by (simp add: zero_stores_def)
qed

lemma init_run_stuck:
  fixes n segSize :: int and seed :: u64
  assumes L: "64 \<le> length d" and past: "length d < 64 + unat (slots_for n) * 24"
  defines "k \<equiv> length d - 64"
  defines "e \<equiv> wr 64 (replicate k 0) (do_stores (header_stores segSize (slots_for n) seed) d)"
  shows "\<exists>ps. init_run (init_stores segSize n seed, d) ((length d, [0]) # ps, e)"
    and "init_run (init_stores segSize n seed, d) c \<Longrightarrow> \<exists>ps. init_run c ((length d, [0]) # ps, e)"
    and "length e = length d"
proof -
  let ?H = "header_stores segSize (slots_for n) seed"
  obtain ps where ps: "zero_stores (unat (slots_for n) * 24) = zero_stores k @ (64 + k, [0]) # ps"
    using zero_stores_split [of k "unat (slots_for n) * 24"] past L unfolding k_def by fastforce
  have k: "64 + k = length d" using L by (simp add: k_def)
  have "stores_in (length d) (?H @ zero_stores k)" using header_stores_in [OF L] zero_stores_in [of k "length d"] k by simp
  from init_run_stores [OF this, of "(length d, [0]) # ps"]
  have run: "init_run (init_stores segSize n seed, d) ((length d, [0]) # ps, e)"
    using do_zero_stores [of k "do_stores ?H d"] header_stores_in [OF L]
    by (simp add: init_stores_def Let_def ps k e_def)
  then show "\<exists>ps. init_run (init_stores segSize n seed, d) ((length d, [0]) # ps, e)" ..
  show len: "length e = length d" using header_stores_in [OF L] k by (simp add: e_def)
  show "\<exists>ps. init_run c ((length d, [0]) # ps, e)" if "init_run (init_stores segSize n seed, d) c"
    using init_run_ends [OF that run] by (auto simp: init_step_simps len)
qed

text \<open>
  C21. Alone, the machine is \<open>Init\<close>, for every estimate: where \<open>Init\<close> returns
  an error it has stored nothing; where it succeeds, every run reaches the memory it leaves; and where
  it panics, every run reaches the same state, in front of a store behind the end of the memory. The
  memory of that state is what the panic leaves in the segment.
\<close>

theorem init_machine_is_Init:
  fixes n :: int
  assumes rng: "randSeed rng = Some (seed, rng')" and L: "64 \<le> length data"
  defines "c0 \<equiv> (init_stores (int (length data)) n seed, data)"
  shows "case Loader_Init rng (int (length data)) l data n of
      Some (Some e, l', data', rng'') \<Rightarrow> e = ErrSegmentTooSmall \<and> l' = l \<and> data' = data
    | Some (None, l', data', rng'') \<Rightarrow> rng'' = rng' \<and> (\<forall>c. init_run c0 c \<longrightarrow> init_run c ([], data'))
    | None \<Rightarrow> \<exists>p bs d. length d = length data \<and> length data < p + length bs \<and>
        (\<forall>c. init_run c0 c \<longrightarrow> (\<exists>ps. init_run c ((p, bs) # ps, d)))"
proof (cases "int (length data) \<le> uint (data_offset_for (slots_for n))")
  case True
  then show ?thesis by (simp add: Loader_Init_def Let_def)
next
  case False
  note init = Init_stores [OF rng L False, of l]
  show ?thesis
  proof (cases "64 + unat (slots_for n) * 24 \<le> length data")
    case True
    then have "stores_in (length data) (init_stores (int (length data)) n seed)"
      using header_stores_in [OF L] zero_stores_in [of "unat (slots_for n) * 24" "length data"]
      by (simp add: init_stores_def Let_def)
    then show ?thesis using True init_run_finishes by (simp add: init c0_def)
  next
    case past: False
    then have lt: "length data < 64 + unat (slots_for n) * 24" by simp
    define e where "e = wr 64 (replicate (length data - 64) 0)
      (do_stores (header_stores (int (length data)) (slots_for n) seed) data)"
    note stuck = init_run_stuck(2,3) [where segSize = "int (length data)" and seed = seed, OF L lt, folded e_def c0_def]
    have "length e = length data" "\<forall>c. init_run c0 c \<longrightarrow> (\<exists>ps. init_run c ((length data, [0]) # ps, e))"
      using stuck by blast+
    moreover have "length data < length data + length [0 :: byte]" by simp
    moreover have "Loader_Init rng (int (length data)) l data n = None" using past by (simp add: init)
    ultimately show ?thesis by (simp only: option.case) blast
  qed
qed

theorem init_machine_is_Init_witness:
  "\<exists>l' d. Loader_Init (sconst (Some [1, 0, 0, 0, 0, 0, 0, 0])) 100 (newLoaderWithSegment demo_config 2) (replicate 100 0) 0 =
      Some (None, l', d, sconst (Some [1, 0, 0, 0, 0, 0, 0, 0])) \<and>
    init_run (init_stores 100 0 1, replicate 100 0) ([], d)"
proof -
  have L: "64 \<le> length (replicate 100 (0 :: byte))" by simp
  have s: "slots_for 0 = 1" by (simp add: slots_for_def NextPow2_def)
  then have "uint (data_offset_for (slots_for 0)) = 88" by (simp add: data_offset_for_def Align_def)
  then have "\<not> int (length (replicate 100 (0 :: byte))) \<le> uint (data_offset_for (slots_for 0))" by simp
  from Init_stores [OF randSeed_const L this, where l = "newLoaderWithSegment demo_config 2"] s
    init_machine_is_Init [OF randSeed_const L, where l = "newLoaderWithSegment demo_config 2" and n = 0]
  show ?thesis by auto
qed

end
