(* ===== verification/Early_Reader.thy ===== *)
theory Early_Reader
  imports Reload Concurrent_Init
begin

text \<open>
  Readers that open the segment by its name while \<open>Init\<close> is on its way, or after it has panicked. \<open>NewReader\<close>
  looks neither at the magic number nor at the version, and reads the layout and the seed only once:
  what it finds then decides what it answers for the rest of its life.
\<close>

section \<open>A reader over any header\<close>

lemma open_any_reader:
  assumes files: "files w (DevShmPath name) = Some obj" "objects w obj = Some d" and L: "64 \<le> length d"
    and sys: "can_open sys name (length d)"
  obtains r w2 t v where "NewReader pkg Linux sys net w name [] = Some (Inr r, w2)" "live w2 t v obj d"
    "r_segment r = Some t" "r_data r = Some v" "r_seed r = headerHashSeed pkg (header_at d)"
    "r_hashTable r = Some (NewHashTable (uint (hdr_HashOffset (header_at d))) (uint (hdr_DataOffset (header_at d)))
      (uint (hdr_HashCap (header_at d))))"
proof -
  obtain t w2 where o: "linux_openSegment sys w name = (Inr t, w2)"
    using files sys by (simp add: linux_openSegment_def can_open_def Let_def)
  note live = open_live(1) [OF o files]
  have bytes: "view_bytes w2 (Some (next_id w)) = Some d" "Segment_Data w2 t = Some (Some (next_id w))"
    using live by (simp_all add: live_def view_bytes_def)
  obtain r where r: "initHashTable pkg w2 (nil_reader\<lparr>r_segment := Some t\<rparr>) = Some r"
    using L bytes by (simp add: initHashTable_def)
  have seg: "r_segment (nil_reader\<lparr>r_segment := Some t\<rparr>) = Some t" by simp
  have "NewReader pkg Linux sys net w name [] = Some (Inr r, w2)" by (simp add: NewReader_def OpenSegment_def o r)
  then show thesis using live initHashTable_live [OF r seg live] by (rule that)
qed

lemma Reader_Get_view:
  "r_hashTable r = Some ht \<Longrightarrow> r_data r = Some v \<Longrightarrow> live w s v obj data \<Longrightarrow>
    Reader_Get w r key = HashTable_Get ht data (HashKeyWithSeed key (r_seed r)) key"
  by (simp add: Reader_Get_def live_def view_bytes_def)

section \<open>The header half-way\<close>

definition to_store :: "(nat \<times> bytes) list \<Rightarrow> nat \<Rightarrow> bool" where
  \<comment> \<open>the store to this address is still to come\<close>
  "to_store ps a \<longleftrightarrow> a \<in> fst ` set ps"

lemma init_field:
  assumes run: "init_run (init_stores segSize n seed, z) (ps, d)" and st: "(a, bs) \<in> set (init_stores segSize n seed)"
  shows "rd a (length bs) d = (if to_store ps a then rd a (length bs) z else bs)"
proof -
  obtain qs where q: "init_stores segSize n seed = qs @ ps" "d = do_stores qs z" "stores_in (length z) qs"
    using init_run_prefix [OF run] by auto
  have asc: "ascending (qs @ ps)" using init_stores_ascending q(1) by metis
  show ?thesis
  proof (cases "to_store ps a")
    case True
    then show ?thesis using rd_pending [OF asc _ q(3)] by (auto simp: q(2) to_store_def)
  next
    case False
    then have "(a, bs) \<in> set qs" using st q(1) by (force simp: to_store_def)
    moreover have "ascending qs" using asc by (simp add: ascending_def sorted_wrt_append)
    ultimately show ?thesis using False rd_done [OF _ _ q(3)] by (simp add: q(2))
  qed
qed

lemma init_order:
  assumes run: "init_run (init_stores segSize n seed, z) (ps, d)" and st: "(b, bs) \<in> set (init_stores segSize n seed)"
    and a: "to_store ps a" "a \<le> b"
  shows "to_store ps b"
proof (rule ccontr)
  assume "\<not> to_store ps b"
  obtain qs where q: "init_stores segSize n seed = qs @ ps" using init_run_prefix [OF run] by auto
  then have "(b, bs) \<in> set qs" using st \<open>\<not> to_store ps b\<close> by (force simp: to_store_def)
  moreover have "ascending (qs @ ps)" using init_stores_ascending q by metis
  ultimately have "b + length bs \<le> a" using a(1) by (fastforce simp: ascending_def sorted_wrt_append to_store_def)
  moreover have "bs \<noteq> []"
    using st by (auto simp: init_stores_def header_stores_def zero_stores_def Let_def dest!: arg_cong [where f = length])
  ultimately show False using a(2) by (cases bs) auto
qed

lemma init_header:
  assumes run: "init_run (init_stores segSize n seed, z) (ps, d)"
  shows "hdr_HashCap (header_at d) = (if to_store ps 24 then u32_at z 24 else slots_for n)"
    "hdr_HashOffset (header_at d) = (if to_store ps 28 then u32_at z 28 else 64)"
    "hdr_DataOffset (header_at d) = (if to_store ps 32 then u32_at z 32 else data_offset_for (slots_for n))"
    "stored_seed d = (if to_store ps 48 then u64_at z 48 else seed)"
proof -
  have "(24, le_bytes 4 (slots_for n)) \<in> set (init_stores segSize n seed)"
    "(28, le_bytes 4 (64 :: u32)) \<in> set (init_stores segSize n seed)"
    "(32, le_bytes 4 (data_offset_for (slots_for n))) \<in> set (init_stores segSize n seed)"
    "(48, le_bytes 8 seed) \<in> set (init_stores segSize n seed)"
    by (simp_all add: init_stores_def header_stores_def Let_def)
  note f = this [THEN init_field [OF run]]
  show "hdr_HashCap (header_at d) = (if to_store ps 24 then u32_at z 24 else slots_for n)"
    "hdr_HashOffset (header_at d) = (if to_store ps 28 then u32_at z 28 else 64)"
    "hdr_DataOffset (header_at d) = (if to_store ps 32 then u32_at z 32 else data_offset_for (slots_for n))"
    "stored_seed d = (if to_store ps 48 then u64_at z 48 else seed)"
    using f by (auto simp: header_at_def u32_at_def u64_at_def stored_seed_def)
qed

section \<open>A reader that is early\<close>

lemma u32_at_zeros [simp]: "a + 4 \<le> n \<Longrightarrow> u32_at (replicate n 0) a = 0"
  by (simp add: u32_at_def rd_def min_def)

lemma u64_at_zeros [simp]: "a + 8 \<le> n \<Longrightarrow> u64_at (replicate n 0) a = 0"
  by (simp add: u64_at_def rd_def min_def)

lemma headerHashSeed_none: "stored_seed d = 0 \<Longrightarrow> headerHashSeed pkg (header_at d) = pkg"
  by (simp add: headerHashSeed_def stored_seed_def defaultSeed_def Let_def)

text \<open>What a reader of the half-way header has, and what it answers over the loaded segment.\<close>

lemma early_reader_answers:
  fixes n :: int
  assumes run: "init_run (init_stores segSize n seed, replicate sz 0) (ps, d)" and sz: "64 \<le> sz"
    and inv: "store_inv ht e data" "hdr_HashCap (header_at data) = slots_for n" "hdr_HashOffset (header_at data) = 64"
      "hdr_DataOffset (header_at data) = data_offset_for (slots_for n)" "stored_seed data = seed"
    and r: "r_seed r = headerHashSeed pkg (header_at d)"
      "r_hashTable r = Some (NewHashTable (uint (hdr_HashOffset (header_at d))) (uint (hdr_DataOffset (header_at d)))
        (uint (hdr_HashCap (header_at d))))" "r_data r = Some v" "live w t v obj data"
    and pkg: "pkg \<noteq> seed"
  shows "to_store ps 48 \<Longrightarrow> to_store ps 24 \<or> \<not> to_store ps 32 \<Longrightarrow> Reader_Get w r k = Some (None, False)"
    and "\<not> to_store ps 48 \<Longrightarrow> reader_usable (w, r) \<and> reader_content (w, r) = stored ht data"
proof -
  note h = init_header [OF run] and d = store_invD [OF inv(1)]
  have mem: "(32, le_bytes 4 (data_offset_for (slots_for n))) \<in> set (init_stores segSize n seed)"
    "(48, le_bytes 8 seed) \<in> set (init_stores segSize n seed)"
    by (simp_all add: init_stores_def header_stores_def Let_def)
  have table: "r_hashTable r = Some ht" if "\<not> to_store ps 32"
  proof -
    have "\<not> to_store ps 24" "\<not> to_store ps 28"
      using that init_order [OF run mem(1), of 24] init_order [OF run mem(1), of 28] by auto
    moreover have "layout ht data" using inv(1) by (simp add: store_inv_def)
    ultimately show ?thesis using layout_table [of ht data] that r(2) by (simp add: h inv)
  qed
  show "Reader_Get w r k = Some (None, False)" if "to_store ps 48" "to_store ps 24 \<or> \<not> to_store ps 32"
  proof (cases "to_store ps 24")
    case True
    then show ?thesis using r(2) sz Reader_Get_view [OF r(2-4)]
      by (simp add: h HashTable_Get_def NewHashTable_def)
  next
    case False
    have "r_seed r = pkg" using that(1) sz unfolding r(1) by (intro headerHashSeed_none) (simp add: h)
    then show ?thesis
      using that(2) False stale_seed_misses [OF inv(1), of pkg k] pkg inv(5) Reader_Get_view [OF table r(3,4), of k] by simp
  qed
  show "reader_usable (w, r) \<and> reader_content (w, r) = stored ht data" if "\<not> to_store ps 48"
  proof -
    have "\<not> to_store ps 32" using init_order [OF run mem(2), of 32] that by auto
    moreover have "stored_seed d = seed" "seed \<noteq> 0" using h(4) that d(4) inv(5) by simp_all
    then have "r_seed r = seed" using r(1) headerHashSeed_stored [of d pkg] by simp
    ultimately show ?thesis using table r(3,4) inv(1,5)
      by (auto simp: reader_usable_def reader_content_def reader_table_def reader_bytes_def live_def view_bytes_def)
  qed
qed

text \<open>
  C10. Opening too early blinds a reader for good. A loader creates a segment and loads a map into it;
  between any two stores of its \<open>Init\<close>, another process opens the segment by name. It is
  never turned away. If the hash seed is stored by then, it reads the whole map once it is loaded. If
  not, it hashes with its own process seed for ever: whether it found no slots yet or the complete
  layout, it misses every key of the loaded map, without an error, while the generation counter shows it
  that the map has been loaded.
\<close>

theorem early_reader_stays_blind:
  assumes new: "files w (DevShmPath name) = None" "can_create sys name sz"
    and es: "\<forall>kv\<in>set es. valid_entry kv" "distinct (map fst es)" "fits sz es"
    and rng: "randSeed rng = Some (seed, rng')" and fuel: "length es < fuel"
    and sys': "can_open sys' name sz" and pkg: "pkg \<noteq> seed"
  shows "\<exists>l w1 obj l' src data.
    NewLoader Linux sys w \<lparr>SegmentName = name, SegmentSize = int sz, LoadFactor = lf\<rparr> = Some (Inr l, w1) \<and>
    objects w1 obj = Some (replicate sz 0) \<and>
    Segment_Load fuel pkg1 rng map_data_source w1 l (NewMapDataSource es) =
      Some ((Loaded, int (length es), l', src), w1\<lparr>objects := (objects w1)(obj \<mapsto> data)\<rparr>) \<and>
    (\<forall>ps d. init_run (init_stores (int sz) (int (length es)) seed, replicate sz 0) (ps, d) \<longrightarrow>
      (\<exists>r w2. NewReader pkg Linux sys' net (w1\<lparr>objects := (objects w1)(obj \<mapsto> d)\<rparr>) name [] = Some (Inr r, w2) \<and>
        (let w3 = w2\<lparr>objects := (objects w2)(obj \<mapsto> data)\<rparr> in
          Reader_GenCounter w3 r = Some 1 \<and>
          (to_store ps 48 \<and> (to_store ps 24 \<or> \<not> to_store ps 32) \<longrightarrow> (\<forall>k. Reader_Get w3 r k = Some (None, False))) \<and>
          (\<not> to_store ps 48 \<longrightarrow> reads (w3, r) (map_of es) 1))))"
proof -
  have sz: "64 \<le> sz" "0 < sz" using es(3) by (simp_all add: fits_def)
  obtain l w1 v obj where l: "NewLoader Linux sys w \<lparr>SegmentName = name, SegmentSize = int sz, LoadFactor = lf\<rparr> = Some (Inr l, w1)"
      "l_hashTable l = None" "live w1 (l_segment l) v obj (replicate sz 0)" "files w1 (DevShmPath name) = Some obj"
    using create_loader [OF new sz(2)] by blast
  have fits: "fits (length (replicate sz (0 :: byte))) es" using es(3) by simp
  obtain l' src ht e data where ld: "Segment_Load fuel pkg1 rng map_data_source w1 l (NewMapDataSource es) =
        Some ((Loaded, int (length es), l', src), w1\<lparr>objects := (objects w1)(obj \<mapsto> data)\<rparr>)"
      "store_inv ht e data" "length data = sz" "stored ht data = map_of es" "hdr_GenCounter (header_at data) = 1"
      "header_at data = loaded_header sz es seed (header_at (replicate sz 0))"
    using load_map_segment [OF l(3) refl l(2) es(1,2) fits rng fuel, of pkg1] by auto
  note geo = same_geometry [OF es(3) ld(2), of seed "header_at (replicate sz 0)", folded ld(6)]
  have off: "hdr_HashOffset (header_at data) = 64" unfolding ld(6) by (simp add: loaded_header_def init_header_def)
  have seed: "stored_seed data = seed"
    by (rule loaded_header_seed [of _ sz es seed "replicate sz 0"]) (use ld(6) sz in simp_all)
  have "\<exists>r w2. NewReader pkg Linux sys' net (w1\<lparr>objects := (objects w1)(obj \<mapsto> d)\<rparr>) name [] = Some (Inr r, w2) \<and>
        (let w3 = w2\<lparr>objects := (objects w2)(obj \<mapsto> data)\<rparr> in
          Reader_GenCounter w3 r = Some 1 \<and>
          (to_store ps 48 \<and> (to_store ps 24 \<or> \<not> to_store ps 32) \<longrightarrow> (\<forall>k. Reader_Get w3 r k = Some (None, False))) \<and>
          (\<not> to_store ps 48 \<longrightarrow> reads (w3, r) (map_of es) 1))"
    if run: "init_run (init_stores (int sz) (int (length es)) seed, replicate sz 0) (ps, d)" for ps d
  proof -
    have len: "length d = sz" using init_run_prefix [OF run] by auto
    let ?w = "w1\<lparr>objects := (objects w1)(obj \<mapsto> d)\<rparr>"
    have w: "files ?w (DevShmPath name) = Some obj" "objects ?w obj = Some d" using l(4) by simp_all
    obtain r w2 t v where r: "NewReader pkg Linux sys' net ?w name [] = Some (Inr r, w2)" "live w2 t v obj d"
        "r_segment r = Some t" "r_data r = Some v" "r_seed r = headerHashSeed pkg (header_at d)"
        "r_hashTable r = Some (NewHashTable (uint (hdr_HashOffset (header_at d))) (uint (hdr_DataOffset (header_at d)))
          (uint (hdr_HashCap (header_at d))))"
      using open_any_reader [OF w] sz(1) sys' len by metis
    define w3 where "w3 = w2\<lparr>objects := (objects w2)(obj \<mapsto> data)\<rparr>"
    have live: "live w3 t v obj data" unfolding w3_def using live_update [OF r(2), of data] len ld(3) by simp
    have gen: "Reader_GenCounter w3 r = Some 1"
      using r(3) live sz ld(3,5) by (simp add: Reader_GenCounter_def live_def view_bytes_def)
    note a = early_reader_answers [OF run sz(1) ld(2) geo(2) off geo(3) seed r(5,6,4) live pkg]
    have "reads (w3, r) (map_of es) 1" if "\<not> to_store ps 48"
      using usable_reads [OF _ gen] a(2) [OF that] ld(4) by simp
    then show ?thesis using r(1) gen a(1) unfolding w3_def Let_def by blast
  qed
  then show ?thesis using l(1,3) ld(1) unfolding live_def by blast
qed

section \<open>A reader after the panic\<close>

lemma stuck_stored:
  assumes run: "init_run (init_stores segSize n seed, z) ((p, bs) # ps, d)" and "a < p"
  shows "\<not> to_store ((p, bs) # ps) a"
proof
  assume a: "to_store ((p, bs) # ps) a"
  obtain qs where q: "init_stores segSize n seed = qs @ (p, bs) # ps" using init_run_prefix [OF run] by auto
  have "ascending (qs @ (p, bs) # ps)" using init_stores_ascending q by metis
  then show False using a \<open>a < p\<close> by (fastforce simp: ascending_def sorted_wrt_append to_store_def)
qed

text \<open>A table that reaches beyond the memory, and is empty as far as the memory goes.\<close>

lemma Get_cut_off:
  assumes ht: "ht = NewHashTable 64 db (2 ^ k)" and zero: "\<And>p. 64 \<le> p \<Longrightarrow> p + 4 \<le> length d \<Longrightarrow> u32_at d p = 0"
  defines "p h \<equiv> 64 + 24 * (unat (ucast h :: u32) mod 2 ^ k)"
  shows "p h + 24 \<le> length d \<Longrightarrow> HashTable_Get ht d h key = Some (None, False)"
    and "length d \<le> p h + 16 \<Longrightarrow> HashTable_Get ht d h key = None"
proof -
  let ?i = "unat (ucast h :: u32) mod 2 ^ k"
  have home: "home_index ht h = int ?i"
    unfolding home_index_def ht NewHashTable_def using int_and_mask [of "unat (ucast h :: u32)" k] by simp
  obtain m where m: "nat (capacity ht) = Suc m" using gr0_implies_Suc [of "2 ^ k"] by (auto simp: ht NewHashTable_def nat_power_eq)
  have off: "slotBase ht + int ?i * SlotSize = int (p h)" by (simp add: ht NewHashTable_def p_def mult.commute)
  have at: "int (p h) + 16 = int (p h + 16)" "int (p h) + 8 = int (p h + 8)" "int (p h) + 12 = int (p h + 12)" by simp_all
  show "HashTable_Get ht d h key = Some (None, False)" if "p h + 24 \<le> length d"
  proof -
    have "getSlot ht d (int ?i) = Some \<lparr>Hash = u64_at d (p h), Offset = u32_at d (p h + 8), VLen = u32_at d (p h + 12), Status = 0\<rparr>"
      unfolding getSlot_def Let_def off at atomic_load_u32_def
      using that zero [of "p h + 16"] by (simp add: p_def del: of_nat_add)
    then show ?thesis by (simp add: HashTable_Get_def m home)
  qed
  show "HashTable_Get ht d h key = None" if "length d \<le> p h + 16"
  proof -
    have "getSlot ht d (int ?i) = None"
      unfolding getSlot_def Let_def off at atomic_load_u32_def using that by (simp del: of_nat_add)
    then show ?thesis by (simp add: HashTable_Get_def m home)
  qed
qed

text \<open>
  C28. A panic in the loader faults the readers. In a segment of more than 64 bytes and at most the
  default 2 GB, \<open>Init\<close> panics on an estimate between \<open>2^27\<close> and
  \<open>2^30\<close>, and leaves a header that describes a table several times the size of the segment.
  A reader that opens the segment afterwards is not turned away; it faults on every key whose home slot
  has its status word behind the end of the mapping, and misses every key whose home slot lies inside
  the mapping as a whole.
\<close>

theorem panicked_init_faults_readers:
  assumes files: "files w (DevShmPath name) = Some obj" "objects w obj = Some data"
    and n: "2 ^ 27 < n" "n \<le> 2 ^ 30" and len: "64 < length data" "length data \<le> 2 ^ 31"
    and rng: "randSeed rng = Some (seed, rng')" and sys: "can_open sys name (length data)"
  shows "Loader_Init rng (int (length data)) l data (int n) = None \<and>
    (\<exists>ps d. init_run (init_stores (int (length data)) (int n) seed, data) (ps, d) \<and> (\<forall>c. \<not> init_step (ps, d) c) \<and>
      (\<exists>r w2. NewReader pkg Linux sys net (w\<lparr>objects := (objects w)(obj \<mapsto> d)\<rparr>) name [] = Some (Inr r, w2) \<and>
        (\<forall>key. let p = 64 + 24 * (unat (ucast (HashKeyWithSeed key seed) :: u32) mod unat (slots_for (int n))) in
          (p + 24 \<le> length data \<longrightarrow> Reader_Get w2 r key = Some (None, False)) \<and>
          (length data \<le> p + 16 \<longrightarrow> Reader_Get w2 r key = None))))"
proof -
  have "slots_for (int n) \<in> {2 ^ 29, 2 ^ 30, 2 ^ 31}" by (rule slots_for_wrapped_bytes [OF n])
  then obtain k where "slots_for (int n) = 2 ^ k" "k \<in> {29, 30, 31}" by blast
  then have k: "slots_for (int n) = 2 ^ k" "29 \<le> k" "k < 32" by auto
  then have cap: "unat (slots_for (int n)) = 2 ^ k" by (simp add: unat_exp)
  have "(2 :: nat) ^ 29 \<le> 2 ^ k" using k(2) by (intro power_increasing) auto
  then have past: "length data < 64 + unat (slots_for (int n)) * 24" using len(2) by (simp add: cap)
  have L: "64 \<le> length data" using len(1) by simp
  define d where "d = wr 64 (replicate (length data - 64) 0)
    (do_stores (header_stores (int (length data)) (slots_for (int n)) seed) data)"
  obtain ps where run: "init_run (init_stores (int (length data)) (int n) seed, data) ((length data, [0]) # ps, d)"
    unfolding d_def using init_run_stuck(1) [OF L past] by blast
  have ld: "length d = length data" unfolding d_def by (rule init_run_stuck(3) [OF L past])
  have stuck: "\<not> init_step ((length data, [0]) # ps, d) c" for c by (simp add: init_step_simps ld)
  have behind: "\<not> to_store ((length data, [0]) # ps) a" if "a < 64" for a
    using stuck_stored [OF run, of a] that len(1) by simp
  have h: "hdr_HashCap (header_at d) = slots_for (int n)" "hdr_HashOffset (header_at d) = 64" "stored_seed d = seed"
    by (simp_all add: init_header [OF run] behind)
  have zero: "u32_at d p = 0" if "64 \<le> p" "p + 4 \<le> length d" for p
  proof -
    have "length (do_stores (header_stores (int (length data)) (slots_for (int n)) seed) data) = length data"
      using header_stores_in [OF L] by simp
    then have "rd p 4 d = replicate 4 0"
      using that ld unfolding d_def by (intro nth_equalityI) (auto simp: nth_wr)
    then show ?thesis by (simp add: u32_at_def)
  qed
  have w: "files (w\<lparr>objects := (objects w)(obj \<mapsto> d)\<rparr>) (DevShmPath name) = Some obj"
      "objects (w\<lparr>objects := (objects w)(obj \<mapsto> d)\<rparr>) obj = Some d" using files(1) by simp_all
  obtain r w2 t v where r: "NewReader pkg Linux sys net (w\<lparr>objects := (objects w)(obj \<mapsto> d)\<rparr>) name [] = Some (Inr r, w2)"
      "live w2 t v obj d" "r_data r = Some v" "r_seed r = headerHashSeed pkg (header_at d)"
      "r_hashTable r = Some (NewHashTable (uint (hdr_HashOffset (header_at d))) (uint (hdr_DataOffset (header_at d)))
        (uint (hdr_HashCap (header_at d))))"
    using open_any_reader [OF w] L sys ld by metis
  have "seed \<noteq> 0" using randSeed_nonzero [OF rng] by simp
  then have seed: "r_seed r = seed" using headerHashSeed_stored [of d pkg] h(3) r(4) by simp
  obtain db where ht: "r_hashTable r = Some (NewHashTable 64 db (2 ^ k))"
    using r(5) cap by (simp add: h uint_nat del: of_nat_unat)
  let ?p = "\<lambda>key. 64 + 24 * (unat (ucast (HashKeyWithSeed key seed) :: u32) mod 2 ^ k)"
  have get: "Reader_Get w2 r key = HashTable_Get (NewHashTable 64 db (2 ^ k)) d (HashKeyWithSeed key seed) key" for key
    using Reader_Get_view [OF ht r(3,2), of key] seed by simp
  have "Reader_Get w2 r key = Some (None, False)" if "?p key + 24 \<le> length data" for key
    unfolding get by (rule Get_cut_off(1) [OF refl zero]) (use that ld in simp_all)
  moreover have "Reader_Get w2 r key = None" if "length data \<le> ?p key + 16" for key
    unfolding get by (rule Get_cut_off(2) [OF refl zero]) (use that ld in simp_all)
  moreover have "Loader_Init rng (int (length data)) l data (int n) = None"
    using len(2) by (intro Init_runs_past_segment [OF n len(1) _ rng]) simp
  ultimately show ?thesis unfolding Let_def cap using run stuck r(1) by blast
qed

section \<open>Examples\<close>

theorem early_reader_stays_blind_witness:
  "\<exists>l w1 obj l' src data r w2.
    Segment_Load 9 5 demo_rng map_data_source w1 l (NewMapDataSource [([1], [2, 3])]) =
      Some ((Loaded, 1, l', src), w1\<lparr>objects := (objects w1)(obj \<mapsto> data)\<rparr>) \<and>
    NewReader 7 Linux sys_all \<lparr>net_dial = (\<lambda>_. None), net_write = buffer\<rparr> (w1\<lparr>objects := (objects w1)(obj \<mapsto> replicate 300 0)\<rparr>)
      [97] [] = Some (Inr r, w2) \<and>
    Reader_Get (w2\<lparr>objects := (objects w2)(obj \<mapsto> data)\<rparr>) r [1] = Some (None, False) \<and>
    Reader_GenCounter (w2\<lparr>objects := (objects w2)(obj \<mapsto> data)\<rparr>) r = Some 1"
proof -
  let ?es = "[([1], [2, 3])] :: (bytes \<times> bytes) list" and ?net = "\<lparr>net_dial = (\<lambda>_. None), net_write = buffer\<rparr>"
  let ?ps = "init_stores (int 300) (int (length ?es)) 1"
  have c: "files empty_world (DevShmPath [97]) = None" "can_create sys_all [97] 300" "can_open sys_all [97] 300"
    by (simp_all add: empty_world_def can_create_def can_open_def sys_all_def)
  have "slots_for 1 = 2" by (simp add: slots_for_def NextPow2_def)
  then have f: "fits 300 ?es" by (simp add: fits_def)
  have e: "\<forall>kv\<in>set ?es. valid_entry kv" "distinct (map fst ?es)" by (simp_all add: valid_entry_def)
  have g: "length ?es < 9" "(7 :: u64) \<noteq> 1" by simp_all
  have s: "to_store ?ps 48" "to_store ?ps 24" by (simp_all add: to_store_def init_stores_def header_stores_def Let_def)
  obtain l w1 obj l' src data where ld:
      "Segment_Load 9 5 demo_rng map_data_source w1 l (NewMapDataSource ?es) =
        Some ((Loaded, int (length ?es), l', src), w1\<lparr>objects := (objects w1)(obj \<mapsto> data)\<rparr>)"
    and all: "\<And>ps d. init_run (?ps, replicate 300 0) (ps, d) \<Longrightarrow>
      \<exists>r w2. NewReader 7 Linux sys_all ?net (w1\<lparr>objects := (objects w1)(obj \<mapsto> d)\<rparr>) [97] [] = Some (Inr r, w2) \<and>
        (let w3 = w2\<lparr>objects := (objects w2)(obj \<mapsto> data)\<rparr> in
          Reader_GenCounter w3 r = Some 1 \<and>
          (to_store ps 48 \<and> (to_store ps 24 \<or> \<not> to_store ps 32) \<longrightarrow> (\<forall>k. Reader_Get w3 r k = Some (None, False))) \<and>
          (\<not> to_store ps 48 \<longrightarrow> reads (w3, r) (map_of ?es) 1))"
    using early_reader_stays_blind [OF c(1,2) e f demo_rng_seed g(1) c(3) g(2), of NaN 5 ?net] by blast
  have one: "int (length ?es) = 1" by simp
  show ?thesis using ld [unfolded one] all [OF rtranclp.rtrancl_refl] s unfolding Let_def by blast
qed

lemma slots_for_2_27_1: "slots_for (int 134217729) = 2 ^ 29"
  by (simp add: slots_for_def NextPow2_def)

theorem panicked_init_faults_readers_witness:
  "\<exists>w r w2. NewReader 7 Linux sys_all \<lparr>net_dial = (\<lambda>_. None), net_write = buffer\<rparr> w [97] [] = Some (Inr r, w2) \<and>
    Loader_Init demo_rng 100 (newLoaderWithSegment demo_config 2) (replicate 100 0) (int 134217729) = None \<and>
    Reader_Get w2 r [1] = None"
proof -
  let ?w = "empty_world\<lparr>files := [DevShmPath [97] \<mapsto> 0], objects := [0 \<mapsto> replicate 100 0]\<rparr>"
  have w: "files ?w (DevShmPath [97]) = Some 0" "objects ?w 0 = Some (replicate 100 0)" by simp_all
  have n: "(2 :: nat) ^ 27 < 134217729" "134217729 \<le> (2 :: nat) ^ 30" by simp_all
  have len: "64 < length (replicate 100 (0 :: byte))" "length (replicate 100 (0 :: byte)) \<le> 2 ^ 31" by simp_all
  have sys: "can_open sys_all [97] (length (replicate 100 (0 :: byte)))" by (simp add: can_open_def sys_all_def)
  have "HashKeyWithSeed [1] 1 = 12638153115695167455"
    by (simp add: HashKeyWithSeed_def fnvOffset64_def fnvPrime64_def)
  then have "unat (ucast (HashKeyWithSeed [1] 1) :: u32) mod 2 ^ 29 = 100775903" by simp
  moreover have "unat (slots_for (int 134217729)) = 2 ^ 29" unfolding slots_for_2_27_1 by simp
  ultimately show ?thesis
    using panicked_init_faults_readers [OF w n len demo_rng_seed sys, of "newLoaderWithSegment demo_config 2" 7
        "\<lparr>net_dial = (\<lambda>_. None), net_write = buffer\<rparr>"]
    unfolding Let_def by (fastforce dest: spec [of _ "[1]"])
qed

end
