(* ===== verification/Concurrency.thy ===== *)
theory Concurrency
  imports Hash_Table_Props
begin

text \<open>
  Readers during an insertion. The table has one writer and any number of readers in other processes
  that take no lock, so a reader may run between any two stores of \<open>Insert\<close>. The stores are the steps of
  a small machine: the claim of a free slot by compare-and-swap, then the hash, the offset and the value
  length, each one store. Its runs end in the memory of \<open>HashTable_Insert\<close>; the theorems say what a
  \<open>Get\<close> finds in the memories on the way.
\<close>

section \<open>The stores of an insertion\<close>

datatype phase = Claim | StoreHash | StoreOffset | StoreVLen | Inserted

record insert_args =
  ia_table :: hash_table
  ia_slot :: nat
  ia_hash :: u64
  ia_offset :: u32
  ia_vlen :: u32

definition slot_addr :: "insert_args \<Rightarrow> nat" where
  "slot_addr a = slot_off (ia_table a) (ia_slot a)"

inductive insert_step :: "insert_args \<Rightarrow> phase \<times> bytes \<Rightarrow> phase \<times> bytes \<Rightarrow> bool" for a where
  claim: "slot_free (ia_table a) data (ia_slot a) \<Longrightarrow>
    insert_step a (Claim, data) (StoreHash, wr (slot_addr a + 16) (le_bytes 4 SlotUsed) data)"
| store_hash: "insert_step a (StoreHash, data) (StoreOffset, wr (slot_addr a) (le_bytes 8 (ia_hash a)) data)"
| store_offset: "insert_step a (StoreOffset, data) (StoreVLen, wr (slot_addr a + 8) (le_bytes 4 (ia_offset a)) data)"
| store_vlen: "insert_step a (StoreVLen, data) (Inserted, wr (slot_addr a + 12) (le_bytes 4 (ia_vlen a)) data)"

inductive_simps insert_step_simps:
  "insert_step a (Claim, data) s" "insert_step a (StoreHash, data) s" "insert_step a (StoreOffset, data) s"
  "insert_step a (StoreVLen, data) s" "insert_step a (Inserted, data) s"

inductive insert_run :: "insert_args \<Rightarrow> bytes \<Rightarrow> phase \<times> bytes \<Rightarrow> bool" for a data where
  start: "insert_run a data (Claim, data)"
| step: "insert_run a data s \<Longrightarrow> insert_step a s s' \<Longrightarrow> insert_run a data s'"

text \<open>The slot as the stores so far have left it.\<close>

fun partial_slot :: "insert_args \<Rightarrow> phase \<Rightarrow> hash_slot \<Rightarrow> hash_slot" where
  "partial_slot a Claim old = old"
| "partial_slot a StoreHash old = old\<lparr>Status := SlotUsed\<rparr>"
| "partial_slot a StoreOffset old = old\<lparr>Hash := ia_hash a, Status := SlotUsed\<rparr>"
| "partial_slot a StoreVLen old = old\<lparr>Hash := ia_hash a, Offset := ia_offset a, Status := SlotUsed\<rparr>"
| "partial_slot a Inserted old = \<lparr>Hash = ia_hash a, Offset = ia_offset a, VLen = ia_vlen a, Status = SlotUsed\<rparr>"

definition same_outside :: "insert_args \<Rightarrow> bytes \<Rightarrow> bytes \<Rightarrow> bool" where
  \<comment> \<open>the two memories differ at most in the slot\<close>
  "same_outside a data data' \<longleftrightarrow> length data' = length data \<and>
    (\<forall>p n. p + n \<le> slot_addr a \<or> slot_addr a + 24 \<le> p \<longrightarrow> rd p n data' = rd p n data)"

lemma same_outside_wr:
  assumes "same_outside a data d" "slot_addr a \<le> q" "q + length ys \<le> slot_addr a + 24"
    and "slot_addr a + 24 \<le> length data"
  shows "same_outside a data (wr q ys d)"
  using assms by (auto simp: same_outside_def rd_wr_disjoint)

lemma insert_run_inv:
  assumes wf: "ht_wf (ia_table a) data" and j: "ia_slot a < ncap (ia_table a)"
    and run: "insert_run a data (ph, d)"
  shows "same_outside a data d \<and>
    slot_at (ia_table a) d (ia_slot a) = partial_slot a ph (slot_at (ia_table a) data (ia_slot a))"
  using run
proof (induction "(ph, d)" arbitrary: ph d rule: insert_run.induct)
  case start
  then show ?case by (simp add: same_outside_def)
next
  case (step s)
  obtain ph0 d0 where s: "s = (ph0, d0)" by (cases s)
  note IH = step.hyps(2) [OF s]
  have len: "slot_addr a + 24 \<le> length data" "length d0 = length data"
    using slot_off_in [OF wf j] IH by (auto simp: slot_addr_def same_outside_def)
  note out = same_outside_wr [OF conjunct1 [OF IH] _ _ len(1)]
  have old: "slot_at (ia_table a) d0 (ia_slot a) = partial_slot a ph0 (slot_at (ia_table a) data (ia_slot a))"
    using IH by blast
  show ?case using step.hyps(3) unfolding s
    by (cases ph0) (use old len out in \<open>auto simp: insert_step_simps slot_at_def slot_addr_def [symmetric] frame_simps\<close>)
qed

text \<open>The four stores in program order; a phase is the number of those already made.\<close>

definition stores :: "insert_args \<Rightarrow> (nat \<times> bytes) list" where
  "stores a =
    [(slot_addr a + 16, le_bytes 4 SlotUsed), (slot_addr a, le_bytes 8 (ia_hash a)),
     (slot_addr a + 8, le_bytes 4 (ia_offset a)), (slot_addr a + 12, le_bytes 4 (ia_vlen a))]"

fun stores_made :: "phase \<Rightarrow> nat" where
  "stores_made Claim = 0"
| "stores_made StoreHash = 1"
| "stores_made StoreOffset = 2"
| "stores_made StoreVLen = 3"
| "stores_made Inserted = 4"

definition partial_memory :: "insert_args \<Rightarrow> phase \<Rightarrow> bytes \<Rightarrow> bytes" where
  "partial_memory a ph data = fold (\<lambda>(q, bs) d. wr q bs d) (take (stores_made ph) (stores a)) data"

lemma partial_memory_simps [simp]:
  "partial_memory a Claim data = data"
  "partial_memory a StoreHash data = wr (slot_addr a + 16) (le_bytes 4 SlotUsed) data"
  "partial_memory a StoreOffset data = wr (slot_addr a) (le_bytes 8 (ia_hash a)) (partial_memory a StoreHash data)"
  "partial_memory a StoreVLen data = wr (slot_addr a + 8) (le_bytes 4 (ia_offset a)) (partial_memory a StoreOffset data)"
  "partial_memory a Inserted data = wr (slot_addr a + 12) (le_bytes 4 (ia_vlen a)) (partial_memory a StoreVLen data)"
  by (simp_all add: partial_memory_def stores_def)

lemma insert_run_memory:
  assumes "insert_run a data (ph, d)"
  shows "d = partial_memory a ph data"
  using assms
proof (induction "(ph, d)" arbitrary: ph d rule: insert_run.induct)
  case (step s)
  obtain ph0 d0 where s: "s = (ph0, d0)" by (cases s)
  show ?case using step.hyps(3) step.hyps(2) [OF s] unfolding s
    by (cases ph0) (auto simp: insert_step_simps)
qed simp

lemma insert_run_exists:
  assumes "slot_free (ia_table a) data (ia_slot a)"
  shows "insert_run a data (ph, partial_memory a ph data)"
proof -
  note r0 = insert_run.start [of a data]
  note r1 = insert_run.step [OF r0 insert_step.claim [OF assms]]
  note r2 = insert_run.step [OF r1 insert_step.store_hash]
  note r3 = insert_run.step [OF r2 insert_step.store_offset]
  note r4 = insert_run.step [OF r3 insert_step.store_vlen]
  show ?thesis using r0 r1 r2 r3 r4 by (cases ph) simp_all
qed

lemma partial_memory_Inserted:
  "partial_memory a Inserted data = fill_slot (ia_table a) data (ia_slot a) (ia_hash a) (ia_offset a) (ia_vlen a)"
  by (simp add: fill_slot_def slot_addr_def Let_def)

section \<open>What a reader finds\<close>

definition inserting :: "insert_args \<Rightarrow> bytes \<Rightarrow> bool" where
  \<comment> \<open>\<open>Insert\<close> is about to claim this slot\<close>
  "inserting a data \<longleftrightarrow>
    table_inv (ia_table a) data \<and> free_walk (ia_table a) data (ia_hash a) = Some (ia_slot a)"

lemma insertingD:
  assumes "inserting a data"
  shows "ht_wf (ia_table a) data" "ia_slot a < ncap (ia_table a)" "slot_free (ia_table a) data (ia_slot a)"
  using assms free_walk_Some [of "ia_table a" data] by (auto simp: inserting_def)

lemma run_facts:
  assumes ins: "inserting a data" and run: "insert_run a data (ph, d)" and i: "i < ncap (ia_table a)"
  shows "ht_wf (ia_table a) d"
    "slot_at (ia_table a) d i =
      (if i = ia_slot a then partial_slot a ph (slot_at (ia_table a) data i) else slot_at (ia_table a) data i)"
    "key_at (ia_table a) d p = key_at (ia_table a) data p"
    "value_at (ia_table a) d p vl = value_at (ia_table a) data p vl"
proof -
  let ?ht = "ia_table a" and ?j = "ia_slot a"
  note w = insertingD [OF ins]
  have out: "same_outside a data d" and sj: "slot_at ?ht d ?j = partial_slot a ph (slot_at ?ht data ?j)"
    using insert_run_inv [OF w(1,2) run] by auto
  have len: "length d = length data" using out by (simp add: same_outside_def)
  show "ht_wf ?ht d" using w(1) ht_wf_cong [OF len] by simp
  have "slot_at ?ht d i = slot_at ?ht data i" if "i \<noteq> ?j"
    by (rule slot_at_cong)
      (use out slots_apart [OF that, of ?ht] slot_off_in [OF w(1) i] len in \<open>auto simp: same_outside_def slot_addr_def\<close>)
  then show "slot_at ?ht d i = (if i = ?j then partial_slot a ph (slot_at ?ht data i) else slot_at ?ht data i)"
    using sj by simp
  have "drop (data_base ?ht) d = drop (data_base ?ht) data"
    using out slot_off_bound [OF w(1,2)] len unfolding drop_eq_rd same_outside_def slot_addr_def by simp
  from data_cong [OF len this]
  show "key_at ?ht d p = key_at ?ht data p" "value_at ?ht d p vl = value_at ?ht data p vl" .
qed

lemma partial_slot_status: "ph \<noteq> Claim \<Longrightarrow> Status (partial_slot a ph old) = SlotUsed"
  by (cases ph) auto

lemma run_empty:
  assumes ins: "inserting a data" and run: "insert_run a data (ph, d)" and i: "i < ncap (ia_table a)"
    and e: "slot_empty (ia_table a) d i"
  shows "slot_empty (ia_table a) data i"
  using e run_facts(2) [OF ins run i] partial_slot_status [of ph a]
  by (cases "ph = Claim") (auto simp: slot_empty_def split: if_splits)

lemma run_hit_other:
  assumes ins: "inserting a data" and run: "insert_run a data (ph, d)" and i: "i < ncap (ia_table a)" "i \<noteq> ia_slot a"
  shows "slot_hit (ia_table a) d h' k' i = slot_hit (ia_table a) data h' k' i"
    "slot_value (ia_table a) d i = slot_value (ia_table a) data i"
  using run_facts [OF ins run i(1)] i(2) by (simp_all add: slot_hit_def slot_used_def slot_value_def)

text \<open>A lookup that the half-written slot does not answer is not affected by the insertion.\<close>

lemma get_unaffected:
  assumes ins: "inserting a data" and run: "insert_run a data (ph, d)"
    and no: "\<not> slot_hit (ia_table a) d h' k' (ia_slot a)"
  shows "HashTable_Get (ia_table a) d h' k' = HashTable_Get (ia_table a) data h' k'"
proof -
  let ?ht = "ia_table a" and ?j = "ia_slot a"
  note w = insertingD [OF ins]
  have inv: "table_inv ?ht data" using ins by (simp add: inserting_def)
  have wf: "ht_wf ?ht d" using run_facts(1) [OF ins run w(2)] .
  have hits: "slot_hit ?ht d h' k' i = slot_hit ?ht data h' k' i" if "i < ncap ?ht" for i
    using run_hit_other(1) [OF ins run that] no w(3) by (cases "i = ?j") (auto dest: slot_hit_used slot_free_not_used)
  have first: "first_hit ?ht d h' k' = first_hit ?ht data h' k'"
    unfolding first_hit_def by (rule find_probe_cong) (use w(1) hits in simp_all)
  have "walk ?ht d h' k' = first_hit ?ht d h' k'"
    unfolding walk_def first_hit_def
  proof (rule find_probe_stop_irrelevant)
    show "home ?ht h' < ncap ?ht" using w(1) by simp
    fix i assume i: "i < ncap ?ht" "slot_hit ?ht d h' k' i"
    then have "slot_used ?ht data i" "Hash (slot_at ?ht data i) = h'" using hits by (auto simp: slot_hit_def)
    with i(1) inv have "\<forall>m<ncap ?ht. dist (ncap ?ht) (home ?ht h') m \<le> dist (ncap ?ht) (home ?ht h') i \<longrightarrow>
        \<not> slot_empty ?ht data m" by (auto simp: table_inv_iff)
    then show "reachable (ncap ?ht) (slot_empty ?ht d) (home ?ht h') i"
      using run_empty [OF ins run] i(1) by (auto simp: reachable_iff [OF home_less [OF w(1)]])
  qed
  moreover have "get_result ?ht d (first_hit ?ht data h' k') = get_result ?ht data (first_hit ?ht data h' k')"
  proof (cases "first_hit ?ht data h' k'")
    case (Some i)
    note f = first_hit_Some [OF w(1) Some]
    then have "i \<noteq> ?j" using w(3) by (auto dest: slot_hit_used slot_free_not_used)
    then show ?thesis using Some run_hit_other(2) [OF ins run f(1)] by (simp add: get_result_def)
  qed (simp add: get_result_def)
  ultimately show ?thesis using first by (simp add: Get_walk wf w(1) walk_first_hit [OF inv])
qed

lemma claimed_reachable:
  assumes ins: "inserting a data" and run: "insert_run a data (ph, d)" and ph: "ph \<noteq> Claim"
  shows "reachable (ncap (ia_table a)) (slot_empty (ia_table a) d) (home (ia_table a) (ia_hash a)) (ia_slot a)"
proof -
  let ?ht = "ia_table a" and ?j = "ia_slot a"
  let ?D = "dist (ncap ?ht) (home ?ht (ia_hash a))"
  note w = insertingD [OF ins]
  have near: "?D ?j \<le> ?D m" if "m < ncap ?ht" "slot_free ?ht data m" for m
    using ins that by (simp add: inserting_def free_walk_nearest [OF w(1)])
  have "\<not> slot_empty ?ht d m" if m: "m < ncap ?ht" "?D m \<le> ?D ?j" for m
  proof
    assume e: "slot_empty ?ht d m"
    have "slot_used ?ht d ?j" using run_facts(2) [OF ins run w(2)] ph by (simp add: slot_used_def partial_slot_status)
    then have "m \<noteq> ?j" using e by (auto dest: slot_used_not_empty)
    moreover have "?D ?j \<le> ?D m" using near [OF m(1)] run_empty [OF ins run m(1) e] by (simp add: slot_free_of_empty)
    ultimately show False using m(2) dist_inj [OF home_less [OF w(1), of "ia_hash a"] m(1) w(2)] by simp
  qed
  then show ?thesis by (simp add: reachable_iff [OF home_less [OF w(1)] w(2)])
qed

lemma get_half_written:
  assumes ins: "inserting a data" and run: "insert_run a data (ph, d)" and ph: "ph \<noteq> Claim"
    and hit: "slot_hit (ia_table a) d (ia_hash a) key (ia_slot a)" and new: "lookup (ia_table a) data (ia_hash a) key = None"
  shows "HashTable_Get (ia_table a) d (ia_hash a) key = Some (slot_value (ia_table a) d (ia_slot a), True)"
proof -
  let ?ht = "ia_table a" and ?j = "ia_slot a" and ?h = "ia_hash a"
  note w = insertingD [OF ins]
  have wf: "ht_wf ?ht d" using run_facts(1) [OF ins run w(2)] .
  have only: "i = ?j" if "i < ncap ?ht" "slot_hit ?ht d ?h key i" for i
    using that new run_hit_other(1) [OF ins run that(1)] by (auto simp: lookup_None first_hit_None [OF w(1)])
  have "first_hit ?ht d ?h key = Some ?j"
    unfolding first_hit_nearest [OF wf]
  proof (intro conjI allI impI)
    fix m assume m: "m < ncap ?ht" "slot_hit ?ht d ?h key m"
    show "dist (ncap ?ht) (home ?ht ?h) ?j \<le> dist (ncap ?ht) (home ?ht ?h) m" unfolding only [OF m] ..
  qed (use hit w(2) in simp_all)
  moreover have "walk ?ht d ?h key = first_hit ?ht d ?h key"
    unfolding walk_def first_hit_def
  proof (rule find_probe_stop_irrelevant)
    show "home ?ht ?h < ncap ?ht" using w(1) by simp
    show "reachable (ncap ?ht) (slot_empty ?ht d) (home ?ht ?h) i" if "i < ncap ?ht" "slot_hit ?ht d ?h key i" for i
      using only [OF that] claimed_reachable [OF ins run ph] by simp
  qed
  ultimately show ?thesis by (simp add: Get_walk [OF wf] get_result_def)
qed

text \<open>
  Isolation during an insertion: in every memory between two stores of \<open>Insert\<close> a lookup returns
  what it returned before the insertion began, for every key whose hash is neither the one being
  inserted nor the one the claimed slot still shows; and the last of these memories is the one that
  \<open>HashTable_Insert\<close> returns.
\<close>

lemma insertion_isolates_other_hashes:
  assumes ins: "inserting a data" and run: "insert_run a data (ph, d)"
  shows "(\<forall>h' k'. h' \<notin> {ia_hash a, Hash (slot_at (ia_table a) data (ia_slot a))} \<longrightarrow>
      HashTable_Get (ia_table a) d h' k' = HashTable_Get (ia_table a) data h' k') \<and>
    (ph = Inserted \<longrightarrow> (\<forall>key. HashTable_Insert (ia_table a) data (ia_hash a) key (ia_offset a) (ia_vlen a) = Some (True, d)))"
proof -
  note w = insertingD [OF ins]
  have "\<not> slot_hit (ia_table a) d h' k' (ia_slot a)"
    if "h' \<notin> {ia_hash a, Hash (slot_at (ia_table a) data (ia_slot a))}" for h' k'
    using run_facts(2) [OF ins run w(2)] that by (cases ph) (auto simp: slot_hit_def)
  moreover have "HashTable_Insert (ia_table a) data (ia_hash a) key (ia_offset a) (ia_vlen a) = Some (True, d)"
    if "ph = Inserted" for key
    using ins insert_run_memory [OF run] that
    by (simp add: inserting_def Insert_walk [OF w(1)] insert_result_def partial_memory_Inserted del: partial_memory_simps)
  ultimately show ?thesis using get_unaffected [OF ins run] by blast
qed

text \<open>
  C24. A torn read: \<open>Insert\<close> marks the slot used before it writes the slot's fields. When
  it fills a slot that was never used, a reader that runs just before the last store finds the new key
  with an empty value, where the key was missing before and has its value after the store.
\<close>

theorem insertion_torn_read:
  assumes ins: "inserting a data"
    and fresh: "slot_at (ia_table a) data (ia_slot a) = \<lparr>Hash = 0, Offset = 0, VLen = 0, Status = SlotEmpty\<rparr>"
    and new: "lookup (ia_table a) data (ia_hash a) key = None"
    and chunk: "key_at (ia_table a) data (ia_offset a) = Some key"
  shows "\<exists>d d'. insert_run a data (StoreVLen, d) \<and> insert_step a (StoreVLen, d) (Inserted, d') \<and>
    HashTable_Get (ia_table a) data (ia_hash a) key = Some (None, False) \<and>
    HashTable_Get (ia_table a) d (ia_hash a) key = Some (Some [], True) \<and>
    HashTable_Get (ia_table a) d' (ia_hash a) key = Some (value_at (ia_table a) data (ia_offset a) (ia_vlen a), True)"
proof -
  let ?ht = "ia_table a" and ?j = "ia_slot a" and ?h = "ia_hash a"
  note w = insertingD [OF ins]
  define d d' where "d = partial_memory a StoreVLen data" and "d' = partial_memory a Inserted data"
  have run: "insert_run a data (StoreVLen, d)" "insert_run a data (Inserted, d')"
    unfolding d_def d'_def by (rule insert_run_exists [OF w(3)])+
  have step: "insert_step a (StoreVLen, d) (Inserted, d')"
    unfolding d_def d'_def partial_memory_simps(5) by (rule insert_step.store_vlen)
  note f = run_facts [OF ins run(1) w(2)] and f' = run_facts [OF ins run(2) w(2)]
  have hit: "slot_hit ?ht d ?h key ?j" "slot_hit ?ht d' ?h key ?j"
    using f(2,3) f'(2,3) chunk by (simp_all add: slot_hit_def slot_used_def)
  have "value_at ?ht data (ia_offset a) 0 = Some []"
    using chunk by (auto simp: key_at_def value_at_def Let_def rd_def split: if_splits)
  then have "slot_value ?ht d ?j = Some []" "slot_value ?ht d' ?j = value_at ?ht data (ia_offset a) (ia_vlen a)"
    using f(2,4) f'(2,4) fresh by (simp_all add: slot_value_def)
  moreover have "HashTable_Get ?ht data ?h key = Some (None, False)"
    using ins new by (simp add: inserting_def Get_lookup lookup_result_def)
  ultimately show ?thesis
    using run(1) step get_half_written [OF ins run(1) _ hit(1) new] get_half_written [OF ins run(2) _ hit(2) new]
    by auto
qed

lemma wr_wr_same:
  "off + length ys \<le> length xs \<Longrightarrow> length zs = length ys \<Longrightarrow> wr off ys (wr off zs xs) = wr off ys xs"
  by (rule nth_equalityI) (auto simp: nth_wr)

lemma wr_rd_self: "off + n \<le> length xs \<Longrightarrow> ys = rd off n xs \<Longrightarrow> wr off ys xs = xs"
  by (rule nth_equalityI) (auto simp: nth_wr)

text \<open>
  C23. A deleted value comes back: when \<open>Insert\<close> claims the tombstone of a deleted key of
  which the table held one copy, and the tombstone is what the deletion has just left, the memory right
  after the claim is byte for byte the memory before the deletion, so a reader that runs then finds the
  deleted key with its old value.
\<close>

theorem insertion_resurrects_deleted_key:
  assumes inv: "table_inv (ia_table a) data0"
    and del: "HashTable_Delete (ia_table a) data0 h0 k0 = Some (True, data)"
    and only: "\<forall>m<ncap (ia_table a). slot_hit (ia_table a) data0 h0 k0 m \<longrightarrow> m = ia_slot a"
    and ins: "inserting a data"
  shows "insert_run a data (StoreHash, data0) \<and>
    HashTable_Get (ia_table a) data h0 k0 = Some (None, False) \<and>
    (\<exists>v. HashTable_Get (ia_table a) data0 h0 k0 = Some (v, True))"
proof -
  let ?ht = "ia_table a" and ?j = "ia_slot a"
  have wf: "ht_wf ?ht data0" using inv by simp
  obtain i where i: "first_hit ?ht data0 h0 k0 = Some i" "data = tomb_slot ?ht data0 i"
    using del by (auto simp: Delete_walk [OF wf] walk_first_hit [OF inv] delete_result_def split: option.splits)
  note hit = first_hit_Some [OF wf i(1)]
  have ij: "i = ?j" using only hit by blast
  have j: "?j < ncap ?ht" using hit ij by simp
  have len: "slot_addr a + 24 \<le> length data0" using slot_off_in [OF wf j] by (simp add: slot_addr_def)
  have "Status (slot_at ?ht data0 ?j) = SlotUsed" using hit(2) ij by (simp add: slot_hit_def slot_used_def)
  then have "u32_at data0 (slot_addr a + 16) = SlotUsed" by (simp add: slot_at_def slot_addr_def)
  then have bytes: "le_bytes 4 SlotUsed = rd (slot_addr a + 16) 4 data0"
    using le_bytes_le_word [of 4 "rd (slot_addr a + 16) 4 data0", where 'a = 32] len
    by (simp add: u32_at_def)
  have "partial_memory a StoreHash data = data0"
    using len bytes wr_rd_self [of "slot_addr a + 16" 4 data0, OF _ refl]
    by (simp add: i(2) ij tomb_slot_def slot_addr_def [symmetric] wr_wr_same)
  moreover have "insert_run a data (StoreHash, partial_memory a StoreHash data)"
    by (rule insert_run_exists) (use ins insertingD in blast)
  moreover have inv': "table_inv ?ht data" using table_inv_tomb [OF inv j] by (simp add: i(2) ij)
  have "\<forall>m<ncap ?ht. \<not> slot_hit ?ht data h0 k0 m"
    using only unfolding i(2) ij by (auto simp: after_tomb(3) [OF wf j])
  then have "first_hit ?ht data h0 k0 = None" unfolding first_hit_None [OF table_inv_wf [OF inv']] .
  then have "HashTable_Get ?ht data h0 k0 = Some (None, False)"
    by (simp add: Get_lookup [OF inv'] lookup_def lookup_result_def)
  moreover have "HashTable_Get ?ht data0 h0 k0 = Some (slot_value ?ht data0 i, True)"
    by (simp add: Get_lookup [OF inv] lookup_def lookup_result_def i(1))
  ultimately show ?thesis by simp
qed

section \<open>A concrete insertion\<close>

definition demo_insert_args :: insert_args where
  "demo_insert_args = \<lparr>ia_table = demo_ht, ia_slot = 1, ia_hash = 7, ia_offset = 0, ia_vlen = 1\<rparr>"

lemma demo_inserting: "inserting demo_insert_args demo_data"
proof -
  have "free_walk demo_ht demo_data 7 = Some 1" by code_simp
  then show ?thesis using demo_inv by (simp add: inserting_def demo_insert_args_def)
qed

theorem insertion_torn_read_witness:
  "\<exists>d. insert_run demo_insert_args demo_data (StoreVLen, d) \<and>
    HashTable_Get demo_ht d 7 [9] = Some (Some [], True)"
proof -
  have s: "slot_at (ia_table demo_insert_args) demo_data (ia_slot demo_insert_args) =
      \<lparr>Hash = 0, Offset = 0, VLen = 0, Status = SlotEmpty\<rparr>"
    using demo_slots by (simp add: demo_insert_args_def)
  from insertion_torn_read [OF demo_inserting s, of "[9]"] demo_miss demo_keys show ?thesis
    by (auto simp: demo_insert_args_def)
qed

theorem insertion_resurrects_deleted_key_witness:
  "\<exists>a data v. HashTable_Delete demo_ht demo_data1 7 [9] = Some (True, data) \<and> insert_run a data (StoreHash, demo_data1) \<and>
    HashTable_Get demo_ht data 7 [9] = Some (None, False) \<and> HashTable_Get demo_ht demo_data1 7 [9] = Some (v, True)"
proof -
  let ?data = "tomb_slot demo_ht demo_data1 1"
  have del: "HashTable_Delete (ia_table demo_insert_args) demo_data1 7 [9] = Some (True, ?data)"
    using demo_first_hit demo_data1_inv
    by (simp add: demo_insert_args_def Delete_walk walk_first_hit delete_result_def)
  have "free_walk demo_ht ?data 7 = Some 1" by code_simp
  then have ins: "inserting demo_insert_args ?data"
    using table_inv_tomb [OF demo_data1_inv, of 1] by (simp add: inserting_def demo_insert_args_def)
  have "\<not> slot_hit demo_ht demo_data1 7 [9] 0" by code_simp
  then have only: "\<forall>m<ncap (ia_table demo_insert_args). slot_hit (ia_table demo_insert_args) demo_data1 7 [9] m \<longrightarrow>
      m = ia_slot demo_insert_args"
    by (auto simp: demo_insert_args_def less_2_cases_iff)
  have inv: "table_inv (ia_table demo_insert_args) demo_data1" using demo_data1_inv by (simp add: demo_insert_args_def)
  from insertion_resurrects_deleted_key [OF inv del only ins] del show ?thesis
    by (auto simp: demo_insert_args_def)
qed

end
