(* ===== verification/Concurrent_Get.thy ===== *)
theory Concurrent_Get
  imports Concurrency
begin

text \<open>
  A lookup that runs at the same time as an insertion, load by load. \<open>get_step\<close> is one load of
  \<open>HashTable.Get\<close>: \<open>getSlot\<close> loads the status, then the hash, the offset and the value length, and the
  writer may make any of its stores between two of these loads, so the slot a reader looks at can be a
  mixture that no memory ever held. Alone, the machine computes \<open>HashTable_Get\<close>; interleaved with an
  insertion of another hash it still does.
\<close>

section \<open>The loads of a lookup\<close>

datatype get_state =
    Probing nat int                      \<comment> \<open>rounds left, and the slot to look at\<close>
  | ReadStatus nat int u32
  | ReadHash nat int u32 u64
  | ReadOffset nat int u32 u64 u32
  | ReadSlot nat int hash_slot
  | Returned "bytes option \<times> bool"

fun get_step :: "hash_table \<Rightarrow> u64 \<Rightarrow> bytes \<Rightarrow> bytes \<Rightarrow> get_state \<Rightarrow> get_state option" where
  "get_step ht h key data (Probing 0 idx) = Some (Returned (None, False))"
| "get_step ht h key data (Probing (Suc n) idx) =
    do { status \<leftarrow> atomic_load_u32 data (slotBase ht + idx * SlotSize + 16); Some (ReadStatus n idx status) }"
| "get_step ht h key data (ReadStatus n idx status) =
    do { x \<leftarrow> get_u64 data (slotBase ht + idx * SlotSize); Some (ReadHash n idx status x) }"
| "get_step ht h key data (ReadHash n idx status x) =
    do { ofs \<leftarrow> get_u32 data (slotBase ht + idx * SlotSize + 8); Some (ReadOffset n idx status x ofs) }"
| "get_step ht h key data (ReadOffset n idx status x ofs) =
    do { vlen \<leftarrow> get_u32 data (slotBase ht + idx * SlotSize + 12);
         Some (ReadSlot n idx \<lparr>Hash = x, Offset = ofs, VLen = vlen, Status = status\<rparr>) }"
| "get_step ht h key data (ReadSlot n idx slot) =
    (if Status slot = SlotEmpty then Some (Returned (None, False))
     else if Status slot = SlotUsed then
       do { m \<leftarrow> (if Hash slot = h then matchKeyAt ht data (Offset slot) key else Some False);
            if m then do { v \<leftarrow> getValue ht data (Offset slot) (VLen slot); Some (Returned (v, True)) }
            else Some (Probing n (next_index ht idx)) }
     else Some (Probing n (next_index ht idx)))"
| "get_step ht h key data (Returned r) = Some (Returned r)"

primrec get_steps :: "nat \<Rightarrow> hash_table \<Rightarrow> u64 \<Rightarrow> bytes \<Rightarrow> bytes \<Rightarrow> get_state \<Rightarrow> get_state option" where
  "get_steps 0 ht h key data s = Some s"
| "get_steps (Suc k) ht h key data s = do { s \<leftarrow> get_step ht h key data s; get_steps k ht h key data s }"

definition get_start :: "hash_table \<Rightarrow> u64 \<Rightarrow> get_state" where
  "get_start ht h = Probing (nat (capacity ht)) (home_index ht h)"

text \<open>How many loads a lookup can still make.\<close>

fun loads_left :: "get_state \<Rightarrow> nat" where
  "loads_left (Probing n idx) = 5 * n + 1"
| "loads_left (ReadStatus n idx status) = 5 * n + 5"
| "loads_left (ReadHash n idx status x) = 5 * n + 4"
| "loads_left (ReadOffset n idx status x ofs) = 5 * n + 3"
| "loads_left (ReadSlot n idx slot) = 5 * n + 2"
| "loads_left (Returned r) = 0"

lemma get_steps_Returned: "get_steps k ht h key data (Returned r) = Some (Returned r)"
  by (induction k) simp_all

lemma get_step_decreases:
  "get_step ht h key data s = Some s' \<Longrightarrow> loads_left s \<noteq> 0 \<Longrightarrow> loads_left s' < loads_left s"
  by (cases "(ht, h, key, data, s)" rule: get_step.cases)
    (auto simp: bind_eq_Some_conv simp del: SlotEmpty_def SlotUsed_def split: if_splits)

lemma get_steps_loop:
  "get_steps (5 * n + 1) ht h key data (Probing n idx) = map_option Returned (Get_loop n ht data h key idx)"
proof (induction n arbitrary: idx)
  case (Suc n)
  have k: "5 * Suc n + 1 = Suc (Suc (Suc (Suc (Suc (Suc (5 * n))))))" by simp
  have IH: "get_steps (Suc (5 * n)) ht h key data (Probing n i) = map_option Returned (Get_loop n ht data h key i)" for i
    using Suc.IH [of i] by (simp only: Suc_eq_plus1)
  show ?case unfolding k get_steps.simps(2) [of "Suc (Suc (Suc (Suc (Suc (5 * n)))))"] get_steps.simps(2) [of "Suc (Suc (Suc (Suc (5 * n))))"]
      get_steps.simps(2) [of "Suc (Suc (Suc (5 * n)))"] get_steps.simps(2) [of "Suc (Suc (5 * n))"]
      get_steps.simps(2) [of "Suc (5 * n)"] get_step.simps Get_loop.simps
    by (simp add: getSlot_def Let_def IH get_steps_Returned del: get_steps.simps SlotEmpty_def SlotUsed_def
        split: bind_splits)
qed simp

text \<open>
  The machine of loads is \<open>Get\<close>: run alone on any memory, well-formed or not, it takes at most five
  steps for each slot and one more, and ends with the result of \<open>HashTable_Get\<close>, in a panic exactly
  where that panics.
\<close>

lemma get_machine_is_Get:
  "get_steps (5 * nat (capacity ht) + 1) ht h key data (get_start ht h) =
    map_option Returned (HashTable_Get ht data h key)"
  unfolding get_start_def HashTable_Get_def by (rule get_steps_loop)

section \<open>A lookup over memory that keeps its entries\<close>

text \<open>
  What a lookup of hash \<open>h\<close> relies on, while a writer claims free slots of the set \<open>W\<close>. \<open>seen\<close> holds of a slot
  assembled from loads at different times: a slot not in \<open>W\<close> is as it was, of one in \<open>W\<close> all that is known is
  that it cannot match. A memory is \<open>undisturbed\<close> if all its slots are of this kind and the chunks of the
  entries are still there. \<open>claimable\<close> are free slots whose stale hash is not \<open>h\<close>.
\<close>

definition seen :: "hash_table \<Rightarrow> u64 \<Rightarrow> nat set \<Rightarrow> bytes \<Rightarrow> nat \<Rightarrow> hash_slot \<Rightarrow> bool" where
  "seen ht h W data i slot \<longleftrightarrow>
    (if i \<in> W then Status slot \<in> {Status (slot_at ht data i), SlotUsed} \<and> Hash slot \<noteq> h
     else slot = slot_at ht data i)"

definition undisturbed :: "hash_table \<Rightarrow> u64 \<Rightarrow> nat set \<Rightarrow> bytes \<Rightarrow> bytes \<Rightarrow> bool" where
  "undisturbed ht h W data d \<longleftrightarrow> length d = length data \<and> (\<forall>i<ncap ht. seen ht h W data i (slot_at ht d i)) \<and>
    (\<forall>i<ncap ht. slot_used ht data i \<longrightarrow>
      key_at ht d (Offset (slot_at ht data i)) = key_at ht data (Offset (slot_at ht data i)) \<and>
      value_at ht d (Offset (slot_at ht data i)) (VLen (slot_at ht data i)) = slot_value ht data i)"

definition claimable :: "hash_table \<Rightarrow> u64 \<Rightarrow> nat set \<Rightarrow> bytes \<Rightarrow> bool" where
  "claimable ht h W data \<longleftrightarrow> (\<forall>i\<in>W. slot_free ht data i \<and> Hash (slot_at ht data i) \<noteq> h)"

lemma undisturbed_refl: "claimable ht h W data \<Longrightarrow> undisturbed ht h W data data"
  by (simp add: undisturbed_def seen_def claimable_def slot_value_def)

text \<open>Between two loads the memory may change to any other undisturbed one.\<close>

inductive watching :: "hash_table \<Rightarrow> u64 \<Rightarrow> bytes \<Rightarrow> nat set \<Rightarrow> bytes \<Rightarrow> bytes \<Rightarrow> get_state \<Rightarrow> bool" for ht h key W data where
  begin_get: "undisturbed ht h W data d \<Longrightarrow> watching ht h key W data d (get_start ht h)"
| change: "watching ht h key W data d s \<Longrightarrow> undisturbed ht h W data d' \<Longrightarrow> watching ht h key W data d' s"
| load: "watching ht h key W data d s \<Longrightarrow> get_step ht h key d s = Some s' \<Longrightarrow> watching ht h key W data d s'"

lemma watching_undisturbed: "watching ht h key W data d s \<Longrightarrow> undisturbed ht h W data d"
  by (induction rule: watching.induct)

text \<open>\<open>missed\<close>: the slots nearer than \<open>m\<close> do not hold the key.\<close>

definition missed :: "hash_table \<Rightarrow> u64 \<Rightarrow> bytes \<Rightarrow> bytes \<Rightarrow> nat \<Rightarrow> bool" where
  "missed ht h key data m \<longleftrightarrow> m \<le> ncap ht \<and>
    (\<forall>i<ncap ht. dist (ncap ht) (home ht h) i < m \<longrightarrow> \<not> slot_hit ht data h key i)"

definition looking :: "hash_table \<Rightarrow> u64 \<Rightarrow> bytes \<Rightarrow> nat set \<Rightarrow> bytes \<Rightarrow> nat \<Rightarrow> int \<Rightarrow> (hash_slot \<Rightarrow> bool) \<Rightarrow> bool" where
  "looking ht h key W data n idx P \<longleftrightarrow>
    (\<exists>i slot. i < ncap ht \<and> idx = int i \<and> dist (ncap ht) (home ht h) i + Suc n = ncap ht \<and>
      missed ht h key data (dist (ncap ht) (home ht h) i) \<and> seen ht h W data i slot \<and> P slot)"

fun get_inv :: "hash_table \<Rightarrow> u64 \<Rightarrow> bytes \<Rightarrow> nat set \<Rightarrow> bytes \<Rightarrow> get_state \<Rightarrow> bool" where
  "get_inv ht h key W data (Probing n idx) \<longleftrightarrow>
    (\<exists>m. m + n = ncap ht \<and> idx = int ((home ht h + m) mod ncap ht) \<and> missed ht h key data m)"
| "get_inv ht h key W data (ReadStatus n idx status) \<longleftrightarrow> looking ht h key W data n idx (\<lambda>slot. Status slot = status)"
| "get_inv ht h key W data (ReadHash n idx status x) \<longleftrightarrow>
    looking ht h key W data n idx (\<lambda>slot. Status slot = status \<and> Hash slot = x)"
| "get_inv ht h key W data (ReadOffset n idx status x ofs) \<longleftrightarrow>
    looking ht h key W data n idx (\<lambda>slot. Status slot = status \<and> Hash slot = x \<and> Offset slot = ofs)"
| "get_inv ht h key W data (ReadSlot n idx slot) \<longleftrightarrow> looking ht h key W data n idx (\<lambda>s. s = slot)"
| "get_inv ht h key W data (Returned r) \<longleftrightarrow> r = lookup_result (lookup ht data h key)"

lemma get_inv_start: "ht_wf ht data \<Longrightarrow> get_inv ht h key W data (get_start ht h)"
  using home_less [of ht data h] by (auto simp: get_start_def missed_def ncap_def home_index_int)

lemma missed_all:
  assumes wf: "ht_wf ht data" and m: "missed ht h key data (ncap ht)"
  shows "lookup ht data h key = None"
  using m dist_less [OF ncap_pos [OF wf]] by (simp add: lookup_None first_hit_None [OF wf] missed_def)

lemma missed_step:
  assumes wf: "ht_wf ht data" and i: "i < ncap ht" "missed ht h key data (dist (ncap ht) (home ht h) i)"
    and no: "\<not> slot_hit ht data h key i"
  shows "missed ht h key data (Suc (dist (ncap ht) (home ht h) i))"
  using i no dist_inj [OF home_less [OF wf] _ i(1)] dist_less [OF ncap_pos [OF wf], of "home ht h" i]
  by (auto simp: missed_def less_Suc_eq Suc_le_eq)

lemma missed_empty:
  assumes inv: "table_inv ht data" and i: "i < ncap ht" "missed ht h key data (dist (ncap ht) (home ht h) i)"
    and e: "slot_empty ht data i"
  shows "lookup ht data h key = None"
proof -
  have "\<not> slot_hit ht data h key m" if m: "m < ncap ht" for m
  proof
    assume hit: "slot_hit ht data h key m"
    then have "dist (ncap ht) (home ht h) i \<le> dist (ncap ht) (home ht h) m"
      using i m by (auto simp: missed_def not_less [symmetric])
    moreover have "slot_used ht data m" "Hash (slot_at ht data m) = h" using hit by (auto simp: slot_hit_def)
    ultimately show False using inv m i(1) e by (auto simp: table_inv_iff)
  qed
  then show ?thesis using inv by (simp add: lookup_None first_hit_None)
qed

lemma missed_hit:
  assumes wf: "ht_wf ht data" and i: "i < ncap ht" "missed ht h key data (dist (ncap ht) (home ht h) i)"
    and hit: "slot_hit ht data h key i"
  shows "lookup ht data h key = Some (slot_value ht data i)"
proof -
  have "first_hit ht data h key = Some i"
    using i hit by (auto simp: first_hit_nearest [OF wf] missed_def not_less [symmetric])
  then show ?thesis by (simp add: lookup_def)
qed

lemma slot_loads:
  assumes wf: "ht_wf ht data" and i: "i < ncap ht"
  shows "atomic_load_u32 data (slotBase ht + int i * SlotSize + 16) = Some (Status (slot_at ht data i))"
    "get_u64 data (slotBase ht + int i * SlotSize) = Some (Hash (slot_at ht data i))"
    "get_u32 data (slotBase ht + int i * SlotSize + 8) = Some (Offset (slot_at ht data i))"
    "get_u32 data (slotBase ht + int i * SlotSize + 12) = Some (VLen (slot_at ht data i))"
  using getSlot_at [OF wf i] by (cases "slot_at ht data i"; auto simp: getSlot_def Let_def bind_eq_Some_conv)+

lemma lookingI:
  assumes "missed ht h key data m" "m + Suc n = ncap ht" "ht_wf ht data"
    and "seen ht h W data ((home ht h + m) mod ncap ht) slot" "P slot"
  shows "looking ht h key W data n (int ((home ht h + m) mod ncap ht)) P"
proof -
  have "dist (ncap ht) (home ht h) ((home ht h + m) mod ncap ht) = m" using assms(2,3) by (simp add: dist_at)
  then show ?thesis using assms unfolding looking_def
    by (intro exI [of _ "(home ht h + m) mod ncap ht"] exI [of _ slot]) simp
qed

text \<open>The next load: of field \<open>f\<close>, into a slot of which \<open>P\<close> is known.\<close>

lemma looking_load:
  assumes "looking ht h key W data n idx P"
    and "\<And>i. i < ncap ht \<Longrightarrow> load (int i) = Some (f (slot_at ht d i))"
    and "\<And>i slot. i < ncap ht \<Longrightarrow> seen ht h W data i slot \<Longrightarrow> P slot \<Longrightarrow>
      seen ht h W data i (upd (slot_at ht d i) slot) \<and> Q (f (slot_at ht d i)) (upd (slot_at ht d i) slot)"
  shows "\<exists>x. load idx = Some x \<and> looking ht h key W data n idx (Q x)"
  using assms unfolding looking_def by blast

lemma seen_mix:
  assumes "seen ht h W data i s1" "seen ht h W data i s2"
  shows "seen ht h W data i (s1\<lparr>Hash := Hash s2\<rparr>)" "seen ht h W data i (s1\<lparr>Offset := Offset s2\<rparr>)"
    "seen ht h W data i (s1\<lparr>VLen := VLen s2\<rparr>)"
  using assms by (auto simp: seen_def split: if_splits)

lemma next_probe:
  assumes wf: "ht_wf ht data" and i: "i < ncap ht" and n: "dist (ncap ht) (home ht h) i + Suc n = ncap ht"
    and m: "missed ht h key data (dist (ncap ht) (home ht h) i)" and no: "\<not> slot_hit ht data h key i"
  shows "get_inv ht h key W data (Probing n (next_index ht (int i)))"
proof -
  let ?D = "dist (ncap ht) (home ht h) i"
  have "(home ht h + Suc ?D) mod ncap ht = Suc i mod ncap ht"
    using at_dist [OF home_less [OF wf, of h] i] by (metis add_Suc_right mod_Suc_eq)
  then show ?thesis using n missed_step [OF wf i m no]
    by (auto simp: next_index_int [OF wf] intro!: exI [of _ "Suc ?D"])
qed

text \<open>What the lookup decides once it has a slot.\<close>

lemma decide_inv:
  assumes tab: "table_inv ht data" and W: "claimable ht h W data" and st: "undisturbed ht h W data d" and inv: "get_inv ht h key W data (ReadSlot n idx slot)"
  shows "\<exists>s'. get_step ht h key d (ReadSlot n idx slot) = Some s' \<and> get_inv ht h key W data s'"
proof -
  have wf: "ht_wf ht data" using tab by simp
  have wfd: "ht_wf ht d" using wf st ht_wf_cong [of d data ht] by (simp add: undisturbed_def)
  obtain i where i: "i < ncap ht" "idx = int i" "dist (ncap ht) (home ht h) i + Suc n = ncap ht"
      "missed ht h key data (dist (ncap ht) (home ht h) i)" "seen ht h W data i slot"
    using inv by (auto simp: looking_def)
  have go: "get_inv ht h key W data (Probing n (next_index ht idx))" if "\<not> slot_hit ht data h key i"
    unfolding i(2) by (rule next_probe [OF wf i(1,3,4) that])
  have empty: "lookup ht data h key = None" if "Status slot = SlotEmpty"
    by (rule missed_empty [OF tab i(1,4)])
      (use that i(5) in \<open>auto simp: seen_def slot_empty_def split: if_splits\<close>)
  show ?thesis
  proof (cases "i \<in> W")
    case True
    then have "\<not> slot_hit ht data h key i" using W by (auto simp: claimable_def dest: slot_hit_used slot_free_not_used)
    moreover have "Hash slot \<noteq> h" using True i(5) by (simp add: seen_def)
    ultimately show ?thesis using go empty by (simp add: lookup_result_def del: SlotEmpty_def SlotUsed_def)
  next
    case False
    then have slot: "slot = slot_at ht data i" using i(5) by (simp add: seen_def)
    have used: "Status slot = SlotUsed \<Longrightarrow> slot_used ht data i" by (simp add: slot slot_used_def)
    show ?thesis
    proof (cases "slot_hit ht data h key i")
      case True
      then have "Status slot = SlotUsed" "Hash slot = h" "key_at ht data (Offset slot) = Some key"
        unfolding slot by (auto simp: slot_hit_def slot_used_def)
      moreover have "key_at ht d (Offset slot) = key_at ht data (Offset slot)"
          "value_at ht d (Offset slot) (VLen slot) = slot_value ht data i"
        using st i(1) slot_hit_used [OF True] unfolding slot undisturbed_def by blast+
      ultimately show ?thesis using missed_hit [OF wf i(1,4) True]
        by (simp add: matchKeyAt_eq [OF wfd] getValue_eq [OF wfd] lookup_result_def)
    next
      case no: False
      then have "Status slot = SlotUsed \<Longrightarrow> Hash slot = h \<Longrightarrow> key_at ht d (Offset slot) \<noteq> Some key"
        using st i(1) used unfolding slot by (simp add: slot_hit_def undisturbed_def)
      then show ?thesis using go [OF no] empty
        by (auto simp: matchKeyAt_eq [OF wfd] lookup_result_def simp del: SlotEmpty_def SlotUsed_def get_inv.simps(1))
    qed
  qed
qed

text \<open>Every load of the lookup succeeds and keeps the invariant.\<close>

lemma get_step_inv:
  assumes tab: "table_inv ht data" and W: "claimable ht h W data" and st: "undisturbed ht h W data d" and inv: "get_inv ht h key W data s"
  shows "\<exists>s'. get_step ht h key d s = Some s' \<and> get_inv ht h key W data s'"
proof -
  have wf: "ht_wf ht data" using tab by simp
  have wfd: "ht_wf ht d" using wf st ht_wf_cong [of d data ht] by (simp add: undisturbed_def)
  have now: "seen ht h W data i (slot_at ht d i)" if "i < ncap ht" for i using st that by (simp add: undisturbed_def)
  show ?thesis
  proof (cases s)
    case (Probing n idx)
    then obtain m where m: "m + n = ncap ht" "idx = int ((home ht h + m) mod ncap ht)" "missed ht h key data m"
      using inv by auto
    show ?thesis
    proof (cases n)
      case 0
      then show ?thesis using Probing m missed_all [OF wf] by (simp add: lookup_result_def)
    next
      case (Suc k)
      have i: "(home ht h + m) mod ncap ht < ncap ht" using ncap_pos [OF wf] by simp
      show ?thesis using Probing Suc m slot_loads(1) [OF wfd i] lookingI [OF m(3) _ wf now [OF i]]
        by (simp del: SlotSize_def)
    qed
  next
    case (ReadStatus n idx status)
    then have "looking ht h key W data n idx (\<lambda>slot. Status slot = status)" using inv by simp
    from looking_load [OF this, of "\<lambda>i. get_u64 d (slotBase ht + i * SlotSize)" Hash d
        "\<lambda>now slot. slot\<lparr>Hash := Hash now\<rparr>" "\<lambda>x slot. Status slot = status \<and> Hash slot = x"]
    show ?thesis using ReadStatus slot_loads(2) [OF wfd] seen_mix(1) [OF _ now] by auto
  next
    case (ReadHash n idx status x)
    then have "looking ht h key W data n idx (\<lambda>slot. Status slot = status \<and> Hash slot = x)" using inv by simp
    from looking_load [OF this, of "\<lambda>i. get_u32 d (slotBase ht + i * SlotSize + 8)" Offset d
        "\<lambda>now slot. slot\<lparr>Offset := Offset now\<rparr>" "\<lambda>ofs slot. Status slot = status \<and> Hash slot = x \<and> Offset slot = ofs"]
    show ?thesis using ReadHash slot_loads(3) [OF wfd] seen_mix(2) [OF _ now] by auto
  next
    case (ReadOffset n idx status x ofs)
    then have "looking ht h key W data n idx (\<lambda>slot. Status slot = status \<and> Hash slot = x \<and> Offset slot = ofs)"
      using inv by simp
    from looking_load [OF this, of "\<lambda>i. get_u32 d (slotBase ht + i * SlotSize + 12)" VLen d
        "\<lambda>now slot. slot\<lparr>VLen := VLen now\<rparr>" "\<lambda>vlen slot. slot = \<lparr>Hash = x, Offset = ofs, VLen = vlen, Status = status\<rparr>"]
    show ?thesis using ReadOffset slot_loads(4) [OF wfd] seen_mix(3) [OF _ now] by auto
  next
    case (ReadSlot n idx slot)
    then show ?thesis using decide_inv [OF tab W st] inv by blast
  next
    case (Returned r)
    then show ?thesis using inv by simp
  qed
qed

lemma watching_inv:
  assumes tab: "table_inv ht data" and W: "claimable ht h W data" and run: "watching ht h key W data d s"
  shows "get_inv ht h key W data s"
  using run
proof (induction rule: watching.induct)
  case (begin_get d)
  then show ?case using get_inv_start tab by simp
next
  case (load d s s')
  then show ?case using get_step_inv [OF tab W watching_undisturbed [OF load.hyps(1)] load.IH] by auto
qed

lemma watching_Get:
  assumes tab: "table_inv ht data" and W: "claimable ht h W data" and run: "watching ht h key W data d s"
  shows "s = Returned r \<Longrightarrow> HashTable_Get ht data h key = Some r"
    "\<exists>s'. get_step ht h key d s = Some s' \<and> (loads_left s \<noteq> 0 \<longrightarrow> loads_left s' < loads_left s)"
  using watching_inv [OF tab W run] get_step_inv [OF tab W watching_undisturbed [OF run]] get_step_decreases
  by (auto simp: Get_lookup [OF tab]) metis

section \<open>A lookup during an insertion\<close>

text \<open>
  The writer is at any of its stores when the lookup begins; from then on stores and loads come in any
  order.
\<close>

inductive interleaved ::
  "insert_args \<Rightarrow> u64 \<Rightarrow> bytes \<Rightarrow> bytes \<Rightarrow> phase \<times> bytes \<Rightarrow> get_state \<Rightarrow> bool" for a h key data where
  begin_get: "insert_run a data ws \<Longrightarrow> interleaved a h key data ws (get_start (ia_table a) h)"
| store: "interleaved a h key data ws s \<Longrightarrow> insert_step a ws ws' \<Longrightarrow> interleaved a h key data ws' s"
| load: "interleaved a h key data (ph, d) s \<Longrightarrow> get_step (ia_table a) h key d s = Some s' \<Longrightarrow>
    interleaved a h key data (ph, d) s'"

lemma interleaved_run: "interleaved a h key data ws s \<Longrightarrow> insert_run a data ws"
  by (induction rule: interleaved.induct) (auto intro: insert_run.step)

lemma run_undisturbed:
  assumes ins: "inserting a data1" and run: "insert_run a data1 (ph, d)" and h: "ia_hash a \<noteq> h"
    and st: "undisturbed (ia_table a) h W data data1" and W: "ia_slot a \<in> W"
  shows "undisturbed (ia_table a) h W data d"
proof -
  let ?ht = "ia_table a"
  note w = insertingD [OF ins]
  have "seen ?ht h W data i (slot_at ?ht d i)" if i: "i < ncap ?ht" for i
  proof -
    have "seen ?ht h W data i (slot_at ?ht data1 i)" using st i by (simp add: undisturbed_def)
    then show ?thesis using h W run_facts(2) [OF ins run i]
      by (cases "i = ia_slot a"; cases ph) (auto simp: seen_def)
  qed
  moreover have "length d = length data1"
    using insert_run_inv [OF w(1,2) run] by (simp add: same_outside_def)
  ultimately show ?thesis using st run_facts(3,4) [OF ins run w(2)] by (simp add: undisturbed_def)
qed

lemma interleaved_watching:
  assumes ins: "inserting a data" and h: "h \<notin> {ia_hash a, Hash (slot_at (ia_table a) data (ia_slot a))}"
    and run: "interleaved a h key data ws s"
  shows "watching (ia_table a) h key {ia_slot a} data (snd ws) s"
    "claimable (ia_table a) h {ia_slot a} data"
proof -
  show W: "claimable (ia_table a) h {ia_slot a} data"
    using insertingD(3) [OF ins] h by (auto simp: claimable_def)
  have st: "undisturbed (ia_table a) h {ia_slot a} data (snd ws)" if "insert_run a data ws" for ws
    using run_undisturbed [OF ins _ _ undisturbed_refl [OF W], of "fst ws" "snd ws"] that h by auto
  from run show "watching (ia_table a) h key {ia_slot a} data (snd ws) s"
  proof (induction rule: interleaved.induct)
    case (begin_get ws)
    then show ?case by (intro watching.begin_get st)
  next
    case (store ws s ws')
    then show ?case by (intro watching.change [OF store.IH] st insert_run.step [OF interleaved_run])
  next
    case (load ph d s s')
    then show ?case by (auto intro: watching.load)
  qed
qed

text \<open>
  A lookup is atomic against an insertion: let the loads of \<open>Get\<close> and the stores of \<open>Insert\<close>
  interleave in any way, from any point of the insertion on. For a key whose hash is neither the one
  being inserted nor the one the claimed slot still shows, the lookup never faults, and when it
  returns it returns what \<open>Get\<close> returned before the insertion; no store delays it, every one of its steps brings
  its return nearer.
\<close>

lemma concurrent_get_is_atomic:
  assumes ins: "inserting a data" and h: "h \<notin> {ia_hash a, Hash (slot_at (ia_table a) data (ia_slot a))}"
    and run: "interleaved a h key data (ph, d) s"
  shows "(\<forall>r. s = Returned r \<longrightarrow> HashTable_Get (ia_table a) data h key = Some r) \<and>
    (\<exists>s'. get_step (ia_table a) h key d s = Some s' \<and> interleaved a h key data (ph, d) s' \<and>
      (loads_left s \<noteq> 0 \<longrightarrow> loads_left s' < loads_left s))"
proof -
  have tab: "table_inv (ia_table a) data" using ins by (simp add: inserting_def)
  have "watching (ia_table a) h key {ia_slot a} data d s" using interleaved_watching(1) [OF ins h run] by simp
  from watching_Get [OF tab interleaved_watching(2) [OF ins h run] this] interleaved.load [OF run] show ?thesis by blast
qed

end
