(* ===== verification/Concurrent_Load.thy ===== *)
theory Concurrent_Load
  imports Concurrent_Get Loader_Props
begin

text \<open>
  Lookups while \<open>Load\<close> runs in another process. The loader is a machine whose steps are its stores to the
  segment: each byte of a chunk, the four stores of each insertion, and the generation counter at the
  end. Its runs end in the memory and with the result of \<open>Loader_Load\<close>; a reader interleaved with it
  finds every key that was there before, and misses every other key that is not being loaded.
\<close>

section \<open>The stores of a load\<close>

datatype 's load_state =
    NextEntry 's
  | WritingChunk 's bytes bytes nat bytes     \<comment> \<open>key, value, position and the bytes still to write\<close>
  | FillingSlot 's insert_args phase
  | Counting                                  \<comment> \<open>the loop is over; the generation counter comes next\<close>
  | Stopped load_end

definition insert_args_for :: "hash_table \<Rightarrow> nat \<Rightarrow> u64 \<Rightarrow> nat \<Rightarrow> bytes \<Rightarrow> insert_args" where
  \<comment> \<open>the insertion into slot \<open>j\<close> of the chunk that starts at \<open>e\<close>\<close>
  "insert_args_for ht j h e value =
    \<lparr>ia_table = ht, ia_slot = j, ia_hash = h, ia_offset = of_nat (e - data_base ht), ia_vlen = of_nat (length value)\<rparr>"

definition put_hash :: "u64 \<Rightarrow> bytes \<Rightarrow> bytes \<Rightarrow> u64" where
  "put_hash pkgSeed d key = HashKeyWithSeed key (headerHashSeed pkgSeed (header_at d))"

text \<open>
  The loader is the only writer, so the walk that looks for a free slot sees the statuses that it has
  left itself, and is no step of its own.
\<close>

inductive load_step ::
  "('s \<Rightarrow> (next_result \<times> 's) option) \<Rightarrow> hash_table \<Rightarrow> u64 \<Rightarrow>
    's load_state \<times> loader \<times> bytes \<Rightarrow> 's load_state \<times> loader \<times> bytes \<Rightarrow> bool" for nxt ht pkgSeed where
  exhausted: "nxt s = Some (Inl ErrEOF, s') \<Longrightarrow> load_step nxt ht pkgSeed (NextEntry s, l, d) (Counting, l, d)"
| source_fails: "nxt s = Some (Inl e, s') \<Longrightarrow> e \<noteq> ErrEOF \<Longrightarrow>
    load_step nxt ht pkgSeed (NextEntry s, l, d) (Stopped (LoadFailed e), l, d)"
| skip: "nxt s = Some (Inr (k, v), s') \<Longrightarrow> length k = 0 \<or> length k > MaxKeyLen \<Longrightarrow>
    load_step nxt ht pkgSeed (NextEntry s, l, d) (NextEntry s', l, d)"
| region_full: "nxt s = Some (Inr (k, v), s') \<Longrightarrow> \<not> (length k = 0 \<or> length k > MaxKeyLen) \<Longrightarrow>
    sint (l_dataEnd l) + int (length (chunk k v)) > int (length d) \<Longrightarrow>
    load_step nxt ht pkgSeed (NextEntry s, l, d)
      (Stopped (LoadFailed ErrDataRegionFull), l\<lparr>l_dataEnd := l_dataEnd l + of_nat (length (chunk k v))\<rparr>, d)"
| reserve: "nxt s = Some (Inr (k, v), s') \<Longrightarrow> \<not> (length k = 0 \<or> length k > MaxKeyLen) \<Longrightarrow>
    0 \<le> sint (l_dataEnd l) \<Longrightarrow> sint (l_dataEnd l) + int (length (chunk k v)) \<le> int (length d) \<Longrightarrow>
    load_step nxt ht pkgSeed (NextEntry s, l, d)
      (WritingChunk s' k v (nat (sint (l_dataEnd l))) (chunk k v),
       l\<lparr>l_dataEnd := l_dataEnd l + of_nat (length (chunk k v))\<rparr>, d)"
| write_byte: "load_step nxt ht pkgSeed (WritingChunk s k v q (b # bs), l, d)
    (WritingChunk s k v (Suc q) bs, l, wr q [b] d)"
| table_full: "free_walk ht d (put_hash pkgSeed d k) = None \<Longrightarrow>
    load_step nxt ht pkgSeed (WritingChunk s k v q [], l, d) (Counting, l, d)"
| slot_found: "free_walk ht d (put_hash pkgSeed d k) = Some j \<Longrightarrow>
    load_step nxt ht pkgSeed (WritingChunk s k v q [], l, d)
      (FillingSlot s (insert_args_for ht j (put_hash pkgSeed d k) (q - length (chunk k v)) v) Claim, l, d)"
| fill: "insert_step a (ph, d) (ph', d') \<Longrightarrow>
    load_step nxt ht pkgSeed (FillingSlot s a ph, l, d) (FillingSlot s a ph', l, d')"
| filled: "load_step nxt ht pkgSeed (FillingSlot s a Inserted, l, d) (NextEntry s, l, d)"
| count: "bump_generation d = Some d' \<Longrightarrow> load_step nxt ht pkgSeed (Counting, l, d) (Stopped Loaded, l, d')"

inductive_simps load_step_simps:
  "load_step nxt ht pkgSeed (NextEntry s, l, d) c" "load_step nxt ht pkgSeed (WritingChunk s k v q bs, l, d) c"
  "load_step nxt ht pkgSeed (FillingSlot s a ph, l, d) c" "load_step nxt ht pkgSeed (Counting, l, d) c"
  "load_step nxt ht pkgSeed (Stopped fin, l, d) c"

inductive load_run ::
  "('s \<Rightarrow> (next_result \<times> 's) option) \<Rightarrow> hash_table \<Rightarrow> u64 \<Rightarrow>
    's load_state \<times> loader \<times> bytes \<Rightarrow> 's load_state \<times> loader \<times> bytes \<Rightarrow> bool" for nxt ht pkgSeed c0 where
  start: "load_run nxt ht pkgSeed c0 c0"
| step: "load_run nxt ht pkgSeed c0 c \<Longrightarrow> load_step nxt ht pkgSeed c c' \<Longrightarrow> load_run nxt ht pkgSeed c0 c'"

section \<open>Stores that a lookup does not notice\<close>

definition free_slots :: "hash_table \<Rightarrow> bytes \<Rightarrow> nat set" where
  "free_slots ht data = {i. i < ncap ht \<and> slot_free ht data i}"

lemma undisturbed_used:
  assumes "undisturbed ht h (free_slots ht data) data d" "i < ncap ht" "slot_used ht data i"
  shows "slot_at ht d i = slot_at ht data i" "slot_used ht d i"
    "key_at ht d (Offset (slot_at ht data i)) = key_at ht data (Offset (slot_at ht data i))"
    "slot_value ht d i = slot_value ht data i"
proof -
  have "i \<notin> free_slots ht data" using assms(3) slot_free_not_used by (auto simp: free_slots_def)
  then show s: "slot_at ht d i = slot_at ht data i" using assms(1,2) by (auto simp: undisturbed_def seen_def)
  then show "slot_used ht d i" using assms(3) by (simp add: slot_used_def)
  show "key_at ht d (Offset (slot_at ht data i)) = key_at ht data (Offset (slot_at ht data i))"
    "slot_value ht d i = slot_value ht data i"
    using assms s by (simp_all add: undisturbed_def slot_value_def)
qed

lemma undisturbed_free:
  assumes "undisturbed ht h (free_slots ht data) data d" "i < ncap ht" "slot_free ht d i"
  shows "i \<in> free_slots ht data"
  using assms by (auto simp: undisturbed_def seen_def free_slots_def slot_free_def split: if_splits)

text \<open>A change that leaves the slots of \<open>d\<close> and the chunks of its entries alone keeps it undisturbed.\<close>

lemma undisturbed_same_entries:
  assumes st: "undisturbed ht h (free_slots ht data) data d" and len: "length d' = length d"
    and slot: "\<And>i. i < ncap ht \<Longrightarrow> slot_at ht d' i = slot_at ht d i"
    and key: "\<And>i. i < ncap ht \<Longrightarrow> slot_used ht d i \<Longrightarrow>
      key_at ht d' (Offset (slot_at ht d i)) = key_at ht d (Offset (slot_at ht d i))"
    and val: "\<And>i. i < ncap ht \<Longrightarrow> slot_used ht d i \<Longrightarrow> slot_value ht d' i = slot_value ht d i"
  shows "undisturbed ht h (free_slots ht data) data d'"
proof -
  have "key_at ht d' (Offset (slot_at ht data i)) = key_at ht data (Offset (slot_at ht data i)) \<and>
      value_at ht d' (Offset (slot_at ht data i)) (VLen (slot_at ht data i)) = slot_value ht data i"
    if i: "i < ncap ht" "slot_used ht data i" for i
  proof -
    note u = undisturbed_used [OF st i]
    have "value_at ht d' (Offset (slot_at ht data i)) (VLen (slot_at ht data i)) = slot_value ht d' i"
      using slot [OF i(1)] u(1) by (simp add: slot_value_def)
    then show ?thesis using u key [OF i(1) u(2)] val [OF i(1) u(2)] by simp
  qed
  then show ?thesis using st slot len by (auto simp: undisturbed_def)
qed

lemma undisturbed_write:
  assumes "undisturbed ht h (free_slots ht data) data d" "store_inv ht e d" "e + length ys \<le> length d"
  shows "undisturbed ht h (free_slots ht data) data (wr e ys d)"
  using store_inv_write [OF assms(2,3)] assms(3)
  by (intro undisturbed_same_entries [OF assms(1)]) simp_all

lemma undisturbed_bump:
  assumes st: "undisturbed ht h (free_slots ht data) data d" and inv: "store_inv ht e d" and b: "bump_generation d = Some d'"
  shows "undisturbed ht h (free_slots ht data) data d'"
proof -
  let ?hdr = "(header_at d)\<lparr>hdr_GenCounter := hdr_GenCounter (header_at d) + 1\<rparr>"
  have "64 \<le> length d" using store_invD(2,8) [OF inv] data_base_le [of ht d] by linarith
  then have ok: "header_ok ?hdr" and d': "d' = set_header d ?hdr"
    using b by (simp_all add: bump_generation_def header_ok_def header_at_def)
  note s = store_inv_set_header [OF inv ok, simplified, folded d']
  show ?thesis by (rule undisturbed_same_entries [OF st]) (simp_all add: s slot_value_def)
qed

section \<open>The invariant of a load\<close>

text \<open>
  \<open>between\<close>: the loader stands between two entries, with \<open>es\<close> to come; \<open>amid\<close>: it has taken \<open>(k, v)\<close> from the
  source, and \<open>l0\<close> and \<open>d0\<close> are from before. \<open>R\<close> is what the whole loop of \<open>Load\<close> returns.
\<close>

definition between :: "hash_table \<Rightarrow> u64 \<Rightarrow> bytes \<Rightarrow> (bytes \<times> bytes) list \<Rightarrow> loader \<Rightarrow> bytes \<Rightarrow> bool" where
  "between ht h data es l d \<longleftrightarrow> loader_inv ht l d \<and> undisturbed ht h (free_slots ht data) data d \<and>
    stored_seed d = stored_seed data \<and> unat (l_dataEnd l) + chunks_size es < 2 ^ 31 \<and>
    (\<forall>kv\<in>set es. HashKeyWithSeed (fst kv) (stored_seed data) \<noteq> h)"

type_synonym 's loop_result = "(load_end \<times> int \<times> loader \<times> bytes \<times> 's) option"

definition amid ::
  "('s \<Rightarrow> (next_result \<times> 's) option) \<Rightarrow> u64 \<Rightarrow> hash_table \<Rightarrow> u64 \<Rightarrow> bytes \<Rightarrow> 's loop_result \<Rightarrow>
    (bytes \<times> bytes) list \<Rightarrow> bytes \<Rightarrow> bytes \<Rightarrow> 's \<Rightarrow> loader \<Rightarrow> bytes \<Rightarrow> loader \<Rightarrow> bool" where
  "amid nxt pkgSeed ht h data R es k v s l0 d0 l \<longleftrightarrow>
    \<not> (length k = 0 \<or> length k > MaxKeyLen) \<and> between ht h data ((k, v) # es) l0 d0 \<and>
    unat (l_dataEnd l0) + length (chunk k v) \<le> length d0 \<and>
    l = l0\<lparr>l_dataEnd := of_nat (unat (l_dataEnd l0) + length (chunk k v))\<rparr> \<and>
    (\<exists>s0 fuel c. nxt s0 = Some (Inr (k, v), s) \<and> Load_loop (Suc fuel) pkgSeed nxt l0 d0 s0 c = R)"

lemma amidD:
  assumes w: "amid nxt pkgSeed ht h data R es k v s l0 d0 l"
  defines "e \<equiv> unat (l_dataEnd l0)" and "d1 \<equiv> wr (unat (l_dataEnd l0)) (chunk k v) d0"
  shows "store_inv ht e d0" "unat (l_dataEnd l) = e + length (chunk k v)" "header_at d1 = header_at d0"
    "loader_inv ht l d1" "undisturbed ht h (free_slots ht data) data d1"
    "put_hash pkgSeed d1 k = HashKeyWithSeed k (stored_seed data)" "HashKeyWithSeed k (stored_seed data) \<noteq> h"
    "Loader_put pkgSeed l0 d0 k v = (case free_walk ht d1 (HashKeyWithSeed k (stored_seed data)) of
      None \<Rightarrow> Some (Some errHashFull, l, d1) | Some j \<Rightarrow> Some (None, l, put_memory ht e d0 k v j))"
proof -
  have b: "loader_inv ht l0 d0" "undisturbed ht h (free_slots ht data) data d0" "stored_seed d0 = stored_seed data"
      "e + length (chunk k v) < 2 ^ 31" "HashKeyWithSeed k (stored_seed data) \<noteq> h"
      "e + length (chunk k v) \<le> length d0" "l = l0\<lparr>l_dataEnd := of_nat (e + length (chunk k v))\<rparr>"
    using w by (simp_all add: amid_def between_def e_def)
  show inv: "store_inv ht e d0" using b(1) by (simp add: loader_inv_def e_def)
  note d = store_invD [OF inv]
  show u: "unat (l_dataEnd l) = e + length (chunk k v)"
    using b(4) by (simp add: b(7) unat_of_nat_small del: length_chunk of_nat_add)
  note wr = store_inv_write [OF inv b(6), folded d1_def [folded e_def]]
  show hdr: "header_at d1 = header_at d0" using wr(5) by (simp add: d1_def e_def)
  show "loader_inv ht l d1" using b(1,7) u wr(1) by (simp add: loader_inv_def d1_def e_def)
  show "undisturbed ht h (free_slots ht data) data d1"
    using undisturbed_write [OF b(2) inv b(6)] by (simp add: d1_def e_def)
  show "put_hash pkgSeed d1 k = HashKeyWithSeed k (stored_seed data)"
    using b(3) headerHashSeed_stored [OF d(4), of pkgSeed] by (simp add: put_hash_def hdr)
  show "HashKeyWithSeed k (stored_seed data) \<noteq> h" by (rule b(5))
  have room: "unat (l_dataEnd l0) + 4 + length k + length v < 2 ^ 31" using b(4) by (simp add: e_def)
  show "Loader_put pkgSeed l0 d0 k v = (case free_walk ht d1 (HashKeyWithSeed k (stored_seed data)) of
      None \<Rightarrow> Some (Some errHashFull, l, d1) | Some j \<Rightarrow> Some (None, l, put_memory ht e d0 k v j))"
    using Loader_put_eq [OF b(1) room, of pkgSeed] b(3,6,7)
    by (simp add: e_def d1_def add.assoc split: option.split)
qed

text \<open>What the loop returns once the entry has been put.\<close>

lemma amid_result:
  assumes w: "amid nxt pkgSeed ht h data R es k v s l0 d0 l"
  shows "Loader_put pkgSeed l0 d0 k v = Some (Some errHashFull, l, d1) \<Longrightarrow> \<exists>c. R = Some (Loaded, c, l, d1, s)"
    "Loader_put pkgSeed l0 d0 k v = Some (None, l, d2) \<Longrightarrow> \<exists>fuel c. Load_loop fuel pkgSeed nxt l d2 s c = R"
proof -
  obtain s0 fuel c where r: "nxt s0 = Some (Inr (k, v), s)" "Load_loop (Suc fuel) pkgSeed nxt l0 d0 s0 c = R"
    and k: "\<not> (length k = 0 \<or> length k > MaxKeyLen)"
    using w unfolding amid_def by blast
  show "\<exists>c. R = Some (Loaded, c, l, d1, s)" if "Loader_put pkgSeed l0 d0 k v = Some (Some errHashFull, l, d1)"
    using r(2) k that by (auto simp: r(1))
  show "\<exists>fuel c. Load_loop fuel pkgSeed nxt l d2 s c = R" if "Loader_put pkgSeed l0 d0 k v = Some (None, l, d2)"
    using r(2) k that by (auto simp: r(1))
qed

fun load_inv ::
  "('s \<Rightarrow> (next_result \<times> 's) option) \<Rightarrow> ('s \<Rightarrow> (bytes \<times> bytes) list \<Rightarrow> bool) \<Rightarrow> u64 \<Rightarrow> hash_table \<Rightarrow> u64 \<Rightarrow>
    bytes \<Rightarrow> 's loop_result \<Rightarrow> 's load_state \<times> loader \<times> bytes \<Rightarrow> bool" where
  "load_inv nxt delivers pkgSeed ht h data R (NextEntry s, l, d) \<longleftrightarrow>
    (\<exists>es fuel c. delivers s es \<and> between ht h data es l d \<and> Load_loop fuel pkgSeed nxt l d s c = R)"
| "load_inv nxt delivers pkgSeed ht h data R (WritingChunk s k v q bs, l, d) \<longleftrightarrow>
    (\<exists>es l0 d0 ws. delivers s es \<and> amid nxt pkgSeed ht h data R es k v s l0 d0 l \<and>
      chunk k v = ws @ bs \<and> q = unat (l_dataEnd l0) + length ws \<and> d = wr (unat (l_dataEnd l0)) ws d0)"
| "load_inv nxt delivers pkgSeed ht h data R (FillingSlot s a ph, l, d) \<longleftrightarrow>
    (\<exists>es l0 d0 k v j. delivers s es \<and> amid nxt pkgSeed ht h data R es k v s l0 d0 l \<and>
      a = insert_args_for ht j (HashKeyWithSeed k (stored_seed data)) (unat (l_dataEnd l0)) v \<and>
      inserting a (wr (unat (l_dataEnd l0)) (chunk k v) d0) \<and>
      insert_run a (wr (unat (l_dataEnd l0)) (chunk k v) d0) (ph, d))"
| "load_inv nxt delivers pkgSeed ht h data R (Counting, l, d) \<longleftrightarrow>
    loader_inv ht l d \<and> undisturbed ht h (free_slots ht data) data d \<and> (\<exists>c s. R = Some (Loaded, c, l, d, s))"
| "load_inv nxt delivers pkgSeed ht h data R (Stopped fin, l, d) \<longleftrightarrow>
    undisturbed ht h (free_slots ht data) data d \<and>
    (\<exists>c d' s. R = Some (fin, c, l, d', s) \<and> (if fin = Loaded then bump_generation d' = Some d else d' = d))"

lemma writing_inv:
  assumes inv: "load_inv nxt delivers pkgSeed ht h data R (WritingChunk s k v q bs, l, d)"
    and step: "load_step nxt ht pkgSeed (WritingChunk s k v q bs, l, d) cfg"
  shows "load_inv nxt delivers pkgSeed ht h data R cfg"
proof -
  obtain es l0 d0 ws where w: "delivers s es" "amid nxt pkgSeed ht h data R es k v s l0 d0 l"
      "chunk k v = ws @ bs" "q = unat (l_dataEnd l0) + length ws" "d = wr (unat (l_dataEnd l0)) ws d0"
    using inv by auto
  note a = amidD [OF w(2)]
  have fits: "unat (l_dataEnd l0) + length (ws @ bs) \<le> length d0"
    using w(2) unfolding amid_def w(3) by blast
  show ?thesis
  proof (cases bs)
    case (Cons b bs')
    then have "cfg = (WritingChunk s k v (Suc q) bs', l, wr q [b] d)" using step by (auto simp: load_step_simps)
    moreover have "wr q [b] d = wr (unat (l_dataEnd l0)) (ws @ [b]) d0"
      using wr_wr_adjacent [of "unat (l_dataEnd l0)" ws "[b]" d0] fits by (simp add: w(4,5) Cons)
    moreover have "chunk k v = (ws @ [b]) @ bs'" by (simp add: w(3) Cons)
    ultimately show ?thesis using w(1,2,4) by fastforce
  next
    case Nil
    let ?d1 = "wr (unat (l_dataEnd l0)) (chunk k v) d0" and ?h = "HashKeyWithSeed k (stored_seed data)"
    have d: "d = ?d1" "q - length (chunk k v) = unat (l_dataEnd l0)" using w(3-5) Nil by simp_all
    show ?thesis
    proof (cases "free_walk ht ?d1 ?h")
      case None
      then have "cfg = (Counting, l, d)" using step Nil a(6) by (auto simp: load_step_simps d(1))
      moreover have "\<exists>c. R = Some (Loaded, c, l, d, s)"
        by (rule amid_result(1) [OF w(2)]) (use a(8) None in \<open>simp add: d(1)\<close>)
      ultimately show ?thesis using a(4,5) by (auto simp: d(1))
    next
      case (Some j)
      let ?a = "insert_args_for ht j ?h (unat (l_dataEnd l0)) v"
      have "cfg = (FillingSlot s ?a Claim, l, d)"
        using step Nil Some a(6) d(2) [simplified] by (auto simp: load_step_simps d(1))
      moreover have "table_inv ht ?d1" using a(4) store_invD(1) by (auto simp: loader_inv_def)
      then have "inserting ?a ?d1" using Some by (simp add: inserting_def insert_args_for_def)
      moreover have "insert_run ?a ?d1 (Claim, d)" unfolding d(1) by (rule insert_run.start)
      ultimately show ?thesis using w(1,2) by fastforce
    qed
  qed
qed

lemma filling_undisturbed:
  fixes j :: nat
  assumes w: "amid nxt pkgSeed ht h data R es k v s l0 d0 l"
  defines "d1 \<equiv> wr (unat (l_dataEnd l0)) (chunk k v) d0"
  defines "a \<equiv> insert_args_for ht j (HashKeyWithSeed k (stored_seed data)) (unat (l_dataEnd l0)) v"
  assumes ins: "inserting a d1" and run: "insert_run a d1 (ph, d)"
  shows "undisturbed ht h (free_slots ht data) data d"
proof -
  note m = amidD [OF w, folded d1_def]
  have a: "ia_table a = ht" "ia_slot a = j" "ia_hash a \<noteq> h" using m(7) by (simp_all add: a_def insert_args_for_def)
  have "j \<in> free_slots ht data"
    using undisturbed_free [OF m(5)] insertingD(2,3) [OF ins] unfolding a by blast
  then show ?thesis using run_undisturbed [OF ins run a(3)] m(5) unfolding a by blast
qed

lemma filling_inv:
  assumes inv: "load_inv nxt delivers pkgSeed ht h data R (FillingSlot s a ph, l, d)"
    and step: "load_step nxt ht pkgSeed (FillingSlot s a ph, l, d) cfg"
  shows "load_inv nxt delivers pkgSeed ht h data R cfg"
proof -
  let ?e = "\<lambda>l0 :: loader. unat (l_dataEnd l0)"
  obtain es l0 d0 k v j where w: "delivers s es" "amid nxt pkgSeed ht h data R es k v s l0 d0 l"
      "a = insert_args_for ht j (HashKeyWithSeed k (stored_seed data)) (?e l0) v"
      "inserting a (wr (?e l0) (chunk k v) d0)" "insert_run a (wr (?e l0) (chunk k v) d0) (ph, d)"
    using inv by auto
  consider ph' d' where "insert_step a (ph, d) (ph', d')" "cfg = (FillingSlot s a ph', l, d')"
    | "ph = Inserted" "cfg = (NextEntry s, l, d)"
    using step by (auto simp: load_step_simps)
  then show ?thesis
  proof cases
    case 1
    then show ?thesis using w(1-4) insert_run.step [OF w(5) 1(1)] by fastforce
  next
    case 2
    note m = amidD [OF w(2)]
    have a: "ia_table a = ht" "ia_slot a = j" "ia_hash a = HashKeyWithSeed k (stored_seed data)"
        "ia_offset a = of_nat (?e l0 - data_base ht)" "ia_vlen a = of_nat (length v)"
      by (simp_all add: w(3) insert_args_for_def)
    have seed0: "stored_seed d0 = stored_seed data" and fits: "?e l0 + length (chunk k v) \<le> length d0"
        and b0: "between ht h data ((k, v) # es) l0 d0"
      using w(2) by (simp_all add: amid_def between_def)
    have d: "d = put_memory ht (?e l0) d0 k v j"
      using insert_run_memory [OF w(5)] partial_memory_Inserted [of a "wr (?e l0) (chunk k v) d0"] 2(1)
      by (simp add: put_memory_def a seed0 del: partial_memory_simps)
    have walk: "free_walk ht (wr (?e l0) (chunk k v) d0) (HashKeyWithSeed k (stored_seed data)) = Some j"
      using w(4) by (simp add: inserting_def a)
    note p = put_memory_store [OF m(1) fits walk [folded seed0], folded d]
    have "l_hashTable l = Some ht" using m(4) by (simp add: loader_inv_def)
    then have "loader_inv ht l d" using p(1) m(2) by (simp add: loader_inv_def)
    moreover have "undisturbed ht h (free_slots ht data) data d"
      by (rule filling_undisturbed [OF w(2)]) (use w(3-5) in simp_all)
    moreover have "stored_seed d = stored_seed data" using stored_seed_cong [OF p(4)] seed0 by simp
    moreover have "unat (l_dataEnd l) + chunks_size es < 2 ^ 31" using b0 m(2) by (simp add: between_def)
    ultimately have "between ht h data es l d" using b0 by (simp add: between_def)
    moreover have "\<exists>fuel c. Load_loop fuel pkgSeed nxt l d s c = R"
      by (rule amid_result(2) [OF w(2)]) (use m(8) walk in \<open>simp add: d\<close>)
    ultimately show ?thesis using w(1) unfolding 2(2) by auto
  qed
qed

lemma counting_inv:
  assumes inv: "load_inv nxt delivers pkgSeed ht h data R (Counting, l, d)"
    and step: "load_step nxt ht pkgSeed (Counting, l, d) cfg"
  shows "load_inv nxt delivers pkgSeed ht h data R cfg"
proof -
  obtain d' where d': "bump_generation d = Some d'" "cfg = (Stopped Loaded, l, d')"
    using step by (auto simp: load_step_simps)
  have "store_inv ht (unat (l_dataEnd l)) d" using inv by (simp add: loader_inv_def)
  then have "undisturbed ht h (free_slots ht data) data d'" using undisturbed_bump [OF _ _ d'(1)] inv by auto
  then show ?thesis using inv d' by auto
qed

lemma filling_step:
  assumes "inserting a d1" "insert_run a d1 (ph, d)"
  shows "\<exists>c'. load_step nxt ht pkgSeed (FillingSlot s a ph, l, d) c'"
proof (cases ph)
  case Claim
  then have "slot_free (ia_table a) d (ia_slot a)"
    using insert_run_memory [OF assms(2)] insertingD(3) [OF assms(1)] by simp
  then show ?thesis using load_step.fill [OF insert_step.claim, of a d nxt ht pkgSeed s l] Claim by blast
qed (auto simp: load_step_simps insert_step_simps)

context data_source
begin

lemma next_entry_inv:
  assumes inv: "load_inv nxt delivers pkgSeed ht h data R (NextEntry s, l, d)"
    and step: "load_step nxt ht pkgSeed (NextEntry s, l, d) cfg"
    and R: "\<nexists>c l d s. R = Some (LoadOutOfFuel, c, l, d, s)"
  shows "load_inv nxt delivers pkgSeed ht h data R cfg"
proof -
  obtain es fuel c where e: "delivers s es" "between ht h data es l d" "Load_loop fuel pkgSeed nxt l d s c = R"
    using inv by auto
  obtain f where f: "fuel = Suc f" using e(3) R by (cases fuel) auto
  have b: "loader_inv ht l d" "undisturbed ht h (free_slots ht data) data d" using e(2) by (simp_all add: between_def)
  show ?thesis
  proof (cases es)
    case Nil
    then obtain s' where s': "nxt s = Some (Inl ErrEOF, s')" using e(1) deliver_end by blast
    then have "cfg = (Counting, l, d)" using step by (auto simp: load_step_simps)
    then show ?thesis using b e(3) s' by (auto simp: f)
  next
    case (Cons kv es')
    obtain k v where kv: "kv = (k, v)" by (cases kv)
    obtain s' where s': "nxt s = Some (Inr (k, v), s')" "delivers s' es'" using e(1) Cons kv deliver_next by blast
    have room: "unat (l_dataEnd l) + length (chunk k v) + chunks_size es' < 2 ^ 31"
      using e(2) by (simp add: between_def Cons kv)
    have s32: "sint (l_dataEnd l) = int (unat (l_dataEnd l))" by (rule sint_small) (use room in simp)
    have bound: "int (length d) < sint (l_dataEnd l) + (4 + int (length k) + int (length v)) \<longleftrightarrow>
        \<not> unat (l_dataEnd l) + length (chunk k v) \<le> length d"
      "sint (l_dataEnd l) + (4 + int (length k) + int (length v)) \<le> int (length d) \<longleftrightarrow>
        unat (l_dataEnd l) + length (chunk k v) \<le> length d" "nat (sint (l_dataEnd l)) = unat (l_dataEnd l)"
        "0 \<le> sint (l_dataEnd l)"
      unfolding s32 length_chunk by linarith+
    show ?thesis
    proof (cases "length k = 0 \<or> length k > MaxKeyLen")
      case True
      then have "cfg = (NextEntry s', l, d)" using step s' by (auto simp: load_step_simps)
      moreover have "between ht h data es' l d" using e(2) by (simp add: between_def Cons kv)
      moreover have "Load_loop f pkgSeed nxt l d s' c = R" using e(3) s'(1) True by (auto simp: f)
      ultimately show ?thesis using s'(2) by auto
    next
      case False
      let ?l = "l\<lparr>l_dataEnd := of_nat (unat (l_dataEnd l) + length (chunk k v))\<rparr>"
      show ?thesis
      proof (cases "unat (l_dataEnd l) + length (chunk k v) \<le> length d")
        case True
        then have "cfg = (WritingChunk s' k v (unat (l_dataEnd l)) (chunk k v), ?l, d)"
          using step s' False by (auto simp: load_step_simps bound)
        moreover have "amid nxt pkgSeed ht h data R es' k v s' l d ?l"
          unfolding amid_def using False e(2) True s'(1) e(3) [unfolded f] unfolding Cons kv by blast
        ultimately show ?thesis using s'(2) by fastforce
      next
        case no: False
        then have "cfg = (Stopped (LoadFailed ErrDataRegionFull), ?l, d)"
          using step s' False by (auto simp: load_step_simps bound)
        moreover have "Loader_put pkgSeed l d k v = Some (Some ErrDataRegionFull, ?l, d)"
          using Loader_put_eq [OF b(1), of k v pkgSeed] room no by (simp add: add.assoc)
        then have "R = Some (LoadFailed ErrDataRegionFull, c, ?l, d, s')"
          using e(3) s'(1) False by (auto simp: f)
        ultimately show ?thesis using b(2) by auto
      qed
    qed
  qed
qed

lemma load_step_inv:
  assumes "load_inv nxt delivers pkgSeed ht h data R c" "load_step nxt ht pkgSeed c cfg"
    and "\<nexists>c l d s. R = Some (LoadOutOfFuel, c, l, d, s)"
  shows "load_inv nxt delivers pkgSeed ht h data R cfg"
proof -
  obtain st l d where c: "c = (st, l, d)" by (cases c)
  show ?thesis
    using assms unfolding c
    by (cases st) (auto intro: next_entry_inv writing_inv filling_inv counting_inv simp: load_step_simps(5)
        simp del: load_inv.simps)
qed

lemma load_run_inv:
  assumes init: "delivers s es" "between ht h data es l data"
    and R: "Load_loop fuel pkgSeed nxt l data s c = R" "\<nexists>c l d s. R = Some (LoadOutOfFuel, c, l, d, s)"
    and run: "load_run nxt ht pkgSeed (NextEntry s, l, data) cfg"
  shows "load_inv nxt delivers pkgSeed ht h data R cfg"
  using run
proof (induction rule: load_run.induct)
  case start
  show ?case using init R(1) by auto
next
  case (step c c')
  then show ?case using load_step_inv R(2) by blast
qed

lemma load_step_exists:
  assumes inv: "load_inv nxt delivers pkgSeed ht h data R (st, l, d)" and run: "\<nexists>fin. st = Stopped fin"
  shows "\<exists>c'. load_step nxt ht pkgSeed (st, l, d) c'"
proof (cases st)
  case (NextEntry s)
  then obtain es where e: "delivers s es" "between ht h data es l d" using inv by auto
  show ?thesis
  proof (cases es)
    case Nil
    then obtain s' where "nxt s = Some (Inl ErrEOF, s')" using e(1) deliver_end by blast
    from load_step.exhausted [where nxt = nxt, OF this] show ?thesis unfolding NextEntry by blast
  next
    case (Cons kv es')
    obtain k v where kv: "kv = (k, v)" by (cases kv)
    obtain s' where s': "nxt s = Some (Inr (k, v), s')" using e(1) Cons kv deliver_next by blast
    have "unat (l_dataEnd l) < 2 ^ 31" using e(2) by (simp add: between_def)
    then have "0 \<le> sint (l_dataEnd l)" by (simp add: sint_small)
    then show ?thesis
      unfolding NextEntry using load_step.skip [where nxt = nxt, OF s'] load_step.region_full [where nxt = nxt, OF s'] load_step.reserve [where nxt = nxt, OF s'] by (metis not_le)
  qed
next
  case (WritingChunk s k v q bs)
  have "\<exists>c'. load_step nxt ht pkgSeed (WritingChunk s k v q [], l, d) c'"
    by (cases "free_walk ht d (put_hash pkgSeed d k)") (auto intro: load_step.table_full load_step.slot_found)
  then show ?thesis unfolding WritingChunk by (cases bs) (auto intro: load_step.write_byte)
next
  case (FillingSlot s a ph)
  then show ?thesis using inv filling_step by auto
next
  case Counting
  then have "loader_inv ht l d" using inv by simp
  then obtain d' where "bump_generation d = Some d'" using bump_generation_store by blast
  then show ?thesis unfolding Counting using load_step.count by blast
qed (use run in simp)

end

section \<open>The machine is \<open>Load\<close>\<close>

text \<open>
  A measure that every store decreases, given that the source is finite: what is pending, then the stage
  of the current entry, then what is left of it.
\<close>

primrec stores_left :: "phase \<Rightarrow> nat" where
  "stores_left Claim = 4"
| "stores_left StoreHash = 3"
| "stores_left StoreOffset = 2"
| "stores_left StoreVLen = 1"
| "stores_left Inserted = 0"

primrec load_rank :: "('s \<Rightarrow> nat) \<Rightarrow> 's load_state \<Rightarrow> nat \<times> nat \<times> nat" where
  "load_rank pending (NextEntry s) = (Suc (pending s), 0, 0)"
| "load_rank pending (WritingChunk s k v q bs) = (Suc (pending s), 2, length bs)"
| "load_rank pending (FillingSlot s a ph) = (Suc (pending s), 1, stores_left ph)"
| "load_rank pending Counting = (0, 1, 0)"
| "load_rank pending (Stopped fin) = (0, 0, 0)"

context finite_source
begin

lemma load_step_rank:
  "load_step nxt ht pkgSeed c c' \<Longrightarrow>
    (load_rank pending (fst c'), load_rank pending (fst c)) \<in> less_than <*lex*> less_than <*lex*> less_than"
  by (induction rule: load_step.induct) (auto dest: progress elim: insert_step.cases)

lemma load_step_wf: "wf {(c', c). load_step nxt ht pkgSeed c c'}"
  by (rule wf_subset [OF wf_inv_image [where f = "load_rank pending \<circ> fst"]], rule wf_lex_prod [OF wf_less_than wf_lex_prod [OF wf_less_than wf_less_than]])
    (auto simp: inv_image_def dest: load_step_rank)

end

lemma abs_load_ends: "fst (abs_load cap bnd es c S) \<noteq> LoadOutOfFuel"
  by (induction cap bnd es c S rule: abs_load.induct) (auto split: prod.split option.split)

lemma spare_hash: "card A < 2 ^ 64 \<Longrightarrow> \<exists>h :: u64. h \<notin> A"
proof (rule ccontr)
  assume c: "card A < 2 ^ 64" and "\<nexists>h :: u64. h \<notin> A"
  then have "A = UNIV" by auto
  with c show False by (simp add: card_word)
qed

lemma load_run_trans: "load_run nxt ht pkgSeed c1 c2 \<Longrightarrow> load_run nxt ht pkgSeed c0 c1 \<Longrightarrow> load_run nxt ht pkgSeed c0 c2"
  by (induction rule: load_run.induct) (auto intro: load_run.step)

lemma length_chunks_size: "4 * length es \<le> chunks_size es"
  by (induction es) auto

text \<open>What the machine's invariant is worth: \<open>r\<close> is what \<open>Load\<close> does.\<close>

lemma load_machine_inv:
  assumes src: "data_source (ds_Next ds) pending delivers"
    and opened: "ds_Open ds s = (Inr n, s1)" "delivers s1 es" "length es < fuel"
    and inv: "loader_inv ht l data" and room: "unat (l_dataEnd l) + chunks_size es < 2 ^ 31"
    and other: "\<forall>kv\<in>set es. HashKeyWithSeed (fst kv) (stored_seed data) \<noteq> h" "claimable ht h (free_slots ht data) data"
  obtains r R where "Loader_Load fuel pkgSeed rng segSize ds l data s = Some r"
    "\<And>cfg. load_run (ds_Next ds) ht pkgSeed (NextEntry s1, l, data) cfg \<Longrightarrow>
      load_inv (ds_Next ds) delivers pkgSeed ht h data R cfg"
    "\<And>fin l' d. load_inv (ds_Next ds) delivers pkgSeed ht h data R (Stopped fin, l', d) \<Longrightarrow>
      lo_end r = fin \<and> lo_loader r = l' \<and> lo_data r = d"
proof -
  have btw: "between ht h data es l data"
    using inv room other(1) undisturbed_refl [OF other(2)] by (simp add: between_def)
  obtain fin c l2 d2 s2 where loop: "Load_loop fuel pkgSeed (ds_Next ds) l data s1 0 = Some (fin, c, l2, d2, s2)"
      "(fin, c, abs_of ht l2 d2) = abs_load (ncap ht) (length data) es 0 (abs_of ht l data)"
    "loader_inv ht l2 d2"
    using data_source.Load_loop_delivers [OF src opened(2) inv room opened(3), of pkgSeed 0] by blast
  have nf: "fin \<noteq> LoadOutOfFuel" using loop(2) abs_load_ends [of "ncap ht" "length data" es 0 "abs_of ht l data"] by (metis fst_conv)
  obtain d3 where "bump_generation d2 = Some d3" using bump_generation_store [OF loop(3)] by blast
  then obtain r where r: "Loader_Load fuel pkgSeed rng segSize ds l data s = Some r"
    "lo_end r = fin" "lo_loader r = l2" "lo_data r = (if fin = Loaded then d3 else d2)" "bump_generation d2 = Some d3"
    using inv by (cases "fin = Loaded") (auto simp: Loader_Load_def opened(1) loop(1) loader_inv_def)
  show ?thesis
  proof (rule that [OF r(1), of "Some (fin, c, l2, d2, s2)"])
    show "load_inv (ds_Next ds) delivers pkgSeed ht h data (Some (fin, c, l2, d2, s2)) cfg"
      if "load_run (ds_Next ds) ht pkgSeed (NextEntry s1, l, data) cfg" for cfg
      using data_source.load_run_inv [OF src opened(2) btw loop(1) _ that] nf by blast
  qed (use r(2-5) in \<open>auto split: if_splits\<close>)
qed

lemma load_run_stops:
  assumes wf: "wf {(c', c). load_step nxt ht pkgSeed c c'}"
    and more: "\<And>st l d. load_run nxt ht pkgSeed c0 (st, l, d) \<Longrightarrow> \<nexists>fin. st = Stopped fin \<Longrightarrow>
      \<exists>c'. load_step nxt ht pkgSeed (st, l, d) c'"
  shows "load_run nxt ht pkgSeed c0 c \<Longrightarrow> \<exists>fin l d. load_run nxt ht pkgSeed c (Stopped fin, l, d)"
  using wf
proof (induction c rule: wf_induct_rule)
  case (less c)
  obtain st l d where c: "c = (st, l, d)" by (cases c)
  show ?case
  proof (cases "\<exists>fin. st = Stopped fin")
    case True
    then show ?thesis unfolding c using load_run.start by blast
  next
    case False
    then obtain c' where c': "load_step nxt ht pkgSeed c c'" using more [of st l d] less.prems c by blast
    then obtain fin l d where "load_run nxt ht pkgSeed c' (Stopped fin, l, d)"
      using less.IH [of c'] load_run.step [OF less.prems] by auto
    from load_run_trans [OF this load_run.step [OF load_run.start c']] show ?thesis by blast
  qed
qed

lemma spare_claimable:
  assumes inv: "loader_inv ht l data" and small: "length es < 2 ^ 31"
  obtains h where "\<forall>kv\<in>set es. HashKeyWithSeed (fst kv) (stored_seed data) \<noteq> h" "claimable ht h (free_slots ht data) data"
proof -
  let ?A = "(\<lambda>kv. HashKeyWithSeed (fst kv) (stored_seed data)) ` set es" and ?B = "(\<lambda>i. Hash (slot_at ht data i)) ` {..<ncap ht}"
  have st: "store_inv ht (unat (l_dataEnd l)) data" using inv by (simp add: loader_inv_def)
  have "slot_off ht (ncap ht - 1) + 24 \<le> data_base ht"
    using slot_off_bound [OF store_invD(2) [OF st]] ncap_pos [OF store_invD(2) [OF st]] by simp
  then have "ncap ht < 2 ^ 31" using store_invD(6,7) [OF st] by (simp add: slot_off_def)
  moreover have "card ?A \<le> length es" by (meson card_image_le card_length finite_set le_trans)
  moreover have "card ?B \<le> ncap ht" using card_image_le [of "{..<ncap ht}"] by simp
  ultimately have "card (?A \<union> ?B) < 2 ^ 64" using small card_Un_le [of ?A ?B] by simp
  then obtain h where "h \<notin> ?A \<union> ?B" using spare_hash by blast
  then show ?thesis using that [of h] by (auto simp: claimable_def free_slots_def)
qed

text \<open>
  C20. Alone, the machine is \<open>Load\<close>, into a segment below 2 GB that \<open>Init\<close> has
  laid out, for a source that delivers a list of entries whose chunks, put behind what is there, end
  below \<open>2^31\<close>: it cannot make stores for ever, it is never stuck before it stops, and from
  every point on the way it stops with the loader, the memory and the outcome that
  \<open>Loader_Load\<close> computes.
\<close>

theorem load_machine_is_Load:
  assumes src: "data_source (ds_Next ds) pending delivers"
    and opened: "ds_Open ds s = (Inr n, s1)" "delivers s1 es" "length es < fuel"
    and inv: "loader_inv ht l data" and room: "unat (l_dataEnd l) + chunks_size es < 2 ^ 31"
  shows "wf {(c', c). load_step (ds_Next ds) ht pkgSeed c c'} \<and>
    (\<exists>r. Loader_Load fuel pkgSeed rng segSize ds l data s = Some r \<and>
      (\<forall>c. load_run (ds_Next ds) ht pkgSeed (NextEntry s1, l, data) c \<longrightarrow>
        load_run (ds_Next ds) ht pkgSeed c (Stopped (lo_end r), lo_loader r, lo_data r)))"
proof -
  let ?c0 = "(NextEntry s1, l, data)" and ?run = "load_run (ds_Next ds) ht pkgSeed"
  note fin = data_source.axioms(1) [OF src]
  note wf = finite_source.load_step_wf [OF fin, of ht pkgSeed]
  have "length es < 2 ^ 31" using room length_chunks_size [of es] by linarith
  from spare_claimable [OF inv this] obtain h where h: "\<forall>kv\<in>set es. HashKeyWithSeed (fst kv) (stored_seed data) \<noteq> h"
      "claimable ht h (free_slots ht data) data" by blast
  obtain r R where r: "Loader_Load fuel pkgSeed rng segSize ds l data s = Some r"
      and run: "\<And>cfg. ?run ?c0 cfg \<Longrightarrow> load_inv (ds_Next ds) delivers pkgSeed ht h data R cfg"
      and stopped: "\<And>fin l' d. load_inv (ds_Next ds) delivers pkgSeed ht h data R (Stopped fin, l', d) \<Longrightarrow>
        lo_end r = fin \<and> lo_loader r = l' \<and> lo_data r = d"
    using load_machine_inv [OF src opened inv room h, of pkgSeed rng segSize] by metis
  have more: "\<exists>c'. load_step (ds_Next ds) ht pkgSeed (st, l, d) c'"
    if "?run ?c0 (st, l, d)" "\<nexists>fin. st = Stopped fin" for st l d
    by (rule data_source.load_step_exists [OF src run [OF that(1)] that(2)])
  have "?run c (Stopped (lo_end r), lo_loader r, lo_data r)" if c: "?run ?c0 c" for c
  proof -
    obtain fin l' d where s: "?run c (Stopped fin, l', d)" using load_run_stops [OF wf more c] by blast
    then show ?thesis using stopped [OF run [OF load_run_trans [OF s c]]] by simp
  qed
  then show ?thesis using wf r by blast
qed

section \<open>A lookup during a load\<close>

inductive concurrent_load ::
  "('s \<Rightarrow> (next_result \<times> 's) option) \<Rightarrow> hash_table \<Rightarrow> u64 \<Rightarrow> u64 \<Rightarrow> bytes \<Rightarrow>
    's load_state \<times> loader \<times> bytes \<Rightarrow> 's load_state \<times> loader \<times> bytes \<Rightarrow> get_state \<Rightarrow> bool"
  for nxt ht pkgSeed h key c0 where
  begin_get: "load_run nxt ht pkgSeed c0 c \<Longrightarrow> concurrent_load nxt ht pkgSeed h key c0 c (get_start ht h)"
| store: "concurrent_load nxt ht pkgSeed h key c0 c g \<Longrightarrow> load_step nxt ht pkgSeed c c' \<Longrightarrow>
    concurrent_load nxt ht pkgSeed h key c0 c' g"
| load: "concurrent_load nxt ht pkgSeed h key c0 (st, l, d) g \<Longrightarrow> get_step ht h key d g = Some g' \<Longrightarrow>
    concurrent_load nxt ht pkgSeed h key c0 (st, l, d) g'"

lemma concurrent_load_run:
  "concurrent_load nxt ht pkgSeed h key c0 c g \<Longrightarrow> load_run nxt ht pkgSeed c0 c"
  by (induction rule: concurrent_load.induct) (auto intro: load_run.step)

lemma load_inv_undisturbed:
  assumes "load_inv nxt delivers pkgSeed ht h data R (st, l, d)"
  shows "undisturbed ht h (free_slots ht data) data d"
proof (cases st)
  case (WritingChunk s k v q bs)
  then obtain es l0 d0 ws where w: "amid nxt pkgSeed ht h data R es k v s l0 d0 l"
      "chunk k v = ws @ bs" "d = wr (unat (l_dataEnd l0)) ws d0"
    using assms by auto
  have "undisturbed ht h (free_slots ht data) data d0" "unat (l_dataEnd l0) + length (ws @ bs) \<le> length d0"
    using w(1) unfolding amid_def between_def w(2) by blast+
  then show ?thesis using undisturbed_write [OF _ amidD(1) [OF w(1)], where ys = ws] by (simp add: w(3))
next
  case (FillingSlot s a ph)
  then obtain es l0 d0 k v j where w: "amid nxt pkgSeed ht h data R es k v s l0 d0 l"
      "a = insert_args_for ht j (HashKeyWithSeed k (stored_seed data)) (unat (l_dataEnd l0)) v"
      "inserting a (wr (unat (l_dataEnd l0)) (chunk k v) d0)"
      "insert_run a (wr (unat (l_dataEnd l0)) (chunk k v) d0) (ph, d)"
    using assms by auto
  show ?thesis by (rule filling_undisturbed [OF w(1) w(3,4) [unfolded w(2)]])
qed (use assms in \<open>auto simp: between_def\<close>)

lemma concurrent_load_watching:
  assumes W: "claimable ht h (free_slots ht data) data"
    and inv: "\<And>c. load_run nxt ht pkgSeed c0 c \<Longrightarrow> load_inv nxt delivers pkgSeed ht h data R c"
    and run: "concurrent_load nxt ht pkgSeed h key c0 c g"
  shows "watching ht h key (free_slots ht data) data (snd (snd c)) g"
proof -
  have u: "undisturbed ht h (free_slots ht data) data (snd (snd c))" if "load_run nxt ht pkgSeed c0 c" for c
    using load_inv_undisturbed [of nxt delivers pkgSeed ht h data R "fst c" "fst (snd c)" "snd (snd c)"] inv [OF that] by simp
  from run show ?thesis
  proof (induction rule: concurrent_load.induct)
    case (begin_get c)
    then show ?case by (intro watching.begin_get u)
  next
    case (store c g c')
    then show ?case by (intro watching.change [OF store.IH] u load_run.step [OF concurrent_load_run])
  next
    case (load st l d g g')
    then show ?case by (auto intro: watching.load)
  qed
qed

text \<open>
  C6. Reading during a load: while \<open>Load\<close> adds entries, whose chunks end below
  \<open>2^31\<close>, to a table that is laid out in a segment below 2 GB, let a lookup run in another
  process, its loads interleaved in any way with the stores of the loader. For a key whose hash is not
  that of an entry being loaded, nor one that a free slot still shows, the lookup never faults and every
  one of its steps brings its return nearer; it returns the value that was stored before the load, or a
  miss. When the loader stops it has done what \<open>Loader_Load\<close> does.
\<close>

theorem reading_during_load:
  assumes src: "data_source (ds_Next ds) pending delivers"
    and opened: "ds_Open ds s = (Inr n, s1)" "delivers s1 es" "length es < fuel"
    and inv: "loader_inv ht l data" and room: "unat (l_dataEnd l) + chunks_size es < 2 ^ 31"
    and other: "\<forall>kv\<in>set es. HashKeyWithSeed (fst kv) (stored_seed data) \<noteq> HashKeyWithSeed key (stored_seed data)"
      "\<forall>i<ncap ht. slot_free ht data i \<longrightarrow> Hash (slot_at ht data i) \<noteq> HashKeyWithSeed key (stored_seed data)"
    and run: "concurrent_load (ds_Next ds) ht pkgSeed (HashKeyWithSeed key (stored_seed data)) key
      (NextEntry s1, l, data) (st, l', d) g"
  shows "(\<forall>r. g = Returned r \<longrightarrow> r = (stored ht data key, stored ht data key \<noteq> None)) \<and>
    (\<exists>g'. get_step ht (HashKeyWithSeed key (stored_seed data)) key d g = Some g' \<and>
      (loads_left g \<noteq> 0 \<longrightarrow> loads_left g' < loads_left g)) \<and>
    (\<forall>fin. st = Stopped fin \<longrightarrow> (\<exists>r. Loader_Load fuel pkgSeed rng segSize ds l data s = Some r \<and>
      lo_end r = fin \<and> lo_loader r = l' \<and> lo_data r = d))"
proof -
  let ?h = "HashKeyWithSeed key (stored_seed data)" and ?c0 = "(NextEntry s1, l, data)"
  have st: "store_inv ht (unat (l_dataEnd l)) data" using inv by (simp add: loader_inv_def)
  have W: "claimable ht ?h (free_slots ht data) data" using other(2) by (auto simp: claimable_def free_slots_def)
  obtain r R where r: "Loader_Load fuel pkgSeed rng segSize ds l data s = Some r"
      and linv: "\<And>cfg. load_run (ds_Next ds) ht pkgSeed ?c0 cfg \<Longrightarrow> load_inv (ds_Next ds) delivers pkgSeed ht ?h data R cfg"
      and stopped: "\<And>fin l' d. load_inv (ds_Next ds) delivers pkgSeed ht ?h data R (Stopped fin, l', d) \<Longrightarrow>
        lo_end r = fin \<and> lo_loader r = l' \<and> lo_data r = d"
    using load_machine_inv [OF src opened inv room other(1) W, of pkgSeed rng segSize] by metis
  have w: "watching ht ?h key (free_slots ht data) data d g"
    using concurrent_load_watching [OF W linv run] by simp
  note got = watching_Get [OF store_invD(1) [OF st] W w]
  have "r = (stored ht data key, stored ht data key \<noteq> None)" if "g = Returned r" for r
    using got(1) [OF that] Get_stored [OF st, of key] by simp
  moreover have "lo_end r = fin \<and> lo_loader r = l' \<and> lo_data r = d" if "st = Stopped fin" for fin
    using stopped linv [OF concurrent_load_run [OF run]] that by blast
  ultimately show ?thesis using got(2) r by blast
qed

section \<open>An example\<close>

lemma seg_fresh: "stored_seed demo_seg_data = 1" "i < ncap seg_ht \<Longrightarrow> Hash (slot_at seg_ht demo_seg_data i) = 0"
proof -
  have L: "64 + 24 * 2 ^ 1 \<le> length (replicate 200 0 :: bytes)" "length (replicate 200 0 :: bytes) < 2 ^ 31"
      "(1 :: u64) \<noteq> 0" by simp_all
  note f = fresh_store [OF L, folded seg_ht_def demo_seg_data_def]
  show "stored_seed demo_seg_data = 1" by (rule f(8))
  show "i < ncap seg_ht \<Longrightarrow> Hash (slot_at seg_ht demo_seg_data i) = 0" using f(9) by (simp add: seg_facts(3))
qed

lemma seg_source:
  defines "s \<equiv> NewMapDataSource [([9], [5])]"
  shows "data_source (ds_Next map_data_source) map_pending map_delivers"
    "ds_Open map_data_source s = (Inr 1, s)" "map_delivers s [([9], [5])]"
    "unat (l_dataEnd seg_loader) + chunks_size [([9], [5])] < 2 ^ 31" "ds_Next map_data_source = Map_Next"
proof -
  show "data_source (ds_Next map_data_source) map_pending map_delivers"
    unfolding map_data_source_def source.simps by (rule map_src.data_source_axioms)
  show "map_delivers s [([9], [5])]" unfolding s_def by (rule map_delivers_New) simp
qed (simp_all add: s_def map_data_source_def Map_Open_def NewMapDataSource_def seg_loader_def)

theorem load_machine_is_Load_witness:
  "\<exists>r. Loader_Load 2 77 (sconst None) 200 map_data_source seg_loader demo_seg_data (NewMapDataSource [([9], [5])]) = Some r \<and>
    load_run Map_Next seg_ht 77 (NextEntry (NewMapDataSource [([9], [5])]), seg_loader, demo_seg_data)
      (Stopped (lo_end r), lo_loader r, lo_data r)"
  using load_machine_is_Load [OF seg_source(1-3) _ seg_facts(1) seg_source(4), of 2 77 "sconst None" 200, unfolded seg_source(5)]
    load_run.start [of Map_Next seg_ht 77] by fastforce

theorem reading_during_load_witness:
  "\<exists>st l d g'. concurrent_load Map_Next seg_ht 77 (HashKeyWithSeed [8] 1) [8]
      (NextEntry (NewMapDataSource [([9], [5])]), seg_loader, demo_seg_data) (st, l, d)
      (get_start seg_ht (HashKeyWithSeed [8] 1)) \<and> l_dataEnd l = 118 \<and>
    get_step seg_ht (HashKeyWithSeed [8] 1) [8] d (get_start seg_ht (HashKeyWithSeed [8] 1)) = Some g' \<and>
    loads_left g' < loads_left (get_start seg_ht (HashKeyWithSeed [8] 1))"
proof -
  let ?s = "NewMapDataSource [([9], [5])]" and ?h = "HashKeyWithSeed [8] 1"
  have hash: "HashKeyWithSeed [9] 1 \<noteq> ?h" "?h \<noteq> 0" by (simp_all add: hash_single_byte [of "[]" _ "[]", simplified]) code_simp
  obtain s' where s': "Map_Next ?s = Some (Inr ([9], [5]), s')" by (simp add: Map_Next_def NewMapDataSource_def index_def)
  have "load_step Map_Next seg_ht 77 (NextEntry ?s, seg_loader, demo_seg_data)
      (WritingChunk s' [9] [5] 112 (chunk [9] [5]), seg_loader\<lparr>l_dataEnd := 118\<rparr>, demo_seg_data)"
    using s' seg_facts(2) by (simp add: load_step_simps seg_loader_def)
  from load_run.step [OF load_run.start this]
  have run: "concurrent_load Map_Next seg_ht 77 ?h [8] (NextEntry ?s, seg_loader, demo_seg_data)
      (WritingChunk s' [9] [5] 112 (chunk [9] [5]), seg_loader\<lparr>l_dataEnd := 118\<rparr>, demo_seg_data) (get_start seg_ht ?h)"
    by (rule concurrent_load.begin_get)
  have "loads_left (get_start seg_ht ?h) \<noteq> 0" by (simp add: get_start_def)
  then obtain g' where "get_step seg_ht ?h [8] demo_seg_data (get_start seg_ht ?h) = Some g'"
      "loads_left g' < loads_left (get_start seg_ht ?h)"
    using reading_during_load [OF seg_source(1-3) _ seg_facts(1) seg_source(4), of 2 "[8]" 77, unfolded seg_fresh(1) seg_source(5), OF _ _ _ run]
      hash seg_fresh(2) by auto
  then show ?thesis using run by (intro exI [of _ "seg_loader\<lparr>l_dataEnd := 118\<rparr>"] exI conjI) simp_all
qed

end
