(* ===== verification/Concurrent_Insert.thy ===== *)
theory Concurrent_Insert
  imports Concurrent_Get
begin

text \<open>
  Several insertions at once. \<open>HashTable.Insert\<close> claims its slot by compare-and-swap, so that it can
  run in several threads of the loader; the machine \<open>writer_step\<close> is \<open>Insert\<close> access by access, its failed
  swaps included. Any number of them race over one table, in any interleaving: none of them panics,
  no two claim the same slot, and when all have returned the table holds the entries of all that
  returned true.
\<close>

section \<open>The accesses of an insertion\<close>

datatype writer =
    Searching nat int          \<comment> \<open>rounds left, and the slot to look at\<close>
  | Comparing nat int u32      \<comment> \<open>the status is loaded, the swap comes next\<close>
  | StoringHash int
  | StoringOffset int
  | StoringVLen int
  | Finished "int option"      \<comment> \<open>the slot that was filled; \<open>None\<close> is the result false\<close>

type_synonym entry = "u64 \<times> u32 \<times> u32"   \<comment> \<open>hash, offset and value length\<close>

fun writer_step :: "hash_table \<Rightarrow> entry \<Rightarrow> writer \<times> bytes \<Rightarrow> (writer \<times> bytes) option" where
  "writer_step ht e (Searching 0 idx, data) = Some (Finished None, data)"
| "writer_step ht e (Searching (Suc n) idx, data) =
    do { status \<leftarrow> atomic_load_u32 data (slotBase ht + idx * SlotSize + 16);
         Some (if status = SlotEmpty \<or> status = SlotTomb then Comparing n idx status
               else Searching n (next_index ht idx), data) }"
| "writer_step ht e (Comparing n idx status, data) =
    do { (claimed, data) \<leftarrow> atomic_cas_u32 data (slotBase ht + idx * SlotSize + 16) status SlotUsed;
         Some (if claimed then StoringHash idx else Searching n (next_index ht idx), data) }"
| "writer_step ht e (StoringHash idx, data) =
    do { data \<leftarrow> put_u64 data (slotBase ht + idx * SlotSize) (fst e); Some (StoringOffset idx, data) }"
| "writer_step ht e (StoringOffset idx, data) =
    do { data \<leftarrow> put_u32 data (slotBase ht + idx * SlotSize + 8) (fst (snd e)); Some (StoringVLen idx, data) }"
| "writer_step ht e (StoringVLen idx, data) =
    do { data \<leftarrow> put_u32 data (slotBase ht + idx * SlotSize + 12) (snd (snd e)); Some (Finished (Some idx), data) }"
| "writer_step ht e (Finished r, data) = Some (Finished r, data)"

definition writer_start :: "hash_table \<Rightarrow> u64 \<Rightarrow> writer" where
  "writer_start ht h = Searching (nat (capacity ht)) (home_index ht h)"

primrec writer_steps :: "nat \<Rightarrow> hash_table \<Rightarrow> entry \<Rightarrow> writer \<times> bytes \<Rightarrow> (writer \<times> bytes) option" where
  "writer_steps 0 ht e c = Some c"
| "writer_steps (Suc k) ht e c = do { c \<leftarrow> writer_step ht e c; writer_steps k ht e c }"

fun steps_left :: "writer \<Rightarrow> nat" where
  "steps_left (Searching n idx) = 2 * n + 4"
| "steps_left (Comparing n idx status) = 2 * n + 5"
| "steps_left (StoringHash idx) = 3"
| "steps_left (StoringOffset idx) = 2"
| "steps_left (StoringVLen idx) = 1"
| "steps_left (Finished r) = 0"

fun outcome :: "writer \<Rightarrow> bool option" where
  "outcome (Finished r) = Some (r \<noteq> None)"
| "outcome _ = None"

lemma writer_steps_Finished: "writer_steps k ht e (Finished r, data) = Some (Finished r, data)"
  by (induction k) simp_all

lemma writer_step_decreases:
  "writer_step ht e (w, data) = Some (w', data') \<Longrightarrow> steps_left w \<noteq> 0 \<Longrightarrow> steps_left w' < steps_left w"
  by (cases "(ht, e, w, data)" rule: writer_step.cases) (auto simp: bind_eq_Some_conv split: if_splits)

lemma writer_steps_Suc: "writer_steps (Suc k) ht e c = do { c \<leftarrow> writer_steps k ht e c; writer_step ht e c }"
proof (induction k arbitrary: c)
  case (Suc k)
  show ?case
    unfolding writer_steps.simps(2) [of "Suc k"] writer_steps.simps(2) [of k ht e c]
    by (cases "writer_step ht e c") (simp_all only: Option.bind.simps Suc.IH)
qed (simp split: bind_splits)

text \<open>Once there is an outcome, more steps change nothing.\<close>

lemma writer_steps_idle:
  assumes "map_option (map_prod outcome id) (writer_steps k ht e c) = map_option (map_prod Some id) r"
  shows "map_option (map_prod outcome id) (writer_steps (Suc k) ht e c) = map_option (map_prod Some id) r"
proof (cases "writer_steps k ht e c")
  case None
  then show ?thesis using assms by (simp add: writer_steps_Suc del: writer_steps.simps)
next
  case (Some wd)
  obtain w d where wd: "wd = (w, d)" by (cases wd)
  obtain x where "w = Finished x" using assms Some by (cases w; cases r) (auto simp: wd)
  then show ?thesis using assms Some by (simp add: writer_steps_Suc wd del: writer_steps.simps)
qed

lemma writer_steps_loop:
  "map_option (map_prod outcome id) (writer_steps (2 * n + 4) ht (h, ofs, vl) (Searching n idx, data)) =
    map_option (map_prod Some id) (Insert_loop n ht data h ofs vl idx)"
proof (induction n arbitrary: idx data)
  case 0
  then show ?case by (simp add: writer_steps_Finished eval_nat_numeral)
next
  case (Suc n)
  have k: "2 * Suc n + 4 = Suc (Suc (2 * n + 4))" by simp
  let ?ofs = "slotBase ht + idx * SlotSize"
  show ?case
  proof (cases "atomic_load_u32 data (?ofs + 16)")
    case None
    then show ?thesis unfolding k writer_steps.simps(2) [of "Suc (2 * n + 4)"] by simp
  next
    case (Some status)
    show ?thesis
    proof (cases "status = SlotEmpty \<or> status = SlotTomb")
      case True
      have cas: "atomic_cas_u32 data (?ofs + 16) status SlotUsed = map_option (Pair True) (put_u32 data (?ofs + 16) SlotUsed)"
        using Some by (simp add: atomic_cas_u32_def atomic_load_u32_def split: bind_splits)
      have k5: "2 * Suc n + 4 = Suc (Suc (Suc (Suc (Suc (2 * n + 1)))))" by simp
      show ?thesis unfolding k5 using True Some cas
        by (simp add: writer_steps_Finished Let_def split: bind_splits del: SlotEmpty_def SlotTomb_def SlotUsed_def)
    next
      case False
      then show ?thesis unfolding k writer_steps.simps(2) [of "Suc (2 * n + 4)"] using Some writer_steps_idle [OF Suc.IH [of "next_index ht idx" data]]
        by (simp add: Let_def id_def del: SlotEmpty_def SlotTomb_def SlotUsed_def)
    qed
  qed
qed

text \<open>
  The machine of accesses is \<open>Insert\<close>: run alone on any memory, well-formed or not, it ends after at
  most two steps for each slot and four more, with the result and the memory of \<open>HashTable_Insert\<close>, in a
  panic exactly where that panics.
\<close>

lemma writer_machine_is_Insert:
  "map_option (map_prod outcome id)
      (writer_steps (2 * nat (capacity ht) + 4) ht (h, ofs, vl) (writer_start ht h, data)) =
    map_option (map_prod Some id) (HashTable_Insert ht data h key ofs vl)"
  unfolding writer_start_def HashTable_Insert_def by (rule writer_steps_loop)

section \<open>Stores into one slot\<close>

definition updates_slot :: "hash_table \<Rightarrow> nat \<Rightarrow> hash_slot \<Rightarrow> bytes \<Rightarrow> bytes \<Rightarrow> bool" where
  \<comment> \<open>from \<open>d\<close> to \<open>d'\<close>, slot \<open>j\<close> becomes \<open>slot\<close> and nothing else changes\<close>
  "updates_slot ht j slot d d' \<longleftrightarrow> length d' = length d \<and>
    (\<forall>i<ncap ht. slot_at ht d' i = (if i = j then slot else slot_at ht d i)) \<and>
    take (nat (slotBase ht)) d' = take (nat (slotBase ht)) d \<and> drop (data_base ht) d' = drop (data_base ht) d"

lemma slot_store:
  assumes wf: "ht_wf ht d" and j: "j < ncap ht" and q: "slot_off ht j \<le> q" "q + length ys \<le> slot_off ht j + 24"
  shows "updates_slot ht j (slot_at ht (wr q ys d) j) d (wr q ys d)"
proof -
  have len: "q + length ys \<le> length d" using slot_off_in [OF wf j] q(2) by linarith
  have out: "rd p n (wr q ys d) = rd p n d" if "p + n \<le> slot_off ht j \<or> slot_off ht j + 24 \<le> p" for p n
    using that q len by (intro rd_wr_disjoint) auto
  have "slot_at ht (wr q ys d) i = slot_at ht d i" if "i < ncap ht" "i \<noteq> j" for i
    using slots_apart [OF that(2), of ht] slot_off_in [OF wf that(1)] len by (intro slot_at_cong out) auto
  moreover have "take (nat (slotBase ht)) (wr q ys d) = take (nat (slotBase ht)) d"
    unfolding take_eq_rd by (rule out) (simp add: slot_off_def)
  moreover have "drop (data_base ht) (wr q ys d) = drop (data_base ht) d"
    using len slot_off_bound [OF wf j] by (simp add: drop_eq_rd out)
  ultimately show ?thesis using len by (auto simp: updates_slot_def)
qed

lemma slot_fields:
  assumes "ht_wf ht d" "j < ncap ht"
  shows "slot_at ht (wr (slot_off ht j + 16) (le_bytes 4 s) d) j = (slot_at ht d j)\<lparr>Status := s\<rparr>"
    "slot_at ht (wr (slot_off ht j) (le_bytes 8 h) d) j = (slot_at ht d j)\<lparr>Hash := h\<rparr>"
    "slot_at ht (wr (slot_off ht j + 8) (le_bytes 4 ofs) d) j = (slot_at ht d j)\<lparr>Offset := ofs\<rparr>"
    "slot_at ht (wr (slot_off ht j + 12) (le_bytes 4 vl) d) j = (slot_at ht d j)\<lparr>VLen := vl\<rparr>"
  using slot_off_in [OF assms] by (simp_all add: slot_at_def frame_simps)

lemma writer_store:
  assumes wf: "ht_wf ht d" and j: "j < ncap ht"
  shows "\<exists>d'. writer_step ht (h, ofs, vl) (StoringHash (int j), d) = Some (StoringOffset (int j), d') \<and>
      updates_slot ht j ((slot_at ht d j)\<lparr>Hash := h\<rparr>) d d'"
    and "\<exists>d'. writer_step ht (h, ofs, vl) (StoringOffset (int j), d) = Some (StoringVLen (int j), d') \<and>
      updates_slot ht j ((slot_at ht d j)\<lparr>Offset := ofs\<rparr>) d d'"
    and "\<exists>d'. writer_step ht (h, ofs, vl) (StoringVLen (int j), d) = Some (Finished (Some (int j)), d') \<and>
      updates_slot ht j ((slot_at ht d j)\<lparr>VLen := vl\<rparr>) d d'"
    and "\<exists>d'. atomic_cas_u32 d (slotBase ht + int j * SlotSize + 16) (Status (slot_at ht d j)) SlotUsed = Some (True, d') \<and>
      updates_slot ht j ((slot_at ht d j)\<lparr>Status := SlotUsed\<rparr>) d d'"
    and "status \<noteq> Status (slot_at ht d j) \<Longrightarrow>
      atomic_cas_u32 d (slotBase ht + int j * SlotSize + 16) status SlotUsed = Some (False, d)"
proof -
  define off where "off = slot_off ht j"
  have a: "slotBase ht + int j * 24 = int off" "off + 24 \<le> length d"
    using slot_off_int [OF wf, of j] slot_off_in [OF wf j] by (simp_all add: off_def)
  have p: "put_u32 d (int off + int k) x = Some (wr (off + k) (le_bytes 4 x) d)"
    "get_u32 d (int off + int k) = Some (u32_at d (off + k))" if "k \<le> 20" for k x
    using put_u32_at [of "off + k" d x] get_u32_at [of "off + k" d] that a(2) by simp_all
  note st = slot_store [OF wf j, folded off_def] and fl = slot_fields [OF wf j, folded off_def]
  have cas: "atomic_cas_u32 d (slotBase ht + int j * SlotSize + 16) status SlotUsed =
      (if Status (slot_at ht d j) = status then Some (True, wr (off + 16) (le_bytes 4 SlotUsed) d) else Some (False, d))" for status
    using p [of 16] by (simp add: a atomic_cas_u32_def slot_at_def off_def [symmetric] del: SlotUsed_def)
  show "\<exists>d'. writer_step ht (h, ofs, vl) (StoringHash (int j), d) = Some (StoringOffset (int j), d') \<and>
      updates_slot ht j ((slot_at ht d j)\<lparr>Hash := h\<rparr>) d d'"
    using st [of off "le_bytes 8 h"] fl(2) [of h] put_u64_at [of off d h] a by simp
  show "\<exists>d'. writer_step ht (h, ofs, vl) (StoringOffset (int j), d) = Some (StoringVLen (int j), d') \<and>
      updates_slot ht j ((slot_at ht d j)\<lparr>Offset := ofs\<rparr>) d d'"
    using st [of "off + 8" "le_bytes 4 ofs"] fl(3) [of ofs] p(1) [of 8] a by simp
  show "\<exists>d'. writer_step ht (h, ofs, vl) (StoringVLen (int j), d) = Some (Finished (Some (int j)), d') \<and>
      updates_slot ht j ((slot_at ht d j)\<lparr>VLen := vl\<rparr>) d d'"
    using st [of "off + 12" "le_bytes 4 vl"] fl(4) [of vl] p(1) [of 12] a by simp
  show "\<exists>d'. atomic_cas_u32 d (slotBase ht + int j * SlotSize + 16) (Status (slot_at ht d j)) SlotUsed = Some (True, d') \<and>
      updates_slot ht j ((slot_at ht d j)\<lparr>Status := SlotUsed\<rparr>) d d'"
    using st [of "off + 16" "le_bytes 4 SlotUsed"] fl(1) [of SlotUsed] unfolding cas by simp
  show "status \<noteq> Status (slot_at ht d j) \<Longrightarrow>
      atomic_cas_u32 d (slotBase ht + int j * SlotSize + 16) status SlotUsed = Some (False, d)"
    unfolding cas by simp
qed

section \<open>One writer among others\<close>

text \<open>
  What a writer for hash \<open>h\<close> knows of the memory, whatever the others do: the first \<open>m\<close> positions from its
  home are taken, for good. \<open>holds\<close> is the slot it has claimed, \<open>written\<close> what it has made of it.
\<close>

definition passed :: "hash_table \<Rightarrow> u64 \<Rightarrow> bytes \<Rightarrow> nat \<Rightarrow> bool" where
  "passed ht h d m \<longleftrightarrow> m \<le> ncap ht \<and> (\<forall>i<ncap ht. dist (ncap ht) (home ht h) i < m \<longrightarrow> \<not> slot_free ht d i)"

fun writer_inv :: "hash_table \<Rightarrow> u64 \<Rightarrow> bytes \<Rightarrow> writer \<Rightarrow> bool" where
  "writer_inv ht h d (Searching n idx) \<longleftrightarrow>
    (\<exists>m. m + n = ncap ht \<and> idx = int ((home ht h + m) mod ncap ht) \<and> passed ht h d m)"
| "writer_inv ht h d (Comparing n idx status) \<longleftrightarrow> status \<in> {SlotEmpty, SlotTomb} \<and>
    (\<exists>m. m + Suc n = ncap ht \<and> idx = int ((home ht h + m) mod ncap ht) \<and> passed ht h d m \<and>
      (slot_free ht d ((home ht h + m) mod ncap ht) \<longrightarrow> Status (slot_at ht d ((home ht h + m) mod ncap ht)) = status))"
| "writer_inv ht h d (StoringHash idx) \<longleftrightarrow> (\<exists>j<ncap ht. idx = int j \<and> passed ht h d (dist (ncap ht) (home ht h) j))"
| "writer_inv ht h d (StoringOffset idx) \<longleftrightarrow> (\<exists>j<ncap ht. idx = int j \<and> passed ht h d (dist (ncap ht) (home ht h) j))"
| "writer_inv ht h d (StoringVLen idx) \<longleftrightarrow> (\<exists>j<ncap ht. idx = int j \<and> passed ht h d (dist (ncap ht) (home ht h) j))"
| "writer_inv ht h d (Finished (Some idx)) \<longleftrightarrow> (\<exists>j<ncap ht. idx = int j \<and> passed ht h d (dist (ncap ht) (home ht h) j))"
| "writer_inv ht h d (Finished None) \<longleftrightarrow> passed ht h d (ncap ht)"

fun holds :: "writer \<Rightarrow> int option" where
  "holds (StoringHash idx) = Some idx"
| "holds (StoringOffset idx) = Some idx"
| "holds (StoringVLen idx) = Some idx"
| "holds (Finished r) = r"
| "holds _ = None"

fun written :: "entry \<Rightarrow> writer \<Rightarrow> hash_slot \<Rightarrow> hash_slot" where
  "written e (StoringHash idx) old = old\<lparr>Status := SlotUsed\<rparr>"
| "written e (StoringOffset idx) old = old\<lparr>Hash := fst e, Status := SlotUsed\<rparr>"
| "written e (StoringVLen idx) old = old\<lparr>Hash := fst e, Offset := fst (snd e), Status := SlotUsed\<rparr>"
| "written e (Finished (Some idx)) old =
    \<lparr>Hash = fst e, Offset = fst (snd e), VLen = snd (snd e), Status = SlotUsed\<rparr>"
| "written e _ old = old"

lemma writer_inv_holds:
  "writer_inv ht h d w \<Longrightarrow> holds w = Some idx \<Longrightarrow>
    \<exists>j<ncap ht. idx = int j \<and> passed ht h d (dist (ncap ht) (home ht h) j)"
  by (cases w rule: holds.cases) auto

lemma passed_mono:
  "passed ht h d m \<Longrightarrow> (\<And>i. i < ncap ht \<Longrightarrow> slot_free ht d' i \<Longrightarrow> slot_free ht d i) \<Longrightarrow> passed ht h d' m"
  by (auto simp: passed_def)

lemma writer_inv_mono:
  assumes wf: "ht_wf ht d" and inv: "writer_inv ht h d w"
    and free: "\<And>i. i < ncap ht \<Longrightarrow> slot_free ht d' i \<Longrightarrow> slot_free ht d i \<and> slot_at ht d' i = slot_at ht d i"
  shows "writer_inv ht h d' w"
proof -
  have m: "passed ht h d m \<Longrightarrow> passed ht h d' m" for m using passed_mono [of ht h d m d'] free by blast
  have j: "(home ht h + m) mod ncap ht < ncap ht" for m using ncap_pos [OF wf] by simp
  show ?thesis using inv m free [OF j] by (cases "(ht, h, d, w)" rule: writer_inv.cases) auto
qed

lemma passed_next:
  assumes wf: "ht_wf ht d" and m: "passed ht h d m" "m < ncap ht"
    and no: "\<not> slot_free ht d ((home ht h + m) mod ncap ht)"
  shows "passed ht h d (Suc m)"
proof -
  have "i = (home ht h + m) mod ncap ht" if "i < ncap ht" "dist (ncap ht) (home ht h) i = m" for i
    using at_dist [OF home_less [OF wf, of h] that(1)] that(2) by simp
  then show ?thesis using m no by (auto simp: passed_def less_Suc_eq)
qed

lemma writer_start_inv: "ht_wf ht d \<Longrightarrow> writer_inv ht h d (writer_start ht h)"
  by (auto simp: writer_start_def passed_def ncap_def [symmetric] home_index_int)

lemma searching_next:
  assumes wf: "ht_wf ht d" and m: "m + Suc n = ncap ht" "passed ht h d m"
    and no: "\<not> slot_free ht d ((home ht h + m) mod ncap ht)"
  shows "writer_inv ht h d (Searching n (next_index ht (int ((home ht h + m) mod ncap ht))))"
  using passed_next [OF wf m(2) _ no] m(1)
  by (auto simp: next_index_int [OF wf] mod_simps intro!: exI [of _ "Suc m"])

text \<open>The three kinds of steps: a search that changes nothing, a claim, and a store into the claimed slot.\<close>

lemma writer_step_inv:
  assumes wf: "ht_wf ht d" and inv: "writer_inv ht (fst e) d w"
  obtains (search) w' where "writer_step ht e (w, d) = Some (w', d)" "holds w' = holds w" "written e w' = written e w"
      "writer_inv ht (fst e) d w'"
    | (claim) j d' where "writer_step ht e (w, d) = Some (StoringHash (int j), d')" "holds w = None" "j < ncap ht"
      "slot_free ht d j" "passed ht (fst e) d (dist (ncap ht) (home ht (fst e)) j)"
      "updates_slot ht j ((slot_at ht d j)\<lparr>Status := SlotUsed\<rparr>) d d'"
    | (store) j w' slot d' where "writer_step ht e (w, d) = Some (w', d')" "j < ncap ht" "holds w = Some (int j)"
      "holds w' = Some (int j)" "updates_slot ht j slot d d'"
      "\<And>old. slot_at ht d j = written e w old \<Longrightarrow> slot = written e w' old"
      "writer_inv ht (fst e) d w' = writer_inv ht (fst e) d w"
proof (cases w)
  case (Searching k idx)
  show ?thesis
  proof (cases k)
    case 0
    show ?thesis by (rule search [of "Finished None"]) (use inv in \<open>auto simp: Searching 0 fun_eq_iff\<close>)
  next
    case (Suc n)
    then obtain m where m: "m + Suc n = ncap ht" "idx = int ((home ht (fst e) + m) mod ncap ht)" "passed ht (fst e) d m"
      using inv by (auto simp: Searching)
    let ?j = "(home ht (fst e) + m) mod ncap ht"
    have j: "?j < ncap ht" using ncap_pos [OF wf] by simp
    let ?w = "if slot_free ht d ?j then Comparing n idx (Status (slot_at ht d ?j)) else Searching n (next_index ht idx)"
    have step: "writer_step ht e (w, d) = Some (?w, d)"
      using slot_loads(1) [OF wf j] by (simp add: Searching Suc m(2) slot_free_def)
    show ?thesis
      by (rule search [OF step]) (use m searching_next [OF wf m(1,3)] in \<open>auto simp: Searching slot_free_def fun_eq_iff\<close>)
  qed
next
  case (Comparing n idx status)
  then obtain m where m: "m + Suc n = ncap ht" "idx = int ((home ht (fst e) + m) mod ncap ht)" "passed ht (fst e) d m"
      "status \<in> {SlotEmpty, SlotTomb}"
      "slot_free ht d ((home ht (fst e) + m) mod ncap ht) \<longrightarrow> Status (slot_at ht d ((home ht (fst e) + m) mod ncap ht)) = status"
    using inv by auto
  let ?j = "(home ht (fst e) + m) mod ncap ht"
  have j: "?j < ncap ht" using ncap_pos [OF wf] by simp
  have dist: "dist (ncap ht) (home ht (fst e)) ?j = m" using m(1) wf by (simp add: dist_at)
  show ?thesis
  proof (cases "Status (slot_at ht d ?j) = status")
    case True
    obtain d' where d': "atomic_cas_u32 d (slotBase ht + int ?j * SlotSize + 16) status SlotUsed = Some (True, d')"
        "updates_slot ht ?j ((slot_at ht d ?j)\<lparr>Status := SlotUsed\<rparr>) d d'"
      using writer_store(4) [OF wf j] unfolding True by blast
    have "writer_step ht e (w, d) = Some (StoringHash (int ?j), d')"
      unfolding Comparing writer_step.simps m(2) d'(1) by simp
    then show ?thesis by (rule claim [OF _ _ j _ _ d'(2)]) (use m True in \<open>simp_all add: Comparing dist slot_free_def\<close>)
  next
    case False
    then have no: "\<not> slot_free ht d ?j" using m(5) by auto
    have "writer_step ht e (w, d) = Some (Searching n (next_index ht idx), d)"
      unfolding Comparing writer_step.simps m(2) writer_store(5) [OF wf j False [symmetric]] by simp
    then show ?thesis by (rule search) (use searching_next [OF wf m(1,3) no] m(2) in \<open>simp_all add: Comparing fun_eq_iff\<close>)
  qed
next
  case (StoringHash idx)
  then obtain j where j: "j < ncap ht" "idx = int j" using inv by auto
  then show ?thesis using writer_store(1) [OF wf j(1), of "fst e" "fst (snd e)" "snd (snd e)"] StoringHash
    by (auto intro: store)
next
  case (StoringOffset idx)
  then obtain j where j: "j < ncap ht" "idx = int j" using inv by auto
  then show ?thesis using writer_store(2) [OF wf j(1), of "fst e" "fst (snd e)" "snd (snd e)"] StoringOffset
    by (auto intro: store)
next
  case (StoringVLen idx)
  then obtain j where j: "j < ncap ht" "idx = int j" using inv by auto
  then show ?thesis using writer_store(3) [OF wf j(1), of "fst e" "fst (snd e)" "snd (snd e)"] StoringVLen
    by (auto intro: store)
next
  case (Finished r)
  show ?thesis by (rule search [of w]) (use inv in \<open>simp_all add: Finished\<close>)
qed

section \<open>The race\<close>

text \<open>Writer \<open>i\<close> inserts the entry \<open>es ! i\<close>; any of them makes the next access.\<close>

inductive insert_race :: "hash_table \<Rightarrow> entry list \<Rightarrow> bytes \<Rightarrow> writer list \<Rightarrow> bytes \<Rightarrow> bool" for ht es data where
  begin_race: "insert_race ht es data (map (\<lambda>e. writer_start ht (fst e)) es) data"
| access: "insert_race ht es data ws d \<Longrightarrow> i < length es \<Longrightarrow> writer_step ht (es ! i) (ws ! i, d) = Some (w, d') \<Longrightarrow>
    insert_race ht es data (ws[i := w]) d'"

definition race_inv :: "hash_table \<Rightarrow> entry list \<Rightarrow> bytes \<Rightarrow> writer list \<Rightarrow> bytes \<Rightarrow> bool" where
  "race_inv ht es data ws d \<longleftrightarrow> length ws = length es \<and> length d = length data \<and>
    take (nat (slotBase ht)) d = take (nat (slotBase ht)) data \<and> drop (data_base ht) d = drop (data_base ht) data \<and>
    (\<forall>i<length es. writer_inv ht (fst (es ! i)) d (ws ! i)) \<and>
    (\<forall>i<length es. \<forall>j<ncap ht. holds (ws ! i) = Some (int j) \<longrightarrow> slot_free ht data j \<and>
      slot_at ht d j = written (es ! i) (ws ! i) (slot_at ht data j) \<and>
      (\<forall>k<length es. holds (ws ! k) = Some (int j) \<longrightarrow> k = i)) \<and>
    (\<forall>j<ncap ht. (\<forall>i<length es. holds (ws ! i) \<noteq> Some (int j)) \<longrightarrow> slot_at ht d j = slot_at ht data j)"

lemma race_invD:
  assumes "race_inv ht es data ws d"
  shows "length ws = length es" "length d = length data"
    "take (nat (slotBase ht)) d = take (nat (slotBase ht)) data" "drop (data_base ht) d = drop (data_base ht) data"
    "i < length es \<Longrightarrow> writer_inv ht (fst (es ! i)) d (ws ! i)"
    "i < length es \<Longrightarrow> j < ncap ht \<Longrightarrow> holds (ws ! i) = Some (int j) \<Longrightarrow> slot_free ht data j"
    "i < length es \<Longrightarrow> j < ncap ht \<Longrightarrow> holds (ws ! i) = Some (int j) \<Longrightarrow>
      slot_at ht d j = written (es ! i) (ws ! i) (slot_at ht data j)"
    "i < length es \<Longrightarrow> k < length es \<Longrightarrow> j < ncap ht \<Longrightarrow> holds (ws ! i) = Some (int j) \<Longrightarrow>
      holds (ws ! k) = Some (int j) \<Longrightarrow> k = i"
    "j < ncap ht \<Longrightarrow> (\<And>i. i < length es \<Longrightarrow> holds (ws ! i) \<noteq> Some (int j)) \<Longrightarrow> slot_at ht d j = slot_at ht data j"
  using assms unfolding race_inv_def by blast+

lemma written_used: "holds w = Some j \<Longrightarrow> Status (written e w old) = SlotUsed"
  by (cases w) auto

lemma race_start:
  assumes "ht_wf ht data"
  shows "race_inv ht es data (map (\<lambda>e. writer_start ht (fst e)) es) data"
  using writer_start_inv [OF assms] by (simp add: race_inv_def writer_start_def)

lemma race_search:
  assumes inv: "race_inv ht es data ws d" and i: "i < length es"
    and w: "holds w = holds (ws ! i)" "written (es ! i) w = written (es ! i) (ws ! i)" "writer_inv ht (fst (es ! i)) d w"
  shows "race_inv ht es data (ws[i := w]) d"
proof -
  have "holds (ws[i := w] ! k) = holds (ws ! k)" "written (es ! k) (ws[i := w] ! k) = written (es ! k) (ws ! k)"
    "writer_inv ht (fst (es ! k)) d (ws[i := w] ! k)" if "k < length es" for k
    using that w i race_invD(1,5) [OF inv] by (cases "k = i"; simp)+
  then show ?thesis using inv by (auto simp: race_inv_def)
qed

text \<open>A writer that makes slot \<open>j\<close> its own, or stores into it.\<close>

lemma race_update:
  assumes inv: "race_inv ht es data ws d" and wf: "ht_wf ht data" and i: "i < length es" and j: "j < ncap ht"
    and d': "updates_slot ht j (written (es ! i) w (slot_at ht data j)) d d'"
    and w: "holds w = Some (int j)" "holds (ws ! i) \<in> {None, Some (int j)}" "slot_free ht data j"
    and w_inv: "writer_inv ht (fst (es ! i)) d w"
    and others: "\<And>k. k < length es \<Longrightarrow> k \<noteq> i \<Longrightarrow> holds (ws ! k) \<noteq> Some (int j)"
  shows "race_inv ht es data (ws[i := w]) d'"
proof -
  note v = race_invD [OF inv]
  have at: "m < ncap ht \<Longrightarrow> slot_at ht d' m = (if m = j then written (es ! i) w (slot_at ht data j) else slot_at ht d m)" for m
    using d' by (simp add: updates_slot_def)
  have wfd: "ht_wf ht d" using wf v(2) ht_wf_cong [of d data ht] by simp
  have mono: "slot_free ht d m \<and> slot_at ht d' m = slot_at ht d m" if "m < ncap ht" "slot_free ht d' m" for m
    using that at written_used [OF w(1)] by (auto simp: slot_free_def split: if_splits)
  have nth: "ws[i := w] ! k = (if k = i then w else ws ! k)" if "k < length es" for k
    using that v(1) by simp
  show ?thesis
    unfolding race_inv_def
  proof (intro conjI allI impI)
    show "writer_inv ht (fst (es ! k)) d' (ws[i := w] ! k)" if "k < length es" for k
      using writer_inv_mono [OF wfd _ mono] w_inv v(5) [OF that] by (simp add: nth [OF that])
    show "slot_at ht d' m = slot_at ht data m"
      if m: "m < ncap ht" "\<forall>k<length es. holds (ws[i := w] ! k) \<noteq> Some (int m)" for m
    proof -
      have "m \<noteq> j" using m i w(1) nth [OF i] by auto
      moreover have "holds (ws ! k) \<noteq> Some (int m)" if "k < length es" for k
        using m(2) that w(2) nth [OF that] \<open>m \<noteq> j\<close> by (cases "k = i") auto
      ultimately show ?thesis using at [OF m(1)] v(9) [OF m(1)] by simp
    qed
    fix k m assume k: "k < length es" "m < ncap ht" "holds (ws[i := w] ! k) = Some (int m)"
    show "slot_free ht data m"
      using k nth [OF k(1)] w v(6) [OF k(1,2)] by (auto split: if_splits)
    show "slot_at ht d' m = written (es ! k) (ws[i := w] ! k) (slot_at ht data m)"
      using k nth [OF k(1)] w(1) at [OF k(2)] others [OF k(1)] v(7) [OF k(1,2)] by (auto split: if_splits)
    show "k' = k" if "k' < length es" "holds (ws[i := w] ! k') = Some (int m)" for k'
      using k that nth [OF k(1)] nth [OF that(1)] w(1) others v(8) [OF k(1) that(1) k(2)] by (auto split: if_splits)
  qed (use d' v(1-4) in \<open>simp_all add: updates_slot_def\<close>)
qed

lemma race_inv_step:
  assumes inv: "race_inv ht es data ws d" and wf: "ht_wf ht data" and i: "i < length es"
  shows "\<exists>w d'. writer_step ht (es ! i) (ws ! i, d) = Some (w, d') \<and> race_inv ht es data (ws[i := w]) d'"
proof -
  note v = race_invD [OF inv]
  have wfd: "ht_wf ht d" using wf v(2) ht_wf_cong [of d data ht] by simp
  show ?thesis
  proof (cases rule: writer_step_inv [OF wfd v(5) [OF i], case_names search claim store])
    case (search w')
    then show ?thesis using race_search [OF inv i] by blast
  next
    case (claim j d')
    have none: "holds (ws ! k) \<noteq> Some (int j)" if "k < length es" for k
      using v(7) [OF that claim(3)] written_used [of "ws ! k" "int j" "es ! k" "slot_at ht data j"] claim(4) by (auto simp: slot_free_def)
    then have old: "slot_at ht d j = slot_at ht data j" using v(9) [OF claim(3)] by blast
    have "race_inv ht es data (ws[i := StoringHash (int j)]) d'"
      by (rule race_update [OF inv wf i claim(3)])
        (use claim none old in \<open>auto simp: slot_free_def\<close>)
    then show ?thesis using claim(1) by blast
  next
    case (store j w' slot d')
    note s = v(7) [OF i store(2,3)]
    have "race_inv ht es data (ws[i := w']) d'"
      by (rule race_update [OF inv wf i store(2)])
        (use store s v(5) [OF i] v(6) [OF i store(2,3)] v(8) [OF i _ store(2,3)] in auto)
    then show ?thesis using store(1) by blast
  qed
qed

lemma insert_race_inv:
  "insert_race ht es data ws d \<Longrightarrow> ht_wf ht data \<Longrightarrow> race_inv ht es data ws d"
proof (induction rule: insert_race.induct)
  case begin_race
  then show ?case by (rule race_start)
next
  case (access ws d i w d')
  then show ?case using race_inv_step [OF access.IH [OF access.prems] access.prems access.hyps(2)] by auto
qed

text \<open>
  C9. Insertions never go wrong: however many of them run and however their accesses interleave, the
  table stays inside its memory, every status stays one of the three codes, and every insertion that
  has not returned can make its next access, without a panic, and is nearer to its return after it.
\<close>

theorem insert_race_type_safe:
  assumes wf: "ht_wf ht data" and codes: "\<forall>j<ncap ht. Status (slot_at ht data j) \<in> {SlotEmpty, SlotUsed, SlotTomb}"
    and race: "insert_race ht es data ws d"
  shows "ht_wf ht d \<and> (\<forall>j<ncap ht. Status (slot_at ht d j) \<in> {SlotEmpty, SlotUsed, SlotTomb}) \<and>
    (\<forall>i<length es. outcome (ws ! i) = None \<longrightarrow> (\<exists>w d'. writer_step ht (es ! i) (ws ! i, d) = Some (w, d') \<and>
      insert_race ht es data (ws[i := w]) d' \<and> steps_left w < steps_left (ws ! i)))"
proof (intro conjI allI impI)
  note inv = insert_race_inv [OF race wf]
  note v = race_invD [OF inv]
  show "ht_wf ht d" using wf v(2) ht_wf_cong [of d data ht] by simp
  show "Status (slot_at ht d j) \<in> {SlotEmpty, SlotUsed, SlotTomb}" if j: "j < ncap ht" for j
  proof (cases "\<exists>i<length es. holds (ws ! i) = Some (int j)")
    case True
    then show ?thesis using v(7) [OF _ j] written_used by fastforce
  next
    case False
    then show ?thesis using v(9) [OF j] codes j by auto
  qed
  fix i assume i: "i < length es" "outcome (ws ! i) = None"
  obtain w d' where w: "writer_step ht (es ! i) (ws ! i, d) = Some (w, d')" using race_inv_step [OF inv wf i(1)] by blast
  have "steps_left (ws ! i) \<noteq> 0" using i(2) by (cases "ws ! i") auto
  then show "\<exists>w d'. writer_step ht (es ! i) (ws ! i, d) = Some (w, d') \<and>
      insert_race ht es data (ws[i := w]) d' \<and> steps_left w < steps_left (ws ! i)"
    using w writer_step_decreases [OF w] insert_race.access [OF race i(1) w] by blast
qed

section \<open>When all have returned\<close>

definition returned :: "writer list \<Rightarrow> bool" where
  "returned ws \<longleftrightarrow> (\<forall>w\<in>set ws. outcome w \<noteq> None)"

lemma returned_nth: "returned ws \<Longrightarrow> i < length ws \<Longrightarrow> \<exists>r. ws ! i = Finished r"
  by (metis nth_mem outcome.elims returned_def)

lemma race_slots:
  assumes inv: "race_inv ht es data ws d" and ret: "returned ws"
  shows "i < length es \<Longrightarrow> ws ! i = Finished (Some idx) \<Longrightarrow> \<exists>j<ncap ht. idx = int j \<and> slot_free ht data j \<and>
      slot_at ht d j = \<lparr>Hash = fst (es ! i), Offset = fst (snd (es ! i)), VLen = snd (snd (es ! i)), Status = SlotUsed\<rparr> \<and>
      passed ht (fst (es ! i)) d (dist (ncap ht) (home ht (fst (es ! i))) j)"
    and "j < ncap ht \<Longrightarrow> (\<exists>i<length es. ws ! i = Finished (Some (int j))) \<or> slot_at ht d j = slot_at ht data j"
proof -
  note v = race_invD [OF inv]
  show "\<exists>j<ncap ht. idx = int j \<and> slot_free ht data j \<and>
      slot_at ht d j = \<lparr>Hash = fst (es ! i), Offset = fst (snd (es ! i)), VLen = snd (snd (es ! i)), Status = SlotUsed\<rparr> \<and>
      passed ht (fst (es ! i)) d (dist (ncap ht) (home ht (fst (es ! i))) j)"
    if i: "i < length es" "ws ! i = Finished (Some idx)"
    using v(5-7) [OF i(1)] i(2) by fastforce
  show "(\<exists>i<length es. ws ! i = Finished (Some (int j))) \<or> slot_at ht d j = slot_at ht data j" if j: "j < ncap ht"
  proof (cases "\<exists>i<length es. holds (ws ! i) = Some (int j)")
    case True
    then show ?thesis using returned_nth [OF ret] v(1) by fastforce
  next
    case False
    then show ?thesis using v(9) [OF j] by blast
  qed
qed

lemma race_table_inv:
  assumes inv: "race_inv ht es data ws d" and tab: "table_inv ht data" and ret: "returned ws"
  shows "table_inv ht d"
proof -
  note v = race_invD [OF inv] and s = race_slots [OF inv ret]
  have wf: "ht_wf ht d" using tab v(2) ht_wf_cong [of d data ht] by simp
  have "\<not> slot_empty ht d m" if i: "i < ncap ht" "slot_used ht d i" and m: "m < ncap ht"
      "dist (ncap ht) (home ht (Hash (slot_at ht d i))) m \<le> dist (ncap ht) (home ht (Hash (slot_at ht d i))) i" for i m
    using s(2) [OF i(1)]
  proof (elim disjE exE conjE)
    fix k assume k: "k < length es" "ws ! k = Finished (Some (int i))"
    then have h: "Hash (slot_at ht d i) = fst (es ! k)"
        and p: "passed ht (fst (es ! k)) d (dist (ncap ht) (home ht (fst (es ! k))) i)"
      using s(1) [OF k] by auto
    show ?thesis
    proof (cases "m = i")
      case True
      then show ?thesis using i(2) slot_used_not_empty by blast
    next
      case False
      then have "dist (ncap ht) (home ht (fst (es ! k))) m < dist (ncap ht) (home ht (fst (es ! k))) i"
        using m(2) dist_inj [OF home_less [OF wf] m(1) i(1)] unfolding h by (metis le_neq_implies_less)
      then show ?thesis using p m(1) slot_free_of_empty by (auto simp: passed_def)
    qed
  next
    assume old: "slot_at ht d i = slot_at ht data i"
    then have "\<not> slot_empty ht data m"
      using tab i m by (auto simp: table_inv_iff slot_used_def)
    moreover have "slot_empty ht d m \<Longrightarrow> slot_empty ht data m"
      using s(2) [OF m(1)] s(1) by (fastforce simp: slot_empty_def)
    ultimately show ?thesis by blast
  qed
  then show ?thesis using wf by (auto simp: table_inv_iff)
qed

lemma lookup_unique:
  assumes wf: "ht_wf ht d" and j: "j < ncap ht" "slot_hit ht d h key j"
    and only: "\<And>m. m < ncap ht \<Longrightarrow> slot_hit ht d h key m \<Longrightarrow> m = j"
  shows "lookup ht d h key = Some (slot_value ht d j)"
proof -
  have "first_hit ht d h key = Some j"
    unfolding first_hit_nearest [OF wf] by (intro conjI j allI impI) (use only in auto)
  then show ?thesis by (simp add: lookup_def)
qed

lemma race_used_count:
  assumes inv: "race_inv ht es data ws d" and ret: "returned ws"
  shows "used_count ht d = used_count ht data + length (filter (\<lambda>w. outcome w = Some True) ws)"
proof -
  note v = race_invD [OF inv] and s = race_slots [OF inv ret]
  let ?W = "{i. i < length ws \<and> outcome (ws ! i) = Some True}" and ?U = "{j. j < ncap ht \<and> slot_used ht data j}"
  define f where "f i = nat (the (holds (ws ! i)))" for i
  have ws: "ws ! i = Finished (Some (int (f i))) \<and> f i < ncap ht \<and> slot_free ht data (f i) \<and> slot_used ht d (f i)"
    if i: "i \<in> ?W" for i
  proof -
    obtain idx where idx: "ws ! i = Finished (Some idx)" using i returned_nth [OF ret, of i] by auto
    then show ?thesis using s(1) [OF _ idx] i v(1) by (auto simp: f_def slot_used_def)
  qed
  have "inj_on f ?W"
  proof (rule inj_onI)
    fix i k assume ik: "i \<in> ?W" "k \<in> ?W" "f i = f k"
    then show "i = k" using v(8) [of k i "f i"] ws [OF ik(1)] ws [OF ik(2)] v(1) by auto
  qed
  then have "card (f ` ?W) = length (filter (\<lambda>w. outcome w = Some True) ws)"
    by (simp add: card_image length_filter_conv_card)
  moreover have "{j. j < ncap ht \<and> slot_used ht d j} = ?U \<union> f ` ?W"
  proof (intro set_eqI iffI)
    fix j assume j: "j \<in> {j. j < ncap ht \<and> slot_used ht d j}"
    then consider i where "i < length es" "ws ! i = Finished (Some (int j))" | "slot_at ht d j = slot_at ht data j"
      using s(2) by blast
    then show "j \<in> ?U \<union> f ` ?W"
    proof cases
      case 1
      then have "i \<in> ?W" "f i = j" using v(1) by (auto simp: f_def)
      then show ?thesis by blast
    qed (use j in \<open>auto simp: slot_used_def\<close>)
  next
    fix j assume "j \<in> ?U \<union> f ` ?W"
    then consider "j < ncap ht" "slot_used ht data j" | i where "i \<in> ?W" "j = f i" by blast
    then show "j \<in> {j. j < ncap ht \<and> slot_used ht d j}"
    proof cases
      case 1
      then show ?thesis using s(2) [OF 1(1)] s(1) by (fastforce simp: slot_used_def)
    next
      case (2 i)
      then show ?thesis using ws [OF 2(1)] by simp
    qed
  qed
  moreover have "?U \<inter> f ` ?W = {}" using ws slot_free_not_used by fastforce
  ultimately show ?thesis by (simp add: used_count_def card_Un_disjoint)
qed

lemma race_read_back:
  assumes inv: "race_inv ht es data ws d" and tab: "table_inv ht data" and ret: "returned ws"
    and i: "i < length es" "es ! i = (h, ofs, vl)" "ws ! i = Finished (Some (int j))" "j < ncap ht"
    and key: "key_at ht data ofs = Some key" "lookup ht data h key = None"
      "\<forall>k<length es. k \<noteq> i \<longrightarrow> fst (es ! k) = h \<longrightarrow> key_at ht data (fst (snd (es ! k))) \<noteq> Some key"
  shows "HashTable_Get ht d h key = Some (value_at ht data ofs vl, True)"
proof -
  have wf: "ht_wf ht data" using tab by simp
  note v = race_invD [OF inv] and s = race_slots [OF inv ret] and inv' = race_table_inv [OF inv tab ret]
  have at: "slot_at ht d j = \<lparr>Hash = h, Offset = ofs, VLen = vl, Status = SlotUsed\<rparr>"
    using s(1) [OF i(1,3)] by (auto simp: i(2))
  have dat: "key_at ht d p = key_at ht data p" "value_at ht d p n = value_at ht data p n" for p n
    using data_cong [OF v(2,4)] by auto
  have hit: "slot_hit ht d h key j" using at key(1) by (simp add: slot_hit_def slot_used_def dat)
  have "m = j" if m: "m < ncap ht" "slot_hit ht d h key m" for m
    using s(2) [OF m(1)]
  proof (elim disjE exE conjE)
    fix k assume k: "k < length es" "ws ! k = Finished (Some (int m))"
    then have "k = i" using s(1) [OF k] m(2) key(3) by (auto simp: slot_hit_def dat)
    then show "m = j" using k(2) i(3) by simp
  next
    assume "slot_at ht d m = slot_at ht data m"
    then have "slot_hit ht data h key m" using m(2) by (simp add: slot_hit_def slot_used_def dat)
    then show "m = j" using key(2) m(1) by (simp add: lookup_None first_hit_None [OF wf])
  qed
  then have "lookup ht d h key = Some (slot_value ht d j)" by (rule lookup_unique [OF table_inv_wf [OF inv'] i(4) hit])
  then show ?thesis by (simp add: Get_lookup [OF inv'] lookup_result_def slot_value_def at dat)
qed

text \<open>
  C7. No insertion is lost: in a table that satisfies the probe invariant, when all insertions of a race
  have returned, the invariant holds again. One that returned true has a slot of its own, free before,
  with its entry; one that returned false found the table full; as many entries are counted as
  succeeded. Every slot that is not the slot of such an insertion is as before, so no entry that was
  there is lost either, and so are the bytes before the table and the data region. A key that was not
  there before, that one of them has inserted with its chunk in place, and that no other of them was
  given, is read back with its value.
\<close>

theorem no_insertion_is_lost:
  assumes tab: "table_inv ht data" and race: "insert_race ht es data ws d" and ret: "returned ws"
  shows "table_inv ht d \<and> used_count ht d = used_count ht data + length (filter (\<lambda>w. outcome w = Some True) ws) \<and>
    length d = length data \<and> take (nat (slotBase ht)) d = take (nat (slotBase ht)) data \<and>
    drop (data_base ht) d = drop (data_base ht) data \<and>
    (\<forall>j<ncap ht. (\<forall>i<length es. ws ! i \<noteq> Finished (Some (int j))) \<longrightarrow> slot_at ht d j = slot_at ht data j) \<and>
    (\<forall>j<ncap ht. \<not> slot_free ht data j \<longrightarrow> slot_at ht d j = slot_at ht data j) \<and>
    (\<forall>i<length es. outcome (ws ! i) = Some False \<longrightarrow> (\<forall>j<ncap ht. \<not> slot_free ht d j)) \<and>
    (\<forall>i<length es. outcome (ws ! i) = Some True \<longrightarrow> (case es ! i of (h, ofs, vl) \<Rightarrow> \<exists>j<ncap ht.
      ws ! i = Finished (Some (int j)) \<and>
      slot_free ht data j \<and> slot_at ht d j = \<lparr>Hash = h, Offset = ofs, VLen = vl, Status = SlotUsed\<rparr> \<and>
      (\<forall>k<length es. ws ! k = ws ! i \<longrightarrow> k = i) \<and>
      (\<forall>key. key_at ht data ofs = Some key \<and> lookup ht data h key = None \<and>
        (\<forall>k<length es. k \<noteq> i \<longrightarrow> fst (es ! k) = h \<longrightarrow> key_at ht data (fst (snd (es ! k))) \<noteq> Some key) \<longrightarrow>
        HashTable_Get ht d h key = Some (value_at ht data ofs vl, True))))"
proof (intro conjI allI impI)
  have wf: "ht_wf ht data" using tab by simp
  note inv = insert_race_inv [OF race wf]
  note v = race_invD [OF inv] and s = race_slots [OF inv ret] and inv' = race_table_inv [OF inv tab ret]
  show "table_inv ht d" by (rule inv')
  have wfd: "ht_wf ht d" using inv' by simp
  show "used_count ht d = used_count ht data + length (filter (\<lambda>w. outcome w = Some True) ws)"
    by (rule race_used_count [OF inv ret])
  show "length d = length data" "take (nat (slotBase ht)) d = take (nat (slotBase ht)) data"
    "drop (data_base ht) d = drop (data_base ht) data" by (rule v)+
  show "slot_at ht d j = slot_at ht data j" if "j < ncap ht" "\<forall>i<length es. ws ! i \<noteq> Finished (Some (int j))" for j
    using s(2) [OF that(1)] that(2) by blast
  show "slot_at ht d j = slot_at ht data j" if "j < ncap ht" "\<not> slot_free ht data j" for j
    using s(2) [OF that(1)] s(1) that(2) by fastforce
  show "\<not> slot_free ht d j" if i: "i < length es" "outcome (ws ! i) = Some False" and j: "j < ncap ht" for i j
  proof -
    have "ws ! i = Finished None" using i v(1) returned_nth [OF ret, of i] by auto
    then show ?thesis using v(5) [OF i(1)] j dist_less [OF ncap_pos [OF wf]] by (auto simp: passed_def)
  qed
  fix i assume i: "i < length es" "outcome (ws ! i) = Some True"
  obtain h ofs vl where e: "es ! i = (h, ofs, vl)" by (cases "es ! i")
  obtain idx where idx: "ws ! i = Finished (Some idx)" using i v(1) returned_nth [OF ret, of i] by auto
  obtain j where j: "j < ncap ht" "idx = int j" "slot_free ht data j"
      "slot_at ht d j = \<lparr>Hash = h, Offset = ofs, VLen = vl, Status = SlotUsed\<rparr>"
    using s(1) [OF i(1) idx] by (auto simp: e)
  have slot: "ws ! i = Finished (Some (int j))" using idx j(2) by simp
  have own: "k = i" if "k < length es" "ws ! k = ws ! i" for k
    using v(8) [OF i(1) that(1) j(1)] that(2) idx j(2) by simp
  have get: "HashTable_Get ht d h key = Some (value_at ht data ofs vl, True)"
    if "key_at ht data ofs = Some key" "lookup ht data h key = None"
      "\<forall>k<length es. k \<noteq> i \<longrightarrow> fst (es ! k) = h \<longrightarrow> key_at ht data (fst (snd (es ! k))) \<noteq> Some key" for key
    using race_read_back [OF inv tab ret i(1) e slot j(1) that] .
  have own': "\<forall>k<length es. ws ! k = ws ! i \<longrightarrow> k = i" using own by blast
  have get': "\<forall>key. key_at ht data ofs = Some key \<and> lookup ht data h key = None \<and>
        (\<forall>k<length es. k \<noteq> i \<longrightarrow> fst (es ! k) = h \<longrightarrow> key_at ht data (fst (snd (es ! k))) \<noteq> Some key) \<longrightarrow>
        HashTable_Get ht d h key = Some (value_at ht data ofs vl, True)"
    using get by blast
  show "case es ! i of (h, ofs, vl) \<Rightarrow> \<exists>j<ncap ht. ws ! i = Finished (Some (int j)) \<and>
      slot_free ht data j \<and> slot_at ht d j = \<lparr>Hash = h, Offset = ofs, VLen = vl, Status = SlotUsed\<rparr> \<and>
      (\<forall>k<length es. ws ! k = ws ! i \<longrightarrow> k = i) \<and>
      (\<forall>key. key_at ht data ofs = Some key \<and> lookup ht data h key = None \<and>
        (\<forall>k<length es. k \<noteq> i \<longrightarrow> fst (es ! k) = h \<longrightarrow> key_at ht data (fst (snd (es ! k))) \<noteq> Some key) \<longrightarrow>
        HashTable_Get ht d h key = Some (value_at ht data ofs vl, True))"
    unfolding e prod.case by (rule exI [of _ j]) (intro conjI slot j(1,3,4) own' get')
qed

section \<open>An example\<close>

text \<open>A schedule lists the writers in the order of their accesses.\<close>

fun run_race :: "hash_table \<Rightarrow> entry list \<Rightarrow> nat list \<Rightarrow> writer list \<times> bytes \<Rightarrow> (writer list \<times> bytes) option" where
  "run_race ht es [] (ws, d) = Some (ws, d)"
| "run_race ht es (i # is) (ws, d) =
    (if i < length es then do { (w, d) \<leftarrow> writer_step ht (es ! i) (ws ! i, d); run_race ht es is (ws[i := w], d) } else None)"

lemma run_race_sound:
  "run_race ht es is (ws, d) = Some (ws', d') \<Longrightarrow> insert_race ht es data ws d \<Longrightarrow> insert_race ht es data ws' d'"
proof (induction "is" arbitrary: ws d)
  case (Cons i "is")
  then show ?case by (auto simp: bind_eq_Some_conv split: if_splits intro: insert_race.access)
qed simp

text \<open>
  Two insertions with one home load the same status before either swaps; the second swap fails, and its
  writer goes on to the other slot.
\<close>

definition demo_race_entries :: "entry list" where
  "demo_race_entries = [(7, 0, 1), (9, 6, 1)]"

definition demo_race :: "nat list" where
  "demo_race = [0, 1, 1, 0, 0, 0, 1, 0, 1, 1, 0, 0]"

lemma run_race_reaches:
  assumes "map_option fst (run_race ht es is (map (\<lambda>e. writer_start ht (fst e)) es, data)) = Some ws"
  shows "\<exists>d. insert_race ht es data ws d"
proof -
  obtain d where "run_race ht es is (map (\<lambda>e. writer_start ht (fst e)) es, data) = Some (ws, d)"
    using assms by (auto simp: map_option_eq_Some)
  from run_race_sound [OF this insert_race.begin_race] show ?thesis by blast
qed

lemma demo_race_facts:
  "length demo_race_entries = 2" "demo_race_entries ! 0 = (7, 0, 1)" "demo_race_entries ! Suc 0 = (9, 6, 1)"
  "(\<forall>i<2. P i) \<longleftrightarrow> P 0 \<and> P (Suc 0)"
  by (auto simp: demo_race_entries_def less_2_cases_iff)

theorem insert_race_type_safe_witness:
  "\<exists>d w d'. insert_race demo_ht demo_race_entries demo_data [Comparing 1 1 0, StoringHash 1] d \<and>
    writer_step demo_ht (7, 0, 1) (Comparing 1 1 0, d) = Some (w, d') \<and> steps_left w < 7"
proof -
  have "map_option fst (run_race demo_ht demo_race_entries [0, 1, 1]
      (map (\<lambda>e. writer_start demo_ht (fst e)) demo_race_entries, demo_data)) = Some [Comparing 1 1 0, StoringHash 1]"
    by code_simp
  from run_race_reaches [OF this]
  obtain d where d: "insert_race demo_ht demo_race_entries demo_data [Comparing 1 1 0, StoringHash 1] d" by blast
  have codes: "\<forall>j<ncap demo_ht. Status (slot_at demo_ht demo_data j) \<in> {SlotEmpty, SlotUsed, SlotTomb}"
    using demo_unused by (simp add: slot_empty_def)
  show ?thesis
    using insert_race_type_safe [OF table_inv_wf [OF demo_inv] codes d] d by (simp add: demo_race_facts) blast
qed

theorem no_insertion_is_lost_witness:
  "\<exists>d. insert_race demo_ht demo_race_entries demo_data [Finished (Some 0), Finished (Some 1)] d \<and>
    used_count demo_ht d = 2 \<and> HashTable_Get demo_ht d 7 [9] = Some (Some [5], True) \<and>
    HashTable_Get demo_ht d 9 [9] = Some (Some [6], True)"
proof -
  have "map_option fst (run_race demo_ht demo_race_entries demo_race
      (map (\<lambda>e. writer_start demo_ht (fst e)) demo_race_entries, demo_data)) = Some [Finished (Some 0), Finished (Some 1)]"
    by code_simp
  from run_race_reaches [OF this]
  obtain d where d: "insert_race demo_ht demo_race_entries demo_data [Finished (Some 0), Finished (Some 1)] d" by blast
  have miss: "lookup demo_ht demo_data h [9] = None" for h
    using demo_unused by (auto simp: lookup_None first_hit_None [OF table_inv_wf [OF demo_inv]] dest: slot_hit_used)
  have vals: "value_at demo_ht demo_data 0 1 = Some [5]" "value_at demo_ht demo_data 6 1 = Some [6]" by code_simp+
  have none: "used_count demo_ht demo_data = 0" using demo_unused by (auto simp: used_count_def)
  have ret: "returned [Finished (Some 0), Finished (Some 1)]" by (simp add: returned_def ex_bool_eq)
  show ?thesis
    using no_insertion_is_lost [OF demo_inv d ret] d none miss vals demo_keys
    by (intro exI [of _ d]) (auto simp: demo_race_facts)
qed

end
