(* ===== verification/Concurrent_Delete.thy ===== *)
theory Concurrent_Delete
  imports Concurrent_Get
begin

text \<open>
  A lookup while another process deletes. \<open>Delete\<close> makes one store, the tombstone; a lookup that is under
  way when it happens has read some of its slots before and reads the others after it. It still
  returns what a lookup returns that runs wholly before the deletion, or wholly after it.
\<close>

section \<open>Finishing a lookup\<close>

definition finish :: "hash_table \<Rightarrow> u64 \<Rightarrow> bytes \<Rightarrow> bytes \<Rightarrow> get_state \<Rightarrow> get_state option" where
  \<comment> \<open>the lookup runs on alone, over a memory that stays as it is\<close>
  "finish ht h key d g = get_steps (loads_left g) ht h key d g"

lemma finish_more: "loads_left g \<le> k \<Longrightarrow> get_steps k ht h key d g = finish ht h key d g"
proof (induction "loads_left g" arbitrary: g k rule: less_induct)
  case less
  show ?case
  proof (cases "loads_left g = 0")
    case True
    then obtain r where "g = Returned r" by (cases g) auto
    then show ?thesis by (simp add: finish_def get_steps_Returned)
  next
    case False
    then obtain k' m where k: "k = Suc k'" "loads_left g = Suc m" using less.prems by (cases k; cases "loads_left g") auto
    show ?thesis
    proof (cases "get_step ht h key d g")
      case (Some g')
      then have "loads_left g' < loads_left g" using get_step_decreases False by blast
      then show ?thesis using Some less.hyps [of g' k'] less.hyps [of g' m] less.prems k by (simp add: finish_def)
    qed (use k in \<open>simp add: finish_def\<close>)
  qed
qed

lemma finish_Returned [simp]: "finish ht h key d (Returned r) = Some (Returned r)"
  by (simp add: finish_def)

lemma finish_step:
  assumes "get_step ht h key d g = Some g'"
  shows "finish ht h key d g = finish ht h key d g'"
proof (cases "loads_left g = 0")
  case True
  then show ?thesis using assms by (cases g) auto
next
  case False
  then obtain m where m: "loads_left g = Suc m" by (cases "loads_left g") auto
  then have "loads_left g' \<le> m" using get_step_decreases [OF assms False] by simp
  then show ?thesis using finish_more [of g' m] assms m by (simp add: finish_def)
qed

lemma finish_Probing: "finish ht h key d (Probing n idx) = map_option Returned (Get_loop n ht d h key idx)"
  using get_steps_loop [of n ht h key d idx] by (simp add: finish_def)

lemma finish_start: "finish ht h key d (get_start ht h) = map_option Returned (HashTable_Get ht d h key)"
  by (simp add: get_start_def finish_Probing HashTable_Get_def)

lemma finish_None:
  assumes "finish ht h key d g \<noteq> None"
  shows "\<exists>g'. get_step ht h key d g = Some g' \<and> (loads_left g \<noteq> 0 \<longrightarrow> loads_left g' < loads_left g)"
proof (cases "loads_left g")
  case 0
  then show ?thesis by (cases g) auto
next
  case (Suc m)
  then obtain g' where "get_step ht h key d g = Some g'" using assms by (auto simp: finish_def bind_eq_Some_conv)
  then show ?thesis using get_step_decreases by blast
qed

section \<open>At the deleted slot\<close>

fun idx_ok :: "hash_table \<Rightarrow> get_state \<Rightarrow> bool" where
  "idx_ok ht (Probing n idx) \<longleftrightarrow> (\<exists>j<ncap ht. idx = int j)"
| "idx_ok ht (ReadStatus n idx status) \<longleftrightarrow> (\<exists>j<ncap ht. idx = int j)"
| "idx_ok ht (ReadHash n idx status x) \<longleftrightarrow> (\<exists>j<ncap ht. idx = int j)"
| "idx_ok ht (ReadOffset n idx status x ofs) \<longleftrightarrow> (\<exists>j<ncap ht. idx = int j)"
| "idx_ok ht (ReadSlot n idx slot) \<longleftrightarrow> (\<exists>j<ncap ht. idx = int j)"
| "idx_ok ht (Returned r) \<longleftrightarrow> True"

lemma idx_ok_start: "ht_wf ht d \<Longrightarrow> idx_ok ht (get_start ht h)"
  by (auto simp: get_start_def home_index_int)

lemma idx_ok_step:
  assumes wf: "ht_wf ht d" and ok: "idx_ok ht g" and step: "get_step ht h key d' g = Some g'"
  shows "idx_ok ht g'"
proof -
  have "\<exists>j<ncap ht. next_index ht (int i) = int j" for i
    using ncap_pos [OF wf] by (auto simp: next_index_int [OF wf] intro!: exI [of _ "Suc i mod ncap ht"])
  then show ?thesis using ok step
    by (cases "(ht, h, key, d', g)" rule: get_step.cases) (auto simp: bind_eq_Some_conv split: if_splits)
qed

lemma decide_same:
  assumes "ht_wf ht d" "length d' = length d" "drop (data_base ht) d' = drop (data_base ht) d"
  shows "get_step ht h key d' (ReadSlot n idx slot) = get_step ht h key d (ReadSlot n idx slot)"
proof -
  have "ht_wf ht d'" using assms(1,2) ht_wf_cong [of d' d ht] by simp
  then show ?thesis using assms(1) data_cong [OF assms(2,3)]
    by (simp add: matchKeyAt_eq getValue_eq cong: if_cong)
qed

text \<open>Only the load of the deleted slot's status can tell the two memories apart.\<close>

lemma step_same:
  assumes wf: "ht_wf ht d" and i: "i < ncap ht" and ok: "idx_ok ht g" and other: "\<And>n. g \<noteq> Probing (Suc n) (int i)"
  shows "get_step ht h key (tomb_slot ht d i) g = get_step ht h key d g"
proof -
  let ?d = "tomb_slot ht d i"
  note wf' = ht_wf_tomb [OF wf i]
  have at: "slot_at ht ?d j = (if j = i then (slot_at ht d j)\<lparr>Status := SlotTomb\<rparr> else slot_at ht d j)" if "j < ncap ht" for j
    using slot_at_tomb [OF wf i that] by simp
  show ?thesis
  proof (cases g)
    case (Probing k idx)
    then obtain j where j: "j < ncap ht" "idx = int j" using ok by auto
    then show ?thesis using Probing other slot_loads(1) [OF wf j(1)] slot_loads(1) [OF wf' j(1)] at [OF j(1)]
      by (cases k) auto
  next
    case (ReadStatus k idx status)
    then obtain j where j: "j < ncap ht" "idx = int j" using ok by auto
    then show ?thesis using ReadStatus slot_loads(2) [OF wf j(1)] slot_loads(2) [OF wf' j(1)] at [OF j(1)] by auto
  next
    case (ReadHash k idx status x)
    then obtain j where j: "j < ncap ht" "idx = int j" using ok by auto
    then show ?thesis using ReadHash slot_loads(3) [OF wf j(1)] slot_loads(3) [OF wf' j(1)] at [OF j(1)] by auto
  next
    case (ReadOffset k idx status x ofs)
    then obtain j where j: "j < ncap ht" "idx = int j" using ok by auto
    then show ?thesis using ReadOffset slot_loads(4) [OF wf j(1)] slot_loads(4) [OF wf' j(1)] at [OF j(1)] by auto
  next
    case (ReadSlot k idx slot)
    then show ?thesis using decide_same [OF wf length_tomb_slot [OF wf i] drop_tomb_slot [OF wf i]] by simp
  qed simp
qed

text \<open>At the deleted slot: the lookup that loaded its status before the store finds what was there, or goes on.\<close>

lemma finish_slot:
  assumes wf: "ht_wf ht d" and i: "i < ncap ht"
  shows "finish ht h key d (ReadStatus n (int i) status) =
      finish ht h key d (ReadSlot n (int i) ((slot_at ht d i)\<lparr>Status := status\<rparr>))"
    "finish ht h key d (Probing (Suc n) (int i)) = finish ht h key d (ReadStatus n (int i) (Status (slot_at ht d i)))"
proof -
  note ld = slot_loads [OF wf i]
  have "finish ht h key d (ReadStatus n (int i) status) = finish ht h key d (ReadHash n (int i) status (Hash (slot_at ht d i)))"
    by (rule finish_step) (use ld(2) in simp)
  also have "\<dots> = finish ht h key d (ReadOffset n (int i) status (Hash (slot_at ht d i)) (Offset (slot_at ht d i)))"
    by (rule finish_step) (use ld(3) in simp)
  also have "\<dots> = finish ht h key d (ReadSlot n (int i) ((slot_at ht d i)\<lparr>Status := status\<rparr>))"
    by (rule finish_step) (use ld(4) in \<open>cases "slot_at ht d i"; simp\<close>)
  finally show "finish ht h key d (ReadStatus n (int i) status) =
      finish ht h key d (ReadSlot n (int i) ((slot_at ht d i)\<lparr>Status := status\<rparr>))" .
  show "finish ht h key d (Probing (Suc n) (int i)) = finish ht h key d (ReadStatus n (int i) (Status (slot_at ht d i)))"
    by (rule finish_step) (use ld(1) in simp)
qed

lemma finish_deleted:
  assumes wf: "ht_wf ht d" and i: "i < ncap ht" "slot_used ht d i"
  defines "d' \<equiv> tomb_slot ht d i"
  shows "finish ht h key d' (ReadStatus n (int i) SlotUsed) \<in>
    {finish ht h key d (Probing (Suc n) (int i)), finish ht h key d' (Probing (Suc n) (int i))}"
proof -
  let ?s = "slot_at ht d i" and ?next = "Probing n (next_index ht (int i))"
  have wf': "ht_wf ht d'" unfolding d'_def by (rule ht_wf_tomb [OF wf i(1)])
  have s': "slot_at ht d' i = ?s\<lparr>Status := SlotTomb\<rparr>" by (simp add: d'_def slot_at_tomb [OF wf i(1) i(1)])
  have used: "?s\<lparr>Status := SlotUsed\<rparr> = ?s" using i(2) by (cases ?s) (simp add: slot_used_def)
  have same: "get_step ht h key d' (ReadSlot n (int i) ?s) = get_step ht h key d (ReadSlot n (int i) ?s)"
    unfolding d'_def by (rule decide_same [OF wf length_tomb_slot [OF wf i(1)] drop_tomb_slot [OF wf i(1)]])
  have old: "finish ht h key d' (ReadStatus n (int i) SlotUsed) = finish ht h key d' (ReadSlot n (int i) ?s)"
    using finish_slot(1) [OF wf' i(1), of h key n SlotUsed] used by (simp add: s' del: SlotUsed_def)
  have tomb: "finish ht h key d' (Probing (Suc n) (int i)) = finish ht h key d' ?next"
    unfolding finish_slot(2) [OF wf' i(1)] finish_slot(1) [OF wf' i(1)] by (rule finish_step) (simp add: s')
  have orig: "finish ht h key d (Probing (Suc n) (int i)) = finish ht h key d (ReadSlot n (int i) ?s)"
    unfolding finish_slot(2) [OF wf i(1)] finish_slot(1) [OF wf i(1)] by (cases ?s) simp
  show ?thesis
  proof (cases "slot_hit ht d h key i")
    case True
    then have hit: "get_step ht h key d (ReadSlot n (int i) ?s) = Some (Returned (slot_value ht d i, True))"
      by (simp add: matchKeyAt_eq [OF wf] getValue_eq [OF wf] slot_hit_def slot_used_def slot_value_def)
    then show ?thesis using finish_step [OF hit] finish_step [OF same [unfolded hit]] old orig by simp
  next
    case False
    then have miss: "get_step ht h key d (ReadSlot n (int i) ?s) = Some ?next"
      using i(2) by (auto simp: matchKeyAt_eq [OF wf] slot_hit_def slot_used_def)
    then show ?thesis using finish_step [OF same [unfolded miss]] old tomb by simp
  qed
qed

section \<open>A lookup during a deletion\<close>

inductive get_while_deleting :: "hash_table \<Rightarrow> u64 \<Rightarrow> bytes \<Rightarrow> bytes \<Rightarrow> bytes \<Rightarrow> bool \<Rightarrow> get_state \<Rightarrow> bool" for ht h key d d' where
  \<comment> \<open>\<open>d\<close> and \<open>d'\<close> are the memory before and after the store, the flag tells whether it has been made\<close>
  begin_get: "get_while_deleting ht h key d d' False (get_start ht h)"
| load: "get_while_deleting ht h key d d' deleted g \<Longrightarrow>
    get_step ht h key (if deleted then d' else d) g = Some g' \<Longrightarrow> get_while_deleting ht h key d d' deleted g'"
| delete: "get_while_deleting ht h key d d' False g \<Longrightarrow> get_while_deleting ht h key d d' True g"

lemma get_while_deleting_inv:
  assumes run: "get_while_deleting ht h key d (tomb_slot ht d i) deleted g"
    and wf: "ht_wf ht d" and i: "i < ncap ht" "slot_used ht d i"
  defines "d' \<equiv> tomb_slot ht d i"
  shows "idx_ok ht g \<and> (\<not> deleted \<longrightarrow> finish ht h key d g = finish ht h key d (get_start ht h)) \<and>
    finish ht h key d' g \<in> {finish ht h key d (get_start ht h), finish ht h key d' (get_start ht h)}"
  using run
proof (induction rule: get_while_deleting.induct)
  case begin_get
  then show ?case using idx_ok_start [OF wf] by simp
next
  case (load deleted g g')
  have ok: "idx_ok ht g'" using idx_ok_step [OF wf _ load.hyps(2)] load.IH by blast
  show ?case
  proof (cases deleted)
    case True
    then show ?thesis using ok load.IH finish_step [of ht h key d' g g'] load.hyps(2) by (simp add: d'_def)
  next
    case False
    then have step: "get_step ht h key d g = Some g'" using load.hyps(2) by simp
    have run: "finish ht h key d g' = finish ht h key d (get_start ht h)"
      using load.IH False finish_step [OF step] by simp
    show ?thesis
    proof (cases "\<exists>n. g = Probing (Suc n) (int i)")
      case True
      then obtain n where n: "g = Probing (Suc n) (int i)" by blast
      then have "g' = ReadStatus n (int i) SlotUsed"
        using step slot_loads(1) [OF wf i(1)] i(2) by (simp add: slot_used_def)
      then show ?thesis
        using finish_deleted [OF wf i, of h key n, folded d'_def] n load.IH False ok run finish_step [OF step] by auto
    next
      case other: False
      then have "get_step ht h key d' g = Some g'"
        using step_same [OF wf i(1), of g h key] load.IH step by (simp add: d'_def)
      then show ?thesis using ok load.IH run finish_step by metis
    qed
  qed
qed simp

text \<open>
  C8. Deletion is atomic for lookups: let a lookup run while another process deletes a key, the store of the
  deletion falling between any two of its loads. The lookup never panics, every one of its steps brings
  its return nearer, and it returns what it returns on the memory before or on the memory after the
  deletion; for every other key these are the same.
\<close>

theorem get_during_delete_is_atomic:
  assumes tab: "table_inv ht d" and del: "HashTable_Delete ht d h0 key0 = Some (True, d')"
    and run: "get_while_deleting ht h key d d' deleted g"
  shows "(\<forall>r. g = Returned r \<longrightarrow> Some r \<in> {HashTable_Get ht d h key, HashTable_Get ht d' h key}) \<and>
    ((h, key) \<noteq> (h0, key0) \<longrightarrow> HashTable_Get ht d' h key = HashTable_Get ht d h key) \<and>
    (\<exists>g'. get_step ht h key (if deleted then d' else d) g = Some g' \<and>
      (loads_left g \<noteq> 0 \<longrightarrow> loads_left g' < loads_left g))"
proof -
  have wf: "ht_wf ht d" using tab by simp
  obtain i where i: "first_hit ht d h0 key0 = Some i" "d' = tomb_slot ht d i"
    using del by (auto simp: Delete_walk [OF wf] walk_first_hit [OF tab] delete_result_def split: option.splits)
  note hit = first_hit_Some [OF wf i(1)]
  have tab': "table_inv ht d'" unfolding i(2) by (rule table_inv_tomb [OF tab hit(1)])
  note inv = get_while_deleting_inv [OF run [unfolded i(2)] wf hit(1) slot_hit_used [OF hit(2)], folded i(2)]
  have get: "finish ht h key d (get_start ht h) \<noteq> None" "finish ht h key d' (get_start ht h) \<noteq> None"
    by (simp_all add: finish_start Get_lookup [OF tab] Get_lookup [OF tab'])
  have "HashTable_Get ht d' h key = HashTable_Get ht d h key" if "(h, key) \<noteq> (h0, key0)"
  proof -
    have "\<not> slot_hit ht d h key i" using that hit(2) by (auto simp: slot_hit_def)
    then show ?thesis unfolding Get_lookup [OF tab] Get_lookup [OF tab'] by (simp add: i(2) lookup_tomb_other [OF wf hit(1)])
  qed
  moreover have "Some r \<in> {HashTable_Get ht d h key, HashTable_Get ht d' h key}" if "g = Returned r" for r
  proof -
    have "Some (Returned r) \<in> {map_option Returned (HashTable_Get ht d h key), map_option Returned (HashTable_Get ht d' h key)}"
      using inv that by (simp add: finish_start)
    then show ?thesis by (cases "HashTable_Get ht d h key"; cases "HashTable_Get ht d' h key") auto
  qed
  moreover have "finish ht h key (if deleted then d' else d) g \<noteq> None"
    using inv get by (cases deleted) auto
  ultimately show ?thesis using finish_None by blast
qed

section \<open>An example\<close>

text \<open>The lookup has loaded the status of the slot when its key is deleted.\<close>

theorem get_during_delete_is_atomic_witness:
  "\<exists>d' g'. HashTable_Delete demo_ht demo_data1 7 [9] = Some (True, d') \<and>
    get_while_deleting demo_ht 7 [9] demo_data1 d' True (ReadStatus 1 1 1) \<and>
    get_step demo_ht 7 [9] d' (ReadStatus 1 1 1) = Some g' \<and> loads_left g' < 10"
proof -
  obtain d' where del: "HashTable_Delete demo_ht demo_data1 7 [9] = Some (True, d')"
    using demo_first_hit demo_data1_inv by (auto simp: Delete_walk walk_first_hit delete_result_def)
  have "get_step demo_ht 7 [9] demo_data1 (get_start demo_ht 7) = Some (ReadStatus 1 1 1)" by code_simp
  then have "get_while_deleting demo_ht 7 [9] demo_data1 d' False (ReadStatus 1 1 1)"
    using get_while_deleting.load [OF get_while_deleting.begin_get] by simp
  note run = get_while_deleting.delete [OF this]
  from get_during_delete_is_atomic [OF demo_data1_inv del run] show ?thesis using del run by auto
qed

end
