(* ===== verification/Table_Map.thy ===== *)
theory Table_Map
  imports Hash_Table_Props
begin

text \<open>
  The hash table as a bounded map. The locale \<open>bounded_map\<close> is the contract of a table that is used the way
  the package uses it (a key is inserted once, its chunk is written before): lookups, insertions up to
  the capacity, deletions. What a client sees over any history of calls is proved there; the
  interpretation \<open>tm\<close> discharges the laws for \<open>HashTable\<close>.
\<close>

section \<open>The contract\<close>

datatype ('k, 'e) call = Ins 'k 'e | Del 'k | Look 'k

datatype 'v answer = Done bool | Found "'v option"

text \<open>
  The abstract table: a map with room for \<open>cap\<close> keys. \<open>chunk k e\<close> is the value of the entry \<open>e\<close>, if \<open>e\<close> is an
  entry for \<open>k\<close>. A history is \<open>allowed\<close> if every insertion that finds room brings an entry for a new key.
\<close>

fun map_call :: "nat \<Rightarrow> ('k \<Rightarrow> 'e \<Rightarrow> 'v option) \<Rightarrow> ('k, 'e) call \<Rightarrow> ('k \<rightharpoonup> 'v) \<Rightarrow> 'v answer \<times> ('k \<rightharpoonup> 'v)" where
  "map_call cap chunk (Ins k e) m = (if card (dom m) < cap then (Done True, m(k := chunk k e)) else (Done False, m))"
| "map_call cap chunk (Del k) m = (Done (m k \<noteq> None), m(k := None))"
| "map_call cap chunk (Look k) m = (Found (m k), m)"

fun map_calls :: "nat \<Rightarrow> ('k \<Rightarrow> 'e \<Rightarrow> 'v option) \<Rightarrow> ('k, 'e) call list \<Rightarrow> ('k \<rightharpoonup> 'v) \<Rightarrow> 'v answer list \<times> ('k \<rightharpoonup> 'v)" where
  "map_calls cap chunk [] m = ([], m)"
| "map_calls cap chunk (c # cs) m =
    (let (a, m) = map_call cap chunk c m; (as, m) = map_calls cap chunk cs m in (a # as, m))"

fun allowed :: "nat \<Rightarrow> ('k \<Rightarrow> 'e \<Rightarrow> 'v option) \<Rightarrow> ('k, 'e) call list \<Rightarrow> ('k \<rightharpoonup> 'v) \<Rightarrow> bool" where
  "allowed cap chunk [] m \<longleftrightarrow> True"
| "allowed cap chunk (c # cs) m \<longleftrightarrow>
    (case c of Ins k e \<Rightarrow> card (dom m) < cap \<longrightarrow> m k = None \<and> chunk k e \<noteq> None | _ \<Rightarrow> True) \<and>
    allowed cap chunk cs (snd (map_call cap chunk c m))"

text \<open>The same calls on a table with operations \<open>ins\<close>, \<open>del\<close> and \<open>look\<close>, any of which may panic.\<close>

fun table_call ::
  "('d \<Rightarrow> 'k \<Rightarrow> 'e \<Rightarrow> (bool \<times> 'd) option) \<Rightarrow> ('d \<Rightarrow> 'k \<Rightarrow> (bool \<times> 'd) option) \<Rightarrow> ('d \<Rightarrow> 'k \<Rightarrow> 'v option option) \<Rightarrow>
    ('k, 'e) call \<Rightarrow> 'd \<Rightarrow> ('v answer \<times> 'd) option" where
  "table_call ins del look (Ins k e) d = do { (ok, d) \<leftarrow> ins d k e; Some (Done ok, d) }"
| "table_call ins del look (Del k) d = do { (ok, d) \<leftarrow> del d k; Some (Done ok, d) }"
| "table_call ins del look (Look k) d = do { r \<leftarrow> look d k; Some (Found r, d) }"

fun table_calls ::
  "('d \<Rightarrow> 'k \<Rightarrow> 'e \<Rightarrow> (bool \<times> 'd) option) \<Rightarrow> ('d \<Rightarrow> 'k \<Rightarrow> (bool \<times> 'd) option) \<Rightarrow> ('d \<Rightarrow> 'k \<Rightarrow> 'v option option) \<Rightarrow>
    ('k, 'e) call list \<Rightarrow> 'd \<Rightarrow> ('v answer list \<times> 'd) option" where
  "table_calls ins del look [] d = Some ([], d)"
| "table_calls ins del look (c # cs) d =
    do { (a, d) \<leftarrow> table_call ins del look c d; (as, d) \<leftarrow> table_calls ins del look cs d; Some (a # as, d) }"

locale bounded_map =
  fixes inv :: "'d \<Rightarrow> bool" and content :: "'d \<Rightarrow> 'k \<rightharpoonup> 'v" and cap :: nat
    and rest :: "'d \<Rightarrow> 'r" and chunk :: "'d \<Rightarrow> 'k \<Rightarrow> 'e \<Rightarrow> 'v option"
    and ins :: "'d \<Rightarrow> 'k \<Rightarrow> 'e \<Rightarrow> (bool \<times> 'd) option" and del :: "'d \<Rightarrow> 'k \<Rightarrow> (bool \<times> 'd) option"
    and look :: "'d \<Rightarrow> 'k \<Rightarrow> 'v option option"
  assumes chunk_rest: "rest d' = rest d \<Longrightarrow> chunk d' = chunk d"
    and look: "inv d \<Longrightarrow> look d k = Some (content d k)"
    and ins_full: "inv d \<Longrightarrow> \<not> card (dom (content d)) < cap \<Longrightarrow> ins d k e = Some (False, d)"
    and ins_new: "inv d \<Longrightarrow> card (dom (content d)) < cap \<Longrightarrow> content d k = None \<Longrightarrow> chunk d k e \<noteq> None \<Longrightarrow>
      \<exists>d'. ins d k e = Some (True, d') \<and> inv d' \<and> content d' = (content d)(k := chunk d k e) \<and> rest d' = rest d"
    and del: "inv d \<Longrightarrow>
      \<exists>d'. del d k = Some (content d k \<noteq> None, d') \<and> inv d' \<and> content d' = (content d)(k := None) \<and> rest d' = rest d"
begin

lemma call_refines:
  assumes "inv d" "allowed cap (chunk d) [c] (content d)"
  shows "\<exists>a d'. table_call ins del look c d = Some (a, d') \<and> inv d' \<and> rest d' = rest d \<and> (a, content d') = map_call cap (chunk d) c (content d)"
proof (cases c)
  case (Ins k e)
  show ?thesis
  proof (cases "card (dom (content d)) < cap")
    case True
    then show ?thesis using assms ins_new [of d k e] Ins by auto
  qed (use assms(1) ins_full [of d k e] Ins in auto)
next
  case (Del k)
  then show ?thesis using del [OF assms(1), of k] by auto
qed (use assms(1) look in auto)

lemma history:
  assumes "inv d" "allowed cap (chunk d) cs (content d)"
  shows "\<exists>as d'. table_calls ins del look cs d = Some (as, d') \<and> inv d' \<and> rest d' = rest d \<and>
    (as, content d') = map_calls cap (chunk d) cs (content d)"
  using assms
proof (induction cs arbitrary: d)
  case (Cons c cs)
  obtain a d1 where 1: "table_call ins del look c d = Some (a, d1)" "inv d1" "rest d1 = rest d"
      "(a, content d1) = map_call cap (chunk d) c (content d)"
    using call_refines [OF Cons.prems(1), of c] Cons.prems(2) by auto
  have ch: "chunk d1 = chunk d" by (rule chunk_rest [OF 1(3)])
  have "allowed cap (chunk d1) cs (content d1)" using Cons.prems(2) 1(4) [symmetric] by (simp add: ch)
  from Cons.IH [OF 1(2) this] show ?case
    using 1 by (auto simp: ch split: prod.splits)
qed simp

end

section \<open>The hash table keeps it\<close>

text \<open>
  A table that was only used this way: every slot is free or in use, a used slot's chunk has a key, and
  no key with its hash has two slots. The map is over hashes and keys together; a value is \<open>None\<close> where
  \<open>getValue\<close> returns nil.
\<close>

definition index_inv :: "hash_table \<Rightarrow> bytes \<Rightarrow> bool" where
  "index_inv ht data \<longleftrightarrow> table_inv ht data \<and>
    (\<forall>i<ncap ht. slot_free ht data i \<or> (slot_used ht data i \<and> key_at ht data (Offset (slot_at ht data i)) \<noteq> None)) \<and>
    (\<forall>i<ncap ht. \<forall>j<ncap ht. \<forall>h key. slot_hit ht data h key i \<longrightarrow> slot_hit ht data h key j \<longrightarrow> i = j)"

definition table_map :: "hash_table \<Rightarrow> bytes \<Rightarrow> u64 \<times> bytes \<rightharpoonup> bytes option" where
  "table_map ht data hk = lookup ht data (fst hk) (snd hk)"

definition table_rest :: "hash_table \<Rightarrow> bytes \<Rightarrow> nat \<times> bytes \<times> bytes" where
  \<comment> \<open>everything but the slots\<close>
  "table_rest ht data = (length data, take (nat (slotBase ht)) data, drop (data_base ht) data)"

definition table_chunk :: "hash_table \<Rightarrow> bytes \<Rightarrow> u64 \<times> bytes \<Rightarrow> u32 \<times> u32 \<Rightarrow> bytes option option" where
  "table_chunk ht data hk ov =
    (if key_at ht data (fst ov) = Some (snd hk) then Some (value_at ht data (fst ov) (snd ov)) else None)"

definition table_ins :: "hash_table \<Rightarrow> bytes \<Rightarrow> u64 \<times> bytes \<Rightarrow> u32 \<times> u32 \<Rightarrow> (bool \<times> bytes) option" where
  "table_ins ht data hk ov = HashTable_Insert ht data (fst hk) (snd hk) (fst ov) (snd ov)"

definition table_del :: "hash_table \<Rightarrow> bytes \<Rightarrow> u64 \<times> bytes \<Rightarrow> (bool \<times> bytes) option" where
  "table_del ht data hk = HashTable_Delete ht data (fst hk) (snd hk)"

definition table_look :: "hash_table \<Rightarrow> bytes \<Rightarrow> u64 \<times> bytes \<Rightarrow> bytes option option option" where
  \<comment> \<open>\<open>Get\<close>, its two results in one\<close>
  "table_look ht data hk =
    map_option (\<lambda>(v, ok). if ok then Some v else None) (HashTable_Get ht data (fst hk) (snd hk))"

lemma lookup_in_dom: "ht_wf ht data \<Longrightarrow> hk \<in> dom (table_map ht data) \<longleftrightarrow> (\<exists>i<ncap ht. slot_hit ht data (fst hk) (snd hk) i)"
  by (auto simp: table_map_def dom_def lookup_def first_hit_None)

lemma index_invD:
  assumes "index_inv ht data"
  shows "table_inv ht data" "ht_wf ht data"
    and "i < ncap ht \<Longrightarrow> \<not> slot_used ht data i \<Longrightarrow> slot_free ht data i"
    and "i < ncap ht \<Longrightarrow> slot_used ht data i \<Longrightarrow> \<exists>key. key_at ht data (Offset (slot_at ht data i)) = Some key"
    and "slot_hit ht data h key i \<Longrightarrow> slot_hit ht data h key j \<Longrightarrow> i < ncap ht \<Longrightarrow> j < ncap ht \<Longrightarrow> i = j"
  using assms unfolding index_inv_def by (auto dest: slot_free_not_used)

lemma slot_free_fill:
  "ht_wf ht data \<Longrightarrow> j < ncap ht \<Longrightarrow> i < ncap ht \<Longrightarrow>
    slot_free ht (fill_slot ht data j h ofs vl) i \<longleftrightarrow> i \<noteq> j \<and> slot_free ht data i"
  by (simp add: slot_free_def slot_at_fill)

lemma slot_free_tomb:
  "ht_wf ht data \<Longrightarrow> j < ncap ht \<Longrightarrow> i < ncap ht \<Longrightarrow>
    slot_free ht (tomb_slot ht data j) i \<longleftrightarrow> i = j \<or> slot_free ht data i"
  by (simp add: slot_free_def slot_at_tomb)

lemma card_table_map:
  assumes inv: "index_inv ht data"
  shows "card (dom (table_map ht data)) = used_count ht data"
proof -
  note wf = index_invD(2) [OF inv]
  let ?U = "{i. i < ncap ht \<and> slot_used ht data i}"
  define f where "f i = (Hash (slot_at ht data i), the (key_at ht data (Offset (slot_at ht data i))))" for i
  have hit: "slot_hit ht data (fst (f i)) (snd (f i)) i" if "i \<in> ?U" for i
    using that index_invD(4) [OF inv, of i] by (auto simp: f_def slot_hit_def)
  have "dom (table_map ht data) = f ` ?U"
  proof (intro set_eqI iffI)
    fix hk assume "hk \<in> dom (table_map ht data)"
    then obtain i where i: "i < ncap ht" "slot_hit ht data (fst hk) (snd hk) i" using lookup_in_dom [OF wf] by blast
    then have "hk = f i" "i \<in> ?U" by (auto simp: f_def slot_hit_def prod_eq_iff)
    then show "hk \<in> f ` ?U" by blast
  next
    fix hk assume "hk \<in> f ` ?U"
    then show "hk \<in> dom (table_map ht data)" using hit by (auto simp: lookup_in_dom [OF wf])
  qed
  moreover have "inj_on f ?U"
  proof (rule inj_onI)
    fix i j assume "i \<in> ?U" "j \<in> ?U" "f i = f j"
    then show "i = j" using hit [of i] hit [of j] index_invD(5) [OF inv] by auto
  qed
  ultimately show ?thesis by (simp add: card_image used_count_def)
qed

lemma free_slot_exists:
  assumes inv: "index_inv ht data"
  shows "free_walk ht data h = None \<longleftrightarrow> \<not> used_count ht data < ncap ht"
proof -
  let ?U = "{i. i < ncap ht \<and> slot_used ht data i}"
  have used: "slot_used ht data i \<longleftrightarrow> \<not> slot_free ht data i" if "i < ncap ht" for i
    using index_invD(3) [OF inv that] slot_free_not_used by blast
  have "free_walk ht data h = None \<longleftrightarrow> ?U = {..<ncap ht}"
    unfolding free_walk_None [OF index_invD(2) [OF inv]] using used by blast
  also have "\<dots> \<longleftrightarrow> \<not> card ?U < ncap ht"
  proof
    show "\<not> card ?U < ncap ht \<Longrightarrow> ?U = {..<ncap ht}"
      using card_seteq [of "{..<ncap ht}" ?U] by auto
  qed simp
  finally show ?thesis by (simp add: used_count_def)
qed

lemma table_ins_new:
  assumes inv: "index_inv ht data" and room: "used_count ht data < ncap ht"
    and new: "table_map ht data hk = None" and chunk: "table_chunk ht data hk ov \<noteq> None"
  shows "\<exists>d. table_ins ht data hk ov = Some (True, d) \<and> index_inv ht d \<and>
    table_map ht d = (table_map ht data)(hk := table_chunk ht data hk ov) \<and> table_rest ht d = table_rest ht data"
proof -
  obtain h key ofs vl where e: "hk = (h, key)" "ov = (ofs, vl)" by (cases hk, cases ov)
  note wf = index_invD(2) [OF inv]
  obtain j where j: "free_walk ht data h = Some j" using free_slot_exists [OF inv, of h] room by auto
  note jn = free_walk_Some(1) [OF wf j] slot_free_not_used [OF free_walk_Some(2) [OF wf j]]
  let ?d = "fill_slot ht data j h ofs vl"
  have key: "key_at ht data ofs = Some key" using chunk by (auto simp: table_chunk_def e split: if_splits)
  have none: "\<forall>i<ncap ht. \<not> slot_hit ht data h key i"
    using new by (simp add: table_map_def e lookup_None first_hit_None [OF wf])
  have "table_ins ht data hk ov = Some (True, ?d)"
    by (simp add: table_ins_def e Insert_walk [OF wf] insert_result_def j)
  moreover have "index_inv ht ?d"
    unfolding index_inv_def
  proof (intro conjI allI impI)
    show "table_inv ht ?d" by (rule table_inv_fill [OF index_invD(1) [OF inv] j])
    show "slot_free ht ?d i \<or> slot_used ht ?d i \<and> key_at ht ?d (Offset (slot_at ht ?d i)) \<noteq> None" if i: "i < ncap ht" for i
    proof (cases "i = j")
      case True
      then have "slot_at ht ?d i = \<lparr>Hash = h, Offset = ofs, VLen = vl, Status = SlotUsed\<rparr>" "slot_used ht ?d i"
        using slot_at_fill [OF wf jn(1) i] after_fill(1) [OF wf jn(1) i] by simp_all
      then show ?thesis using key by (simp add: fill_data [OF wf jn(1) wf jn(1)])
    next
      case False
      then show ?thesis using index_invD(3,4) [OF inv i]
        by (auto simp: after_fill(1) [OF wf jn(1) i] slot_free_fill [OF wf jn(1) i] slot_at_fill [OF wf jn(1) i] fill_data [OF wf jn(1) wf jn(1)])
    qed
    show "i = m" if i: "i < ncap ht" "m < ncap ht" "slot_hit ht ?d h' k' i" "slot_hit ht ?d h' k' m" for i m h' k'
      using i(3,4) none key index_invD(5) [OF inv _ _ i(1,2), of h' k'] i(1,2)
      unfolding after_fill(3) [OF wf jn(1) i(1)] after_fill(3) [OF wf jn(1) i(2)] by (auto split: if_splits)
  qed
  moreover have "table_map ht ?d hk' = ((table_map ht data)(hk := table_chunk ht data hk ov)) hk'" for hk'
    using lookup_fill_same [OF wf jn key] lookup_fill_other [OF wf jn, of "fst hk'" h ofs "snd hk'" vl] new key
    by (cases "hk' = hk") (auto simp: table_map_def table_chunk_def e prod_eq_iff)
  moreover have "table_rest ht ?d = table_rest ht data"
    by (simp add: table_rest_def take_fill_slot [OF wf jn(1)] drop_fill_slot [OF wf jn(1)] length_fill_slot [OF wf jn(1)])
  ultimately show ?thesis by blast
qed

lemma table_del_hit:
  assumes inv: "index_inv ht data"
  shows "\<exists>d. table_del ht data hk = Some (table_map ht data hk \<noteq> None, d) \<and> index_inv ht d \<and>
    table_map ht d = (table_map ht data)(hk := None) \<and> table_rest ht d = table_rest ht data"
proof -
  obtain h key where e: "hk = (h, key)" by (cases hk)
  note wf = index_invD(2) [OF inv]
  have del: "table_del ht data hk = Some (delete_result ht data (first_hit ht data h key))"
    by (simp add: table_del_def e Delete_walk [OF wf] walk_first_hit [OF index_invD(1) [OF inv]])
  show ?thesis
  proof (cases "first_hit ht data h key")
    case None
    then show ?thesis using inv del by (auto simp: delete_result_def table_map_def e lookup_def)
  next
    case (Some j)
    note j = first_hit_Some [OF wf Some]
    let ?d = "tomb_slot ht data j"
    have only: "slot_hit ht data h' k' j \<Longrightarrow> (h', k') = (h, key)" for h' k' using j(2) by (auto simp: slot_hit_def)
    have "index_inv ht ?d"
      unfolding index_inv_def
    proof (intro conjI allI impI)
      show "table_inv ht ?d" by (rule table_inv_tomb [OF index_invD(1) [OF inv] j(1)])
      show "slot_free ht ?d i \<or> slot_used ht ?d i \<and> key_at ht ?d (Offset (slot_at ht ?d i)) \<noteq> None" if i: "i < ncap ht" for i
        using index_invD(3,4) [OF inv i]
        by (auto simp: after_tomb(1) [OF wf j(1) i] slot_free_tomb [OF wf j(1) i] slot_at_tomb [OF wf j(1) i] tomb_data [OF wf j(1) wf j(1)])
      show "i = m" if i: "i < ncap ht" "m < ncap ht" "slot_hit ht ?d h' k' i" "slot_hit ht ?d h' k' m" for i m h' k'
        using i(3,4) index_invD(5) [OF inv _ _ i(1,2), of h' k']
        unfolding after_tomb(3) [OF wf j(1) i(1)] after_tomb(3) [OF wf j(1) i(2)] by auto
    qed
    moreover have "table_map ht ?d hk' = ((table_map ht data)(hk := None)) hk'" for hk'
    proof (cases "hk' = hk")
      case True
      have "\<not> slot_hit ht ?d h key i" if i: "i < ncap ht" for i
        using index_invD(5) [OF inv _ j(2) i j(1)] by (auto simp: after_tomb(3) [OF wf j(1) i])
      then show ?thesis using True by (simp add: table_map_def e lookup_None first_hit_None [OF ht_wf_tomb [OF wf j(1)]])
    next
      case False
      then have "\<not> slot_hit ht data (fst hk') (snd hk') j" using only by (auto simp: e prod_eq_iff)
      then show ?thesis using False lookup_tomb_other [OF wf j(1)] by (simp add: table_map_def)
    qed
    moreover have "table_rest ht ?d = table_rest ht data"
      by (simp add: table_rest_def take_tomb_slot [OF wf j(1) order_refl] drop_tomb_slot [OF wf j(1)] length_tomb_slot [OF wf j(1)])
    moreover have "table_del ht data hk = Some (table_map ht data hk \<noteq> None, ?d)"
      using Some unfolding del by (simp add: delete_result_def table_map_def e lookup_def)
    ultimately show ?thesis by blast
  qed
qed

interpretation tm: bounded_map "index_inv ht" "table_map ht" "ncap ht" "table_rest ht" "table_chunk ht"
  "table_ins ht" "table_del ht" "table_look ht" for ht
proof
  show "table_chunk ht d' = table_chunk ht d" if "table_rest ht d' = table_rest ht d" for d d'
    using that data_cong [of d' d ht] by (intro ext) (auto simp: table_rest_def table_chunk_def)
next
  fix d :: bytes and hk :: "u64 \<times> bytes"
  assume "index_inv ht d"
  then show "table_look ht d hk = Some (table_map ht d hk)"
    by (simp add: table_look_def Get_lookup [OF index_invD(1)] lookup_result_def table_map_def split: option.split)
next
  fix d :: bytes and hk :: "u64 \<times> bytes" and ov :: "u32 \<times> u32"
  assume inv: "index_inv ht d" and full: "\<not> card (dom (table_map ht d)) < ncap ht"
  then have "free_walk ht d (fst hk) = None" by (simp add: free_slot_exists card_table_map)
  then show "table_ins ht d hk ov = Some (False, d)"
    by (simp add: table_ins_def Insert_walk [OF index_invD(2) [OF inv]] insert_result_def)
qed (use table_ins_new table_del_hit in \<open>simp_all add: card_table_map\<close>)

section \<open>Histories of a table\<close>

lemma fresh_index:
  assumes "0 \<le> sb" "sb + 24 * 2 ^ k \<le> db" "db \<le> int (length data)"
  shows "\<exists>d. InitHashTable data sb (2 ^ k) = Some (d, sb + 24 * 2 ^ k) \<and> length d = length data \<and>
    drop (nat db) d = drop (nat db) data \<and> index_inv (NewHashTable sb db (2 ^ k)) d \<and>
    table_map (NewHashTable sb db (2 ^ k)) d = Map.empty"
proof -
  let ?ht = "NewHashTable sb db (2 ^ k)"
  obtain d where d: "InitHashTable data sb (2 ^ k) = Some (d, sb + 24 * 2 ^ k)" "length d = length data"
      "\<And>p n. nat (sb + 24 * 2 ^ k) \<le> p \<Longrightarrow> rd p n d = rd p n data" "table_inv ?ht d"
      "\<And>h key. lookup ?ht d h key = None" "\<And>i. i < 2 ^ k \<Longrightarrow> Status (slot_at ?ht d i) = SlotEmpty"
    using InitHashTable_fresh [OF assms] by blast
  have cap: "ncap ?ht = 2 ^ k" by (simp add: ncap_def NewHashTable_def nat_power_eq)
  have "index_inv ?ht d"
    using d(4,6) by (simp add: index_inv_def slot_hit_def slot_used_def slot_free_def cap)
  moreover have "drop (nat db) d = drop (nat db) data" using d(2,3) assms by (simp add: drop_eq_rd)
  ultimately show ?thesis using d(1,2,5) by (auto simp: table_map_def fun_eq_iff)
qed

text \<open>
  C2. A hash table over its life: lay a table of \<open>2 ^ k\<close> slots out over any memory, then call \<open>Insert\<close>, \<open>Delete\<close>
  and \<open>Get\<close> in any order, inserting keys that are not there, each with a chunk that is. No call panics; each
  returns what it returns on a map with room for \<open>2 ^ k\<close> keys, whatever the hashes, the collisions and
  the tombstones left behind; a deleted slot is used again; no byte of the data region changes.
\<close>

theorem table_history:
  assumes region: "0 \<le> sb" "sb + 24 * 2 ^ k \<le> db" "db \<le> int (length data)"
  defines "ht \<equiv> NewHashTable sb db (2 ^ k)"
  assumes ok: "allowed (2 ^ k) (table_chunk ht data) calls Map.empty"
  shows "\<exists>d answers d'. InitHashTable data sb (2 ^ k) = Some (d, sb + 24 * 2 ^ k) \<and>
    table_calls (table_ins ht) (table_del ht) (table_look ht) calls d = Some (answers, d') \<and>
    (answers, table_map ht d') = map_calls (2 ^ k) (table_chunk ht data) calls Map.empty \<and>
    drop (nat db) d' = drop (nat db) data \<and> length d' = length data"
proof -
  obtain d where d: "InitHashTable data sb (2 ^ k) = Some (d, sb + 24 * 2 ^ k)" "length d = length data"
      "drop (nat db) d = drop (nat db) data" "index_inv ht d" "table_map ht d = Map.empty"
    using fresh_index [OF region] unfolding ht_def by blast
  have cap: "ncap ht = 2 ^ k" and base: "data_base ht = nat db"
    by (simp_all add: ht_def ncap_def data_base_def NewHashTable_def nat_power_eq)
  have ch: "table_chunk ht d = table_chunk ht data"
    using d(2,3) data_cong [of d data ht] by (intro ext) (auto simp: table_chunk_def base)
  have "allowed (ncap ht) (table_chunk ht d) calls (table_map ht d)" using ok by (simp add: ch cap d(5))
  from tm.history [OF d(4) this] show ?thesis using d(1-3,5) by (auto simp: ch cap table_rest_def base)
qed

text \<open>Two slots, three keys of one hash: the third insertion finds no room until a key is deleted.\<close>

definition demo_calls :: "(u64 \<times> bytes, u32 \<times> u32) call list" where
  "demo_calls = [Ins (7, [9]) (0, 1), Ins (7, [8]) (6, 1), Ins (7, [4]) (12, 0), Del (7, [9]),
    Ins (7, [4]) (12, 0), Look (7, [8]), Look (7, [9]), Look (7, [4]), Del (7, [9])]"

definition demo_region :: bytes where
  "demo_region = replicate 48 0 @ [1, 0, 0, 0, 9, 5] @ [1, 0, 0, 0, 8, 6] @ [1, 0, 0, 0, 4]"

lemma demo_chunks:
  "table_chunk (NewHashTable 0 48 2) demo_region (7, [9]) (0, 1) = Some (Some [5])"
  "table_chunk (NewHashTable 0 48 2) demo_region (7, [8]) (6, 1) = Some (Some [6])"
  "table_chunk (NewHashTable 0 48 2) demo_region (7, [4]) (12, 0) = Some (Some [])"
  "length demo_region = 65"
  by (code_simp, code_simp, code_simp) (simp add: demo_region_def)

theorem table_history_witness:
  "\<exists>d d'. InitHashTable demo_region 0 2 = Some (d, 48) \<and>
    table_calls (table_ins (NewHashTable 0 48 2)) (table_del (NewHashTable 0 48 2)) (table_look (NewHashTable 0 48 2))
      demo_calls d = Some ([Done True, Done True, Done False, Done True, Done True, Found (Some (Some [6])),
        Found None, Found (Some (Some [])), Done False], d')"
proof -
  note run = demo_chunks(1-3) demo_calls_def
  have "allowed (2 ^ 1) (table_chunk (NewHashTable 0 48 (2 ^ 1)) demo_region) demo_calls Map.empty"
    by (simp add: run)
  from table_history [OF _ _ _ this] show ?thesis by (auto simp: run demo_chunks(4))
qed

end
