(* ===== verification/Spec2Isabelle.thy ===== *)
theory Spec2Isabelle
  imports Reload Shutdown Early_Reader Concurrent_Load Concurrent_Insert Concurrent_Delete Table_Map
begin

text \<open>
  \<^bold>\<open>featcache\<close> is a read-mostly key-value cache in shared memory. A loader process creates a segment under
  \<open>/dev/shm\<close>, lays out a header, an open-addressed hash table and a data region in it, and fills them
  from a data source; reader processes map the segment and look keys up without locks or system
  calls; a small server answers their question for the segment's name over a Unix socket. This
  development models all of the Go code under \<open>src/pkg\<close>, \<open>src/cmd\<close> and \<open>src/examples\<close>, byte for byte, and
  proves what the parts promise each other.

  \<^bold>\<open>How the code is modelled.\<close> Memory is a list of bytes; a slice operation that Go would panic on is \<open>None\<close>
  (theory \<open>Prelude\<close>), an error value is a value of \<open>error\<close> (theory \<open>Errors\<close>), machine integers are words of
  their width, Go's \<open>int\<close> is \<open>int\<close> where it cannot overflow. Objects that several holders share (a
  \<open>*Segment\<close>, a mapping, a file) live in the record \<open>world\<close> and are named by numbers. What is not code of the
  repository is an argument: the kernel's refusals (\<open>sys\<close>), the file system (\<open>file_system\<close>), \<open>crypto/rand\<close>
  (a stream), the process seed of \<open>hash.go\<close>, the network (\<open>net\<close>), what \<open>AcceptUnix\<close> returns.

  \<^bold>\<open>The parts, and where they are.\<close>
  \<^item> \<open>types.go\<close>, \<open>header.go\<close>: \<open>Types\<close> (constants, \<open>Align\<close>, \<open>NextPow2\<close>), \<open>Encoding\<close> (\<open>encoding/binary\<close>), \<open>Header\<close>
    (the 64 bytes of the header as a record, and back).
  \<^item> \<open>hash.go\<close>: \<open>Hash\<close> (FNV-1a with a seed, the seed kept in the header, the loop that draws one).
  \<^item> \<open>hashtable.go\<close>: \<open>Hash_Table\<close> has the operations; \<open>Probe\<close> is the walk they share; \<open>Hash_Table_Refine\<close> shows that
    the loops are such walks; \<open>Hash_Table_Props\<close> has the invariant \<open>table_inv\<close> and the theorems of the operations.
    \<open>Table_Map\<close> is the contract of a bounded map as a locale, kept by the table over any history of calls.
    \<open>Concurrency\<close> takes \<open>Insert\<close> apart into its stores, \<open>Concurrent_Get\<close> takes \<open>Get\<close> apart into its loads and
    interleaves the two; \<open>Concurrent_Load\<close> does so for a whole \<open>Load\<close>, \<open>Concurrent_Delete\<close> for a \<open>Delete\<close>.
    \<open>Concurrent_Insert\<close> lets any number of \<open>Insert\<close>s race for the slots, with the compare-and-swap that can fail.
  \<^item> \<open>datasource.go\<close>: \<open>Data_Source\<close>; the interface is the locale \<open>data_source\<close>, interpreted by the three sources.
  \<^item> \<open>loader.go\<close>: \<open>Loader\<close> over the bytes of a segment, \<open>Loader_Segment\<close> over segment handles. \<open>Store\<close> is the invariant
    \<open>store_inv\<close> of header, table and chunks together and the map \<open>stored\<close> they hold; \<open>Loader_Props\<close> shows that \<open>Init\<close>,
    \<open>put\<close> and \<open>Load\<close> implement the abstract store \<open>abs_store\<close>; \<open>Loader_Limits\<close> looks at the edges,
    \<open>Estimate\<close> at tables whose size passes 32 bits. \<open>Concurrent_Init\<close> takes \<open>Init\<close> apart into its stores.
  \<^item> \<open>pkg/shm\<close>: \<open>Shm\<close> (both platforms), \<open>Shm_Props\<close> (all sequences of operations keep \<open>world_inv\<close>).
  \<^item> \<open>protocol.go\<close>, \<open>reader.go\<close>, \<open>server.go\<close>: \<open>Protocol\<close>, \<open>Reader\<close> (with the locale \<open>lookup_service\<close>), \<open>Server\<close>; \<open>Handshake\<close>
    connects a reader with the modelled server.
  \<^item> \<open>cmd/featload\<close>, \<open>examples/featload-demo\<close>: \<open>Featload\<close>.
  \<^item> The composition: \<open>System\<close> (a loader in one process, a reader in another), \<open>Reload\<close> (a second load, a restarted
    loader), \<open>Early_Reader\<close> (a reader that opens during \<open>Init\<close>, or after its panic), \<open>Shutdown\<close> (closing), and this theory.

  \<^bold>\<open>What the theorems show.\<close> Below: what a loader loads, any reader that opens the segment reads back, with or
  without the server in between; the demo prints what it should; and where the composition falls
  short (\<open>featload -source\<close> keeps one entry, a borrowed segment is not unlinked). In the component
  theories: \<open>Get\<close>, \<open>Insert\<close>, \<open>Delete\<close>, \<open>Iterate\<close> against the exhaustive search of the table; \<open>put\<close> and \<open>Load\<close> against the
  abstract store, errors included; the round trips of both messages and of the file formats; the
  invariant of the shared memory world; a lookup against the stores of a concurrent insertion, load and deletion;
  insertions against each other; what a reader that opens in the middle of \<open>Init\<close> reads for the rest of
  its life; and the behaviour after a second load, a restart and a close, and for large input files.

  \<^bold>\<open>Bounds and fuel.\<close> The loops over slots run \<open>capacity\<close> rounds, as in the code, and recurse on that number.
  \<open>Load\<close> reads until the source ends, so it takes fuel: one more than the number of entries is enough,
  and the theorems say so (\<open>length es < fuel\<close>). \<open>randSeed\<close> loops until it draws a seed that is not zero; it
  is a \<open>partial_function\<close>, and \<open>randSeed_first_nonzero\<close> says when it returns. The loader keeps its data
  end in 32 signed bits: the theorems on \<open>put\<close> and \<open>Load\<close> assume segments below 2 GB and data ends below
  \<open>2 ^ 31\<close>; \<open>put_after_region_full\<close> shows what happens above. \<open>Init\<close> is shown to
  lay out a correct store for estimates up to \<open>2 ^ 26\<close> entries, more than fit 2 GB; \<open>Load_large_file\<close> says what the
  32-bit arithmetic makes of the estimates from there to \<open>2 ^ 31\<close>.

  \<^bold>\<open>Not modelled.\<close> Logging, printing, \<open>flag.Parse\<close>, the delivery of signals and \<open>os.Exit\<close> are input and output of the
  Go library only. The dial timeout, file modes and \<open>Chmod\<close> have no counterpart. Goroutines: handlers of
  the server share nothing they write, so each is one step; \<open>Reader.Close\<close> holds its mutex, so it is
  one step. The lock-free reads of the table are interleaved with the stores of an insertion, a load or a
  deletion, and the opening of a reader, one step, with the stores of \<open>Init\<close>; each load and store is taken to be
  atomic and seen in program order, as on the x86 memory model for aligned accesses. Races between
  deletions and other writers are not treated: the code rules them out (single writer). A segment
  shorter than the header is a fault in \<open>headerOf\<close>, where Go would read beyond the mapping; so is, in \<open>getSlot\<close>, a status
  word that begins in the last three bytes of the slice, of which Go checks the first byte only. Tests, scripts and documents are not code
  of the program; where they contradict it, the manifest lists the finding.
\<close>

section \<open>Writer to reader\<close>

text \<open>
  C1. Writer to reader, across processes: a loader creates a segment below 2 GB and loads a map of at
  least one valid entry that fits; it reports all of them loaded. Any process that then opens the
  segment by its name, whatever its own hash seed, reads back exactly the map: the stored value for
  every key of it, a miss for every other key, one by one or in batches, at generation one.
\<close>

theorem loaded_map_is_read_back:
  assumes new: "files w (DevShmPath name) = None" "can_create sys name sz" "can_open sys' name sz"
    and es: "\<forall>kv\<in>set es. valid_entry kv" "distinct (map fst es)" "fits sz es"
    and rng: "randSeed rng = Some (seed, rng')" and fuel: "length es < fuel"
  shows "\<exists>l w1 l' src w2 r w3.
    NewLoader Linux sys w \<lparr>SegmentName = name, SegmentSize = int sz, LoadFactor = lf\<rparr> = Some (Inr l, w1) \<and>
    Segment_Load fuel pkgSeed rng map_data_source w1 l (NewMapDataSource es) =
      Some ((Loaded, int (length es), l', src), w2) \<and>
    NewReader pkgSeed' Linux sys' net w2 name [] = Some (Inr r, w3) \<and>
    (\<forall>k. Reader_Get w3 r k = Some (map_of es k, map_of es k \<noteq> None)) \<and>
    (\<forall>ks. Reader_GetBatch w3 r ks = Some (map (map_of es) ks, map (\<lambda>k. map_of es k \<noteq> None) ks)) \<and>
    Reader_GenCounter w3 r = Some 1"
proof -
  have "0 < sz" using es(3) by (simp add: fits_def)
  then obtain l w1 v obj where l: "NewLoader Linux sys w \<lparr>SegmentName = name, SegmentSize = int sz, LoadFactor = lf\<rparr> =
        Some (Inr l, w1)" "l_hashTable l = None" "live w1 (l_segment l) v obj (replicate sz 0)"
      "files w1 (DevShmPath name) = Some obj"
    using create_loader [OF new(1,2)] by blast
  obtain l' src w2 ht e data where ld:
      "Segment_Load fuel pkgSeed rng map_data_source w1 l (NewMapDataSource es) = Some ((Loaded, int (length es), l', src), w2)"
      "w2 = w1\<lparr>objects := (objects w1)(obj \<mapsto> data)\<rparr>" "store_inv ht e data" "length data = sz"
      "stored ht data = map_of es" "hdr_GenCounter (header_at data) = 1"
    using load_map_segment [OF l(3) refl l(2) es(1,2) _ rng fuel, of pkgSeed] es(3) by auto
  have "files w2 (DevShmPath name) = Some obj" "objects w2 obj = Some data" "can_open sys' name (length data)"
    using l(4) ld(2,4) new(3) by simp_all
  from open_reader [OF this(1,2) ld(3) this(3), of pkgSeed' net] ld(5,6) obtain r w3 where
      "NewReader pkgSeed' Linux sys' net w2 name [] = Some (Inr r, w3)" "reads (w3, r) (map_of es) 1"
    by auto
  then show ?thesis using l(1) ld(1) by (auto simp: reads_def)
qed

theorem loaded_map_is_read_back_witness:
  "\<exists>l w1 l' src w2 r w3.
    NewLoader Linux sys_all empty_world \<lparr>SegmentName = [97], SegmentSize = 300, LoadFactor = NaN\<rparr> = Some (Inr l, w1) \<and>
    Segment_Load 9 5 demo_rng map_data_source w1 l (NewMapDataSource [([1], [2, 3])]) = Some ((Loaded, 1, l', src), w2) \<and>
    NewReader 6 Linux sys_all \<lparr>net_dial = (\<lambda>_. None), net_write = buffer\<rparr> w2 [97] [] = Some (Inr r, w3) \<and>
    Reader_Get w3 r [1] = Some (Some [2, 3], True) \<and> Reader_Get w3 r [4] = Some (None, False)"
proof -
  let ?es = "[([1], [2, 3])] :: (bytes \<times> bytes) list"
  have c: "files empty_world (DevShmPath [97]) = None" "can_create sys_all [97] 300" "can_open sys_all [97] 300"
    by (simp_all add: empty_world_def can_create_def can_open_def sys_all_def)
  have "slots_for 1 = 2" by (simp add: slots_for_def NextPow2_def)
  then have f: "fits 300 ?es" by (simp add: fits_def)
  have e: "\<forall>kv\<in>set ?es. valid_entry kv" "distinct (map fst ?es)" by (simp_all add: valid_entry_def)
  from loaded_map_is_read_back [OF c e f demo_rng_seed, of 9 NaN 5 6 "\<lparr>net_dial = (\<lambda>_. None), net_write = buffer\<rparr>"]
  show ?thesis by force
qed

section \<open>Served segments\<close>

text \<open>
  C13. A loaded segment that a server serves, under a name that the protocol can carry (not empty, at most 64
  bytes, the last of them not NUL): a reader that knows only the server's address is turned away
  as busy while the loader loads or updates; in every other state it opens the segment, keeps the
  connection, and reads exactly the stored content.
\<close>

theorem served_segment_is_read:
  assumes seg: "live w s v obj data" "files w (DevShmPath name) = Some obj" "store_inv ht e data"
    and sv: "NewServer w s addr = Some (sv, w1)" "sv_segmentName sv = name"
    and name: "name \<noteq> []" "length name \<le> 64" "last name \<noteq> 0" "addr \<noteq> []"
    and net: "dials net addr w1 (SetState sv state)" and sys: "can_open sys name (length data)"
  shows "if state \<in> {StateLoading, StateUpdating}
    then NewReaderViaUDS pkgSeed Linux sys net w1 addr = Some (Inl (ErrLoaderBusy state), w1)
    else \<exists>r w2. NewReaderViaUDS pkgSeed Linux sys net w1 addr = Some (Inr r, w2) \<and> r_conn r = ConnOpen \<and>
      (\<forall>k. Reader_Get w2 r k = Some (stored ht data k, stored ht data k \<noteq> None)) \<and>
      Reader_GenCounter w2 r = Some (hdr_GenCounter (header_at data))"
proof -
  note b = borrow_live [OF sv(1)]
  have live1: "live w1 s v obj data" by (rule b(1) [OF seg(1)])
  have L: "64 \<le> length data" using store_invD(2,8) [OF seg(3)] data_base_le [of ht data] by linarith
  have serves: "serves w1 (SetState sv state) data"
    using live1 L b(4) by (auto simp: serves_def live_def SetState_def view_bytes_def)
  have dn: "decoded_name (sv_segmentName (SetState sv state)) = name"
    using decoded_name_id [OF name(1-3)] sv(2) by (simp add: SetState_def)
  have st: "sv_state (SetState sv state) = state" by (simp add: SetState_def)
  note out = connect_outcome [OF net serves, unfolded dn st]
  have f1: "files w1 (DevShmPath name) = Some obj" "objects w1 obj = Some data"
    using seg(1,2) b(2,3) by (simp_all add: live_def)
  show ?thesis
  proof (cases "state \<in> {StateLoading, StateUpdating}")
    case True
    then show ?thesis using name(4) unfolding NewReaderViaUDS_def NewReader_def out by simp
  next
    case False
    obtain t w2 where o: "linux_openSegment sys w1 name = (Inr t, w2)"
      using f1 sys by (simp add: linux_openSegment_def can_open_def Let_def)
    let ?r = "nil_reader\<lparr>r_conn := ConnOpen, r_segment := Some t\<rparr>"
    obtain r where r: "initHashTable pkgSeed w2 ?r = Some r" "r_conn r = ConnOpen"
        "reader_usable (w2, r)" "reader_content (w2, r) = stored ht data"
        "Reader_GenCounter w2 r = Some (hdr_GenCounter (header_at data))"
      using reader_over_store [OF seg(3) open_live(1) [OF o f1], of ?r pkgSeed] by auto
    have "NewReaderViaUDS pkgSeed Linux sys net w1 addr = Some (Inr r, w2)"
      using False name(1,4) r(1) unfolding NewReaderViaUDS_def NewReader_def out by (simp add: OpenSegment_def o)
    then show ?thesis using False r Reader_Get_content [OF r(3)] by auto
  qed
qed

text \<open>A served segment to evaluate them on: \<open>{01 -> 02 03}\<close> in a segment of 300 bytes called \<open>a\<close>.\<close>

lemma demo_served:
  "\<exists>w (l :: loader) v obj ht e data. live w (l_segment l) v obj data \<and> files w (DevShmPath [97]) = Some obj \<and> store_inv ht e data \<and>
    length data = 300 \<and> stored ht data = [[1] \<mapsto> [2, 3]] \<and>
    segments w (l_segment l) = Some \<lparr>seg_name = [97], seg_data = Some v, seg_cap = 300,
      seg_mapped = True, seg_backedByFile = True\<rparr>"
proof -
  let ?es = "[([1], [2, 3])] :: (bytes \<times> bytes) list"
  have c: "files empty_world (DevShmPath [97]) = None" "can_create sys_all [97] 300"
    by (simp_all add: empty_world_def can_create_def sys_all_def)
  obtain w v obj and l :: loader where l: "l_hashTable l = None" "live w (l_segment l) v obj (replicate 300 0)"
      "files w (DevShmPath [97]) = Some obj"
      "segments w (l_segment l) = Some \<lparr>seg_name = [97], seg_data = Some v, seg_cap = int 300,
        seg_mapped = True, seg_backedByFile = True\<rparr>"
    using create_loader [OF c zero_less_numeral, of NaN] by blast
  have "slots_for 1 = 2" by (simp add: slots_for_def NextPow2_def)
  then have f: "fits (length (replicate 300 (0 :: byte))) ?es" by (simp add: fits_def)
  have e: "\<forall>kv\<in>set ?es. valid_entry kv" "distinct (map fst ?es)" by (simp_all add: valid_entry_def)
  obtain ht x data where d: "store_inv ht x data" "length data = length (replicate 300 (0 :: byte))"
      "stored ht data = map_of ?es"
    using load_map_segment [OF l(2) refl l(1) e f demo_rng_seed, of 9 5] by force
  have "live (w\<lparr>objects := (objects w)(obj \<mapsto> data)\<rparr>) (l_segment l) v obj data"
    by (rule live_update [OF l(2) d(2)])
  with l(3,4) d show ?thesis
    by (intro exI [of _ "w\<lparr>objects := (objects w)(obj \<mapsto> data)\<rparr>"] exI [of _ l] exI [of _ v] exI [of _ obj]
        exI [of _ ht] exI [of _ x] exI [of _ data]) simp
qed

theorem served_segment_is_read_witness:
  "\<exists>w w1 s sv net r w2. NewServer w s [0] = Some (sv, w1) \<and>
    NewReaderViaUDS 7 Linux sys_all net w1 [0] = Some (Inr r, w2) \<and>
    Reader_Get w2 r [1] = Some (Some [2, 3], True) \<and> Reader_Get w2 r [4] = Some (None, False)"
proof -
  obtain w v obj ht e data and l :: loader where d: "live w (l_segment l) v obj data" "files w (DevShmPath [97]) = Some obj"
      "store_inv ht e data" "length data = 300" "stored ht data = [[1] \<mapsto> [2, 3]]"
      "segments w (l_segment l) = Some \<lparr>seg_name = [97], seg_data = Some v, seg_cap = 300,
        seg_mapped = True, seg_backedByFile = True\<rparr>"
    using demo_served by blast
  obtain sv w1 where sv: "NewServer w (l_segment l) [0] = Some (sv, w1)" using NewServer_live [OF d(1)] by blast
  have name: "sv_segmentName sv = [97]" using borrow_live(5) [OF sv] d(6) by (simp add: Segment_Name_def)
  let ?net = "\<lparr>net_dial = (\<lambda>_. Some (peer_of w1 (SetState sv StateReady))), net_write = buffer\<rparr>"
  have net: "dials ?net [0] w1 (SetState sv StateReady)" by (simp add: dials_def)
  have sys: "can_open sys_all [97] (length data)" by (simp add: can_open_def sys_all_def d(4))
  obtain r w2 where "NewReaderViaUDS 7 Linux sys_all ?net w1 [0] = Some (Inr r, w2)"
      "\<forall>k. Reader_Get w2 r k = Some (stored ht data k, stored ht data k \<noteq> None)"
    using served_segment_is_read [OF d(1-3) sv name _ _ _ _ net sys, of 7] by fastforce
  then show ?thesis using sv d(5)
    by (intro exI [of _ w] exI [of _ w1] exI [of _ "l_segment l"] exI [of _ sv] exI [of _ ?net] exI [of _ r] exI [of _ w2]) simp
qed

text \<open>
  A server that borrows a segment disowns it for everybody: \<open>NewServer\<close> marks the one \<open>Segment\<close> that it
  shares with the loader, so the loader's own \<open>Destroy\<close> no longer unlinks the file.
\<close>

lemma borrowed_segment_is_not_unlinked:
  assumes sv: "NewServer w (Loader_Segment l) addr = Some (sv, w1)"
    and d: "Loader_Destroy Linux sys w1 l = Some (e, w2)"
  shows "files w2 = files w"
proof -
  note b = borrow_live [OF sv]
  obtain seg where seg: "segments w1 (l_segment l) = Some seg" "\<not> seg_backedByFile seg"
    using b(7) by (auto simp: Loader_Segment_def)
  have dd: "linux_destroy sys w1 (l_segment l) = Some (e, w2)"
    using d by (simp add: Loader_Destroy_def Segment_Destroy_def)
  then obtain e1 w3 where c: "linux_close sys w1 (l_segment l) = Some (e1, w3)"
    by (cases "linux_close sys w1 (l_segment l)") (auto simp: linux_destroy_def)
  have "files w3 = files w1" "\<exists>g. segments w3 (l_segment l) = Some g \<and> \<not> seg_backedByFile g"
    using c seg by (auto simp: linux_close_def Let_def split: option.splits if_splits)
  then show ?thesis using dd b(2) by (auto simp: linux_destroy_def c)
qed

section \<open>The programs\<close>

text \<open>
  C26. The demo program: started on a machine without its segment, whatever seed is drawn and in whatever
  order the runtime walks the map, it loads four entries, finds the first one's value, answers the batch
  with the second one's value and a miss, and leaves no file behind.
\<close>

theorem demo_main_output:
  assumes new: "files w (DevShmPath demo_name) = None" "can_create sys demo_name (64 * 1024 * 1024)"
    and sys: "sys_munmap_ok sys" "\<forall>path. sys_remove_ok sys path"
    and rng: "randSeed rng = Some (seed, rng')" and es: "mset es = mset demo_entries" and fuel: "4 < fuel"
  shows "\<exists>w'. demo_main fuel pkgSeed rng sys w es =
      Some (Inr \<lparr>do_count = 4, do_get = (Some (demo_value 0), True),
        do_batch = ([Some (demo_value 1), None], [True, False]), do_close = None, do_destroy = None\<rparr>, w') \<and>
    files w' (DevShmPath demo_name) = None"
proof -
  define sz :: nat where "sz = 64 * 1024 * 1024"
  have sz: "298 \<le> sz" "sz < 2 ^ 31" "0 < sz" "int sz = 64 * 1024 * 1024" by (simp_all add: sz_def)
  obtain l w1 v obj where l: "NewLoader Linux sys w \<lparr>SegmentName = demo_name, SegmentSize = int sz, LoadFactor = Finite 0\<rparr> =
        Some (Inr l, w1)" "l_hashTable l = None" "live w1 (l_segment l) v obj (replicate sz 0)"
      "segments w1 (l_segment l) = Some \<lparr>seg_name = demo_name, seg_data = Some v, seg_cap = int sz,
        seg_mapped = True, seg_backedByFile = True\<rparr>"
    using create_loader [OF new [folded sz_def] sz(3), of "Finite 0"] by blast
  obtain l1 w2 l2 src data ht e where ld: "Segment_Init rng w1 l 2 = Some ((None, l1, rng'), w2)"
      "Segment_Load fuel pkgSeed rng' map_data_source w2 l1 (NewMapDataSource es) =
        Some ((Loaded, 4, l2, src), w1\<lparr>objects := (objects w1)(obj \<mapsto> data)\<rparr>)"
      "l_segment l2 = l_segment l" "store_inv ht e data" "length data = sz" "stored ht data = map_of demo_entries"
    using demo_load [OF l(3) refl l(2) sz(1,2) rng es fuel, of pkgSeed] by blast
  define w3 where "w3 = w1\<lparr>objects := (objects w1)(obj \<mapsto> data)\<rparr>"
  have live3: "live w3 (l_segment l) v obj data" unfolding w3_def by (rule live_update [OF l(3)]) (simp add: ld(5))
  have seg3: "segments w3 (l_segment l) = Some \<lparr>seg_name = demo_name, seg_data = Some v, seg_cap = int sz,
      seg_mapped = True, seg_backedByFile = True\<rparr>" using l(4) by (simp add: w3_def)
  obtain r where r: "NewReaderFromSegment pkgSeed w3 (l_segment l) = Some r" "r_segment r = Some (l_segment l)"
      "r_conn r = NoConn" "r_closed r = False" "reader_usable (w3, r)" "reader_content (w3, r) = map_of demo_entries"
    using reader_from_segment [OF ld(4) live3, of pkgSeed] ld(6) by auto
  obtain w4 w5 where c: "linux_close sys w3 (l_segment l) = Some (None, w4)"
      "linux_destroy sys w4 (l_segment l) = Some (None, w5)" "files w5 (DevShmPath demo_name) = None"
    using close_then_destroy [OF seg3 sys(1)] sys(2) by blast
  have close: "Reader_Close Linux sys w3 r = Some (None, r\<lparr>r_closed := True, r_conn := NoConn\<rparr>, w4)"
    using r(2-4) c(1) by (simp add: Reader_Close_def Segment_Close_def)
  show ?thesis
    unfolding demo_main_def
    using l(1) ld(1,2,3) r(1) close c(2,3)
    by (simp add: sz(4) w3_def [symmetric] Loader_Segment_def Loader_Destroy_def Segment_Destroy_def
        Reader_Get_content [OF r(5)] Reader_GetBatch_content [OF r(5)] r(6) demo_content)
qed

theorem demo_main_output_witness:
  "\<exists>w'. demo_main 5 7 demo_rng sys_all empty_world demo_entries =
      Some (Inr \<lparr>do_count = 4, do_get = (Some (demo_value 0), True),
        do_batch = ([Some (demo_value 1), None], [True, False]), do_close = None, do_destroy = None\<rparr>, w')"
proof -
  have c: "files empty_world (DevShmPath demo_name) = None" "can_create sys_all demo_name (64 * 1024 * 1024)"
    "sys_munmap_ok sys_all" "\<forall>path. sys_remove_ok sys_all path"
    by (simp_all add: empty_world_def can_create_def sys_all_def)
  from demo_main_output [OF c demo_rng_seed refl, of 5 7] show ?thesis by auto
qed

text \<open>
  C25. The daemon and its text source: \<open>LineDataSource.Open\<close> estimates no entries, so a
  fresh segment gets a table of one slot. Started with a source of two or more valid lines, all of which
  would fit the segment of less than 2 GB, \<open>featload\<close> ends in the ready state without an
  error, and every reader finds the first entry of the source only.
\<close>

theorem featload_source_serves_one_entry:
  assumes fl: "\<not> fl_version fl" "fl_source fl = path" "path \<noteq> []" "fl_name fl = name" "fl_size fl = int sz"
    and new: "files w (DevShmPath name) = None" "can_create sys name sz" "can_open sys' name sz"
    and content: "fs_file fs path = Some (concat (map line_bytes (kv1 # kv2 # es)))"
    and ok: "\<forall>kv\<in>set (kv1 # kv2 # es). line_entry_ok kv \<and> valid_entry kv"
    and size: "88 + chunks_size (kv1 # kv2 # es) \<le> sz" "sz < 2 ^ 31"
    and run: "randSeed rng = Some (seed, rng')" "length es + 2 < fuel"
  shows "\<exists>sv l w1 r w2. featload_main fuel pkgSeed rng sys fs w fl = Some (Serving sv l, w1) \<and>
    sv_state sv = StateReady \<and>
    NewReader pkgSeed' Linux sys' net w1 name [] = Some (Inr r, w2) \<and>
    (\<forall>k. Reader_Get w2 r k = Some ([fst kv1 \<mapsto> snd kv1] k, k = fst kv1))"
proof -
  have "0 < sz" using size by simp
  then obtain l w1 v obj where l: "NewLoader Linux sys w \<lparr>SegmentName = name, SegmentSize = int sz, LoadFactor = Finite 0\<rparr> =
        Some (Inr l, w1)" "l_hashTable l = None" "live w1 (l_segment l) v obj (replicate sz 0)"
      "files w1 (DevShmPath name) = Some obj"
    using create_loader [OF new(1,2), of "Finite 0"] by blast
  obtain r ht where r: "Loader_Load fuel pkgSeed rng (int sz) (line_data_source fs) l (replicate sz 0)
        (NewLineDataSource path) = Some r"
      "lo_end r = Loaded" "stored ht (lo_data r) = [fst kv1 \<mapsto> snd kv1]"
      "loader_inv ht (lo_loader r) (lo_data r)" "length (lo_data r) = sz"
    using line_source_loads_one [OF l(2) run(1) content ok, of "replicate sz 0" fuel pkgSeed] size run(2) by auto
  define w2 where "w2 = w1\<lparr>objects := (objects w1)(obj \<mapsto> lo_data r)\<rparr>"
  have load: "Segment_Load fuel pkgSeed rng (line_data_source fs) w1 l (NewLineDataSource path) =
      Some ((lo_end r, lo_count r, lo_loader r, lo_source r), w2)"
    unfolding Segment_Load_def w2_def by (rule on_segment_live [OF l(3)]) (simp add: r(1))
  have live2: "live w2 (l_segment l) v obj (lo_data r)" unfolding w2_def by (rule live_update [OF l(3)]) (simp add: r(5))
  obtain sv w3 where sv: "NewServer w2 (l_segment l) (uds_address (fl_uds fl)) = Some (sv, w3)"
    using NewServer_live [OF live2] by blast
  have main: "featload_main fuel pkgSeed rng sys fs w fl = Some (Serving (SetState sv StateReady) (lo_loader r), w3)"
    using fl l(1) load r(2) Load_segment [OF r(1)] sv
    by (simp add: featload_main_def serve_segment_def Loader_Segment_def)
  have "files w3 (DevShmPath name) = Some obj" "objects w3 obj = Some (lo_data r)" "can_open sys' name (length (lo_data r))"
    using borrow_live(2,3) [OF sv] l(4) r(5) new(3) by (simp_all add: w2_def)
  from open_reader [OF this(1,2) _ this(3)] r(3,4) obtain q w4 where
      "NewReader pkgSeed' Linux sys' net w3 name [] = Some (Inr q, w4)"
      "\<forall>k. Reader_Get w4 q k = Some ([fst kv1 \<mapsto> snd kv1] k, k = fst kv1)"
    by (fastforce simp: reads_def loader_inv_def)
  with main show ?thesis by (auto simp: SetState_def)
qed

definition demo_flags :: flags where
  "demo_flags = default_flags\<lparr>fl_size := 300, fl_source := [120]\<rparr>"

theorem featload_source_serves_one_entry_witness:
  "\<exists>sv l w1 r w2. featload_main 5 7 demo_rng sys_all tsv_fs empty_world demo_flags = Some (Serving sv l, w1) \<and>
    NewReader 8 Linux sys_all \<lparr>net_dial = (\<lambda>_. None), net_write = buffer\<rparr> w1 (fl_name demo_flags) [] = Some (Inr r, w2) \<and>
    Reader_Get w2 r [97] = Some (Some [98], True) \<and> Reader_Get w2 r [99] = Some (None, False)"
proof -
  let ?name = "fl_name demo_flags"
  have fl: "\<not> fl_version demo_flags" "fl_source demo_flags = [120]" "[120] \<noteq> ([] :: bytes)" "?name = ?name"
      "fl_size demo_flags = int 300"
    by (simp_all add: demo_flags_def default_flags_def)
  have c: "files empty_world (DevShmPath ?name) = None" "can_create sys_all ?name 300" "can_open sys_all ?name 300"
    by (simp_all add: empty_world_def can_create_def can_open_def sys_all_def)
  have t: "fs_file tsv_fs [120] = Some (concat (map line_bytes (([97], [98]) # ([99], [100]) # [])))"
      "\<forall>kv\<in>set (([97], [98]) # ([99], [100]) # []). line_entry_ok kv \<and> valid_entry kv"
    by (simp_all add: tsv_fs_def line_bytes_def line_entry_ok_def valid_entry_def MaxScanTokenSize_def)
  from featload_source_serves_one_entry [OF fl c t _ _ demo_rng_seed, of 5 7 8] show ?thesis by fastforce
qed

end
